theory Spec2Isabelle
  imports Complex_Main "HOL-Library.Multiset"
begin

section \<open>Data model (src/types: workflow types)\<close>

text \<open>
  The flow editor stores a flow as a list of nodes and a list of edges. A group node owns an
  ordered list of bubbles (steps); every bubble has an id, a kind and a payload record with
  optional fields. JavaScript numbers that hold canvas coordinates are modelled as rationals
  (finite values only), counters and slot indexes as naturals, strings as lists of 8-bit
  characters. An optional field (\<open>field?: T\<close>) is an \<open>option\<close>.
\<close>

datatype NodeType =
    Start | Message | MessageUtm | MessageTime | Photo | PhotoCaption | PhotoCaptionTime
  | Video | VideoCaption | VideoCaptionTime | Audio | Time | LeadRespond | Hook | DeleteHook
  | LinkPix | Deliverable | Reminder | Note

datatype FlowNodeType = GroupNode | StartNode | NoteNode

datatype Action = Add | Delete

record TimeMessageRule =
  tmr_id :: string
  tmr_startTime :: string
  tmr_endTime :: string
  tmr_content :: string

record TimeMediaRule =
  tmd_id :: string
  tmd_startTime :: string
  tmd_endTime :: string
  tmd_mediaUrl :: string
  tmd_caption :: "string option"

record NoteStyle =
  fontSize :: "rat option"
  textColor :: "string option"
  bgColor :: "string option"

record NoteData =
  note_title :: "string option"
  note_html :: "string option"
  note_textPreview :: "string option"
  note_style :: "NoteStyle option"
  note_heightMode :: "string option"

record NodeData =
  label :: string
  supabaseRowId :: "nat option"
  supabaseColumn :: "string option"
  content :: "string option"
  utm :: "string option"
  caption :: "string option"
  mediaUrl :: "string option"
  timeMin :: "int option"
  timeMax :: "int option"
  hookFlowId :: "string option"
  hookHours :: "int option"
  hookMinutes :: "int option"
  timeMessageRules :: "TimeMessageRule list option"
  timeMediaRules :: "TimeMediaRule list option"
  deliverableAction :: "Action option"
  deliverableFlowId :: "string option"
  reminderAction :: "Action option"
  reminderFlowId :: "string option"
  reminderHours :: "int option"
  reminderMinutes :: "int option"
  hookAction :: "Action option"
  data_note :: "NoteData option"

record BubbleData =
  bubble_id :: string
  bubble_type :: NodeType
  bubble_data :: NodeData

record Position =
  pos_x :: rat
  pos_y :: rat

record FlowNodeData =
  node_label :: string
  bubbles :: "BubbleData list option"
  node_note :: "NoteData option"

record FlowNode =
  node_id :: string
  node_type :: FlowNodeType
  position :: Position
  width :: "rat option"
  height :: "rat option"
  node_data :: FlowNodeData

record FlowEdge =
  edge_id :: string
  source :: string
  target :: string

section \<open>JavaScript containers and strings\<close>

text \<open>
  A JavaScript \<open>Map\<close> iterates in insertion order and \<open>set\<close> on an existing key keeps the
  key's place: an association list with in-place update. A JavaScript \<open>Set\<close> is a list
  without repetitions in insertion order.
\<close>

type_synonym ('k, 'v) jsmap = "('k \<times> 'v) list"

fun jsmap_set :: "('k, 'v) jsmap \<Rightarrow> 'k \<Rightarrow> 'v \<Rightarrow> ('k, 'v) jsmap" where
  "jsmap_set [] k v = [(k, v)]"
| "jsmap_set ((k', v') # m) k v = (if k' = k then (k, v) # m else (k', v') # jsmap_set m k v)"

definition jsmap_get :: "('k, 'v) jsmap \<Rightarrow> 'k \<Rightarrow> 'v option" where
  "jsmap_get m k = map_of m k"

definition jsmap_delete :: "('k, 'v) jsmap \<Rightarrow> 'k \<Rightarrow> ('k, 'v) jsmap" where
  "jsmap_delete m k = filter (\<lambda>kv. fst kv \<noteq> k) m"

type_synonym 'a jsset = "'a list"

definition jsset_add :: "'a jsset \<Rightarrow> 'a \<Rightarrow> 'a jsset" where
  "jsset_add s x = (if x \<in> set s then s else s @ [x])"

definition jsset_has :: "'a jsset \<Rightarrow> 'a \<Rightarrow> bool" where
  "jsset_has s x = (x \<in> set s)"

definition jsset_of_list :: "'a list \<Rightarrow> 'a jsset" where
  "jsset_of_list xs = fold (\<lambda>x s. jsset_add s x) xs []"

text \<open>
  \<open>Array.prototype.sort\<close> with a comparator is stable; for a comparator that is a total
  preorder its result is the stable insertion sort below (\<open>cmp a b \<le> 0\<close> keeps \<open>a\<close> first).
\<close>

fun insort_cmp :: "('a \<Rightarrow> 'a \<Rightarrow> rat) \<Rightarrow> 'a \<Rightarrow> 'a list \<Rightarrow> 'a list" where
  "insort_cmp cmp x [] = [x]"
| "insort_cmp cmp x (y # ys) = (if cmp x y \<le> 0 then x # y # ys else y # insort_cmp cmp x ys)"

definition js_sort :: "('a \<Rightarrow> 'a \<Rightarrow> rat) \<Rightarrow> 'a list \<Rightarrow> 'a list" where
  "js_sort cmp xs = foldr (insort_cmp cmp) xs []"

text \<open>Decimal rendering of a non-negative integer (\<open>String(n)\<close>, template literals).\<close>

definition digit_char :: "nat \<Rightarrow> char" where
  "digit_char d = char_of (48 + d)"

fun show_nat :: "nat \<Rightarrow> string" where
  "show_nat n = (if n < 10 then [digit_char n] else show_nat (n div 10) @ [digit_char (n mod 10)])"

declare show_nat.simps [simp del]

section \<open>Graph Order Resolver (src/hooks/useGroupOrder.ts)\<close>

record GroupOrderInfo =
  groupId :: string
  orderTag :: string
  orderIndex :: nat

text \<open>\<open>buildAdjacencyMap\<close>: source id to the list of its targets, in edge order.\<close>

definition buildAdjacencyMap :: "FlowEdge list \<Rightarrow> (string, string list) jsmap" where
  "buildAdjacencyMap edges =
     fold (\<lambda>edge adj.
             let existing = (case jsmap_get adj (source edge) of Some ts \<Rightarrow> ts | None \<Rightarrow> [])
             in jsmap_set adj (source edge) (existing @ [target edge]))
          edges []"

definition origin :: Position where
  "origin = \<lparr>pos_x = 0, pos_y = 0\<rparr>"

text \<open>The comparator shared by \<open>sortByPosition\<close> and \<open>sortByCanvasPosition\<close>.\<close>

definition comparePosition :: "(string, Position) jsmap \<Rightarrow> string \<Rightarrow> string \<Rightarrow> rat" where
  "comparePosition nodePositions a b =
     (let posA = (case jsmap_get nodePositions a of Some p \<Rightarrow> p | None \<Rightarrow> origin);
          posB = (case jsmap_get nodePositions b of Some p \<Rightarrow> p | None \<Rightarrow> origin)
      in if pos_x posA \<noteq> pos_x posB then pos_x posA - pos_x posB
         else pos_y posA - pos_y posB)"

definition sortByPosition :: "(string, Position) jsmap \<Rightarrow> string list \<Rightarrow> string list" where
  "sortByPosition nodePositions ids = js_sort (comparePosition nodePositions) ids"

definition sortByCanvasPosition :: "string list \<Rightarrow> (string, Position) jsmap \<Rightarrow> string list" where
  "sortByCanvasPosition groupIds nodePositions = js_sort (comparePosition nodePositions) groupIds"

text \<open>
  The body shared by the two \<open>for (const target of sortByPosition(...))\<close> loops: a target that
  is a group and not yet visited is pushed on the queue and marked visited.
\<close>

fun enqueueTargets :: "string jsset \<Rightarrow> string list \<Rightarrow> string list \<times> string jsset
    \<Rightarrow> string list \<times> string jsset" where
  "enqueueTargets groupIds [] qv = qv"
| "enqueueTargets groupIds (t # ts) (queue, visited) =
     (if jsset_has groupIds t \<and> \<not> jsset_has visited t
      then enqueueTargets groupIds ts (queue @ [t], jsset_add visited t)
      else enqueueTargets groupIds ts (queue, visited))"

lemma enqueueTargets_measure:
  "enqueueTargets groupIds ts (queue, visited) = (queue', visited') \<Longrightarrow>
   length queue' + card (set groupIds - set visited') = length queue + card (set groupIds - set visited)"
proof (induction ts arbitrary: queue visited)
  case Nil
  then show ?case by simp
next
  case (Cons t ts)
  show ?case
  proof (cases "jsset_has groupIds t \<and> \<not> jsset_has visited t")
    case True
    then have t: "t \<in> set groupIds" "t \<notin> set visited"
      by (simp_all add: jsset_has_def)
    from True Cons.prems
    have "enqueueTargets groupIds ts (queue @ [t], jsset_add visited t) = (queue', visited')"
      by simp
    from Cons.IH [OF this]
    have "length queue' + card (set groupIds - set visited') =
          Suc (length queue) + card (set groupIds - insert t (set visited))"
      using t by (simp add: jsset_add_def)
    moreover have "set groupIds - insert t (set visited) = (set groupIds - set visited) - {t}"
      by auto
    moreover have "t \<in> set groupIds - set visited"
      using t by simp
    then have "card (set groupIds - set visited) = Suc (card ((set groupIds - set visited) - {t}))"
      by (metis List.finite_set card_Suc_Diff1 finite_Diff)
    ultimately show ?thesis by simp
  next
    case False
    with Cons.prems
    have "enqueueTargets groupIds ts (queue, visited) = (queue', visited')"
      by auto
    from Cons.IH [OF this] show ?thesis .
  qed
qed

text \<open>The \<open>while (queue.length > 0)\<close> loop of \<open>topologicalSortFromStart\<close>.\<close>

function processQueue :: "(string, string list) jsmap \<Rightarrow> string jsset \<Rightarrow> (string, Position) jsmap
    \<Rightarrow> string list \<Rightarrow> string jsset \<Rightarrow> string list \<Rightarrow> string list \<times> string jsset" where
  "processQueue adj groupIds nodePositions [] visited result = (result, visited)"
| "processQueue adj groupIds nodePositions (current # rest) visited result =
     (let targets = (case jsmap_get adj current of Some ts \<Rightarrow> ts | None \<Rightarrow> []);
          qv = enqueueTargets groupIds (sortByPosition nodePositions targets) (rest, visited)
      in processQueue adj groupIds nodePositions (fst qv) (snd qv) (result @ [current]))"
  by pat_completeness auto
termination
proof (relation "measure (\<lambda>(adj, groupIds, nodePositions, queue, visited, result).
                            length queue + card (set groupIds - set visited))", goal_cases)
  case 1
  show ?case by simp
next
  case (2 adj groupIds nodePositions current rest visited result targets qv)
  obtain q v where qv: "qv = (q, v)" by (cases qv)
  with 2 have "enqueueTargets groupIds (sortByPosition nodePositions targets) (rest, visited) = (q, v)"
    by simp
  from enqueueTargets_measure [OF this] qv show ?case by simp
qed

definition topologicalSortFromStart :: "string \<Rightarrow> string jsset \<Rightarrow> FlowEdge list
    \<Rightarrow> (string, Position) jsmap \<Rightarrow> string list" where
  "topologicalSortFromStart startNodeId groupIds edges nodePositions =
     (let adj = buildAdjacencyMap edges;
          fromStart = (case jsmap_get adj startNodeId of Some ts \<Rightarrow> ts | None \<Rightarrow> []);
          qv = enqueueTargets groupIds (sortByPosition nodePositions fromStart) ([], []);
          rv = processQueue adj groupIds nodePositions (fst qv) (snd qv) [];
          remaining = filter (\<lambda>i. \<not> jsset_has (snd rv) i) groupIds
      in fst rv @ sortByPosition nodePositions remaining)"

definition calculateGroupOrder :: "FlowNode list \<Rightarrow> FlowEdge list \<Rightarrow> GroupOrderInfo list" where
  "calculateGroupOrder nodes edges =
     (let groupNodes = filter (\<lambda>n. node_type n = GroupNode) nodes
      in if groupNodes = [] then []
         else
           let groupIds = jsset_of_list (map node_id groupNodes);
               nodePositions = fold (\<lambda>n m. jsmap_set m (node_id n) (position n)) groupNodes [];
               groupEdges = filter (\<lambda>e. jsset_has groupIds (source e) \<and> jsset_has groupIds (target e)) edges;
               startEdges = filter (\<lambda>e. source e = ''start-node'' \<and> jsset_has groupIds (target e)) edges;
               orderedGroupIds =
                 (if groupEdges \<noteq> [] \<or> startEdges \<noteq> []
                  then topologicalSortFromStart ''start-node'' groupIds edges nodePositions
                  else sortByCanvasPosition groupIds nodePositions)
           in map (\<lambda>(gid, index). \<lparr>groupId = gid, orderTag = ''G'' @ show_nat (index + 1), orderIndex = index\<rparr>)
                  (zip orderedGroupIds [0..<length orderedGroupIds]))"


section \<open>Slot Allocator and Normalizer (lib/supabaseColumnMapping)\<close>

text \<open>
  Strings: \<open>trim\<close> strips the JavaScript white space and line terminator characters (those
  that fit in eight bits), \<open>toUpperCase\<close> maps a..z to A..Z and leaves every other character
  as it is (case mapping beyond ASCII is not modelled).
\<close>

definition isWhiteSpace :: "char \<Rightarrow> bool" where
  "isWhiteSpace c = (of_char c \<in> {9, 10, 11, 12, 13, 32, 160 :: nat})"

definition js_trim :: "string \<Rightarrow> string" where
  "js_trim s = rev (dropWhile isWhiteSpace (rev (dropWhile isWhiteSpace s)))"

definition toUpperChar :: "char \<Rightarrow> char" where
  "toUpperChar c = (if 97 \<le> (of_char c :: nat) \<and> (of_char c :: nat) \<le> 122
                    then char_of ((of_char c :: nat) - 32) else c)"

definition js_toUpperCase :: "string \<Rightarrow> string" where
  "js_toUpperCase s = map toUpperChar s"

definition isDigit :: "char \<Rightarrow> bool" where
  "isDigit c = (48 \<le> (of_char c :: nat) \<and> (of_char c :: nat) \<le> 57)"

text \<open>The value of a string of decimal digits (\<open>Number\<close> on the regex group \<open>\d{1,2}\<close>).\<close>

definition digits_value :: "string \<Rightarrow> nat" where
  "digits_value ds = foldl (\<lambda>acc c. 10 * acc + ((of_char c :: nat) - 48)) 0 ds"

datatype ColumnKind = ColM | ColT

definition COLUMN_LIMIT :: nat where
  "COLUMN_LIMIT = 50"

definition isTimeBubble :: "NodeType \<Rightarrow> bool" where
  "isTimeBubble ty = (ty = Time)"

definition isVisualOnlyBubble :: "NodeType \<Rightarrow> bool" where
  "isVisualOnlyBubble ty = (ty = Note)"

definition getColumnKindForBubble :: "NodeType \<Rightarrow> ColumnKind" where
  "getColumnKindForBubble ty = (if isTimeBubble ty then ColT else ColM)"

definition kindLetter :: "ColumnKind \<Rightarrow> char" where
  "kindLetter k = (case k of ColM \<Rightarrow> CHR ''M'' | ColT \<Rightarrow> CHR ''T'')"

definition buildColumn :: "ColumnKind \<Rightarrow> nat \<Rightarrow> string" where
  "buildColumn kind index = kindLetter kind # show_nat index"

text \<open>
  \<open>parseColumn\<close>: the trimmed, upper-cased string must match \<open>^([MT])(\d{1,2})$\<close> and the
  index must lie in 1..COLUMN_LIMIT; the result is the pair (kind, index).
\<close>

definition parseColumn :: "string \<Rightarrow> (ColumnKind \<times> nat) option" where
  "parseColumn col =
     (case js_toUpperCase (js_trim col) of
        [] \<Rightarrow> None
      | k # ds \<Rightarrow>
          if (k = CHR ''M'' \<or> k = CHR ''T'') \<and> (length ds = 1 \<or> length ds = 2) \<and> list_all isDigit ds
          then (let kind = (if k = CHR ''M'' then ColM else ColT);
                    index = digits_value ds
                in if index < 1 \<or> index > COLUMN_LIMIT then None else Some (kind, index))
          else None)"

definition bubblesOf :: "FlowNode \<Rightarrow> BubbleData list" where
  "bubblesOf n = (case bubbles (node_data n) of Some bs \<Rightarrow> bs | None \<Rightarrow> [])"

definition getAllBubblesFromFlowNodes :: "FlowNode list \<Rightarrow> BubbleData list" where
  "getAllBubblesFromFlowNodes nodes =
     concat (map (\<lambda>n. if node_type n = GroupNode \<and> bubbles (node_data n) \<noteq> None
                       then bubblesOf n else []) nodes)"

text \<open>
  The inner loop of \<open>normalizeColumnsWithGroupOrder\<close> over one group: note bubbles are
  skipped, every other bubble is recorded with its slot kind.
\<close>

definition collectBubbles :: "FlowNode \<Rightarrow> (BubbleData \<times> ColumnKind) list" where
  "collectBubbles node =
     map (\<lambda>b. (b, getColumnKindForBubble (bubble_type b)))
         (filter (\<lambda>b. \<not> isVisualOnlyBubble (bubble_type b)) (bubblesOf node))"

text \<open>First loop: the groups named by \<open>groupOrder\<close>, each deleted from \<open>nodeMap\<close> once processed.\<close>

fun processGroupOrder :: "string list \<Rightarrow> (string, FlowNode) jsmap \<Rightarrow> (BubbleData \<times> ColumnKind) list
    \<Rightarrow> (string, FlowNode) jsmap \<times> (BubbleData \<times> ColumnKind) list" where
  "processGroupOrder [] nodeMap acc = (nodeMap, acc)"
| "processGroupOrder (gid # rest) nodeMap acc =
     (case jsmap_get nodeMap gid of
        None \<Rightarrow> processGroupOrder rest nodeMap acc
      | Some node \<Rightarrow>
          if node_type node \<noteq> GroupNode then processGroupOrder rest nodeMap acc
          else processGroupOrder rest (jsmap_delete nodeMap gid) (acc @ collectBubbles node))"

text \<open>Second loop: the groups left in \<open>nodeMap\<close>, in the map's iteration order.\<close>

definition processRemaining :: "(string, FlowNode) jsmap \<Rightarrow> (BubbleData \<times> ColumnKind) list" where
  "processRemaining nodeMap =
     concat (map (\<lambda>(k, node). if node_type node \<noteq> GroupNode then [] else collectBubbles node) nodeMap)"

definition allBubblesInOrder :: "FlowNode list \<Rightarrow> string list \<Rightarrow> (BubbleData \<times> ColumnKind) list" where
  "allBubblesInOrder nodes groupOrder =
     (let nodeMap = fold (\<lambda>node m. jsmap_set m (node_id node) node) nodes [];
          ma = processGroupOrder groupOrder nodeMap []
      in snd ma @ processRemaining (fst ma))"

text \<open>
  The value \<open>currentNormalized\<close> that the counter loop compares with the next column: the
  stored column, trimmed, upper-cased, parsed and rebuilt; \<open>None\<close> stands for \<open>null\<close>.
\<close>

definition currentNormalized :: "BubbleData \<Rightarrow> string option" where
  "currentNormalized bubble =
     (let current = map_option (\<lambda>c. js_toUpperCase (js_trim c)) (supabaseColumn (bubble_data bubble));
          currentParsed = (case current of
                             Some c \<Rightarrow> if c \<noteq> [] then parseColumn c else None
                           | None \<Rightarrow> None)
      in map_option (\<lambda>(kind, index). buildColumn kind index) currentParsed)"

text \<open>The counter loop: two counters, one update per bubble whose column is not the next one.\<close>

fun assignColumns :: "nat \<Rightarrow> nat \<Rightarrow> (BubbleData \<times> ColumnKind) list \<Rightarrow> (string, string) jsmap
    \<Rightarrow> (string, string) jsmap" where
  "assignColumns mCounter tCounter [] updates = updates"
| "assignColumns mCounter tCounter ((bubble, kind) # rest) updates =
     (if kind = ColM
      then (let nextColumn = buildColumn ColM (mCounter + 1)
            in assignColumns (mCounter + 1) tCounter rest
                 (if currentNormalized bubble \<noteq> Some nextColumn
                  then jsmap_set updates (bubble_id bubble) nextColumn else updates))
      else (let nextColumn = buildColumn ColT (tCounter + 1)
            in assignColumns mCounter (tCounter + 1) rest
                 (if currentNormalized bubble \<noteq> Some nextColumn
                  then jsmap_set updates (bubble_id bubble) nextColumn else updates)))"

definition normalizeColumnsWithGroupOrder :: "FlowNode list \<Rightarrow> string list \<Rightarrow> (string, string) jsmap option" where
  "normalizeColumnsWithGroupOrder nodes groupOrder =
     (let updates = assignColumns 0 0 (allBubblesInOrder nodes groupOrder) []
      in if updates \<noteq> [] then Some updates else None)"

text \<open>
  \<open>reorganizeColumnsAfterDeletion\<close>: the localized shift after one deletion. The loop body
  comes first: a bubble whose column parses to the deleted kind with a larger index is moved
  down by one.
\<close>

definition shiftColumn :: "ColumnKind \<Rightarrow> nat \<Rightarrow> BubbleData \<Rightarrow> (string, string) jsmap \<Rightarrow> (string, string) jsmap" where
  "shiftColumn deletedKind deletedIndex bubble updates =
     (case supabaseColumn (bubble_data bubble) of
        None \<Rightarrow> updates
      | Some currentColumn \<Rightarrow>
          if currentColumn = [] then updates
          else (case parseColumn currentColumn of
                  None \<Rightarrow> updates
                | Some (kind, index) \<Rightarrow>
                    if kind = deletedKind \<and> index > deletedIndex
                    then jsmap_set updates (bubble_id bubble) (buildColumn deletedKind (index - 1))
                    else updates))"

definition reorganizeColumnsAfterDeletion :: "FlowNode list \<Rightarrow> string \<Rightarrow> (string, string) jsmap option" where
  "reorganizeColumnsAfterDeletion nodes deletedColumn =
     (case parseColumn deletedColumn of
        None \<Rightarrow> None
      | Some (deletedKind, deletedIndex) \<Rightarrow>
          let updates = fold (shiftColumn deletedKind deletedIndex) (getAllBubblesFromFlowNodes nodes) []
          in if updates \<noteq> [] then Some updates else None)"

section \<open>Store helpers (store/workflowStore.ts, the operations store)\<close>

text \<open>
  The \<open>nodes.map\<close> shared by \<open>applyNormalizationToNodes\<close> and step 3 of \<open>deleteBubble\<close>: in
  every group node each bubble whose id has an update gets the new column.
\<close>

definition withNewColumn :: "(string, string) jsmap \<Rightarrow> BubbleData \<Rightarrow> BubbleData" where
  "withNewColumn updates b =
     (case jsmap_get updates (bubble_id b) of
        Some newColumn \<Rightarrow>
          if newColumn \<noteq> []
          then b\<lparr>bubble_data := (bubble_data b)\<lparr>supabaseColumn := Some newColumn\<rparr>\<rparr>
          else b
      | None \<Rightarrow> b)"

definition applyColumnUpdates :: "(string, string) jsmap \<Rightarrow> FlowNode list \<Rightarrow> FlowNode list" where
  "applyColumnUpdates updates nodes =
     map (\<lambda>n. if node_type n \<noteq> GroupNode then n
               else n\<lparr>node_data := (node_data n)\<lparr>bubbles := Some (map (withNewColumn updates) (bubblesOf n))\<rparr>\<rparr>)
         nodes"

definition applyNormalizationToNodes :: "FlowNode list \<Rightarrow> FlowEdge list \<Rightarrow> FlowNode list" where
  "applyNormalizationToNodes nodes edges =
     (let orderInfo = calculateGroupOrder nodes edges;
          groupOrder = map groupId orderInfo
      in case normalizeColumnsWithGroupOrder nodes groupOrder of
           None \<Rightarrow> nodes
         | Some updates \<Rightarrow> if updates = [] then nodes else applyColumnUpdates updates nodes)"

text \<open>
  \<open>deleteBubble\<close> of the store, on the nodes of the flow it edits. Step 1 removes the bubble
  from the named group and records its column; without a column the nodes are returned with
  the bubble removed. Step 2 computes the shift on the nodes after the deletion, step 3
  applies it.
\<close>

definition removeBubble :: "FlowNode list \<Rightarrow> string \<Rightarrow> string \<Rightarrow> FlowNode list" where
  "removeBubble nodes nodeId bubbleId =
     map (\<lambda>n. if node_id n \<noteq> nodeId \<or> node_type n \<noteq> GroupNode then n
               else n\<lparr>node_data := (node_data n)\<lparr>bubbles :=
                      Some (filter (\<lambda>b. bubble_id b \<noteq> bubbleId) (bubblesOf n))\<rparr>\<rparr>)
         nodes"

definition deletedColumnOf :: "FlowNode list \<Rightarrow> string \<Rightarrow> string \<Rightarrow> string option" where
  "deletedColumnOf nodes nodeId bubbleId =
     fold (\<lambda>n deletedColumn.
             if node_id n \<noteq> nodeId \<or> node_type n \<noteq> GroupNode then deletedColumn
             else (case find (\<lambda>b. bubble_id b = bubbleId) (bubblesOf n) of
                     Some targetBubble \<Rightarrow> supabaseColumn (bubble_data targetBubble)
                   | None \<Rightarrow> deletedColumn))
          nodes None"

definition deleteBubble :: "FlowNode list \<Rightarrow> string \<Rightarrow> string \<Rightarrow> FlowNode list" where
  "deleteBubble nodes nodeId bubbleId =
     (let updatedNodes = removeBubble nodes nodeId bubbleId
      in case deletedColumnOf nodes nodeId bubbleId of
           None \<Rightarrow> updatedNodes
         | Some deletedColumn \<Rightarrow>
             if deletedColumn = [] then updatedNodes
             else (case reorganizeColumnsAfterDeletion updatedNodes deletedColumn of
                     None \<Rightarrow> updatedNodes
                   | Some columnUpdates \<Rightarrow> applyColumnUpdates columnUpdates updatedNodes))"

text \<open>
  \<open>updateBubble\<close> of the store, on the nodes of the flow: the bubble with the given id in the
  named group gets the new data (and the new type, when one is given).
\<close>

definition updateBubble :: "FlowNode list \<Rightarrow> string \<Rightarrow> string \<Rightarrow> NodeData \<Rightarrow> NodeType option \<Rightarrow> FlowNode list" where
  "updateBubble nodes nodeId bubbleId newData newType =
     map (\<lambda>n. if node_id n = nodeId \<and> node_type n = GroupNode
               then n\<lparr>node_data := (node_data n)\<lparr>bubbles :=
                      Some (map (\<lambda>b. if bubble_id b = bubbleId
                                       then (case newType of
                                               Some ty \<Rightarrow> b\<lparr>bubble_data := newData, bubble_type := ty\<rparr>
                                             | None \<Rightarrow> b\<lparr>bubble_data := newData\<rparr>)
                                       else b)
                                (bubblesOf n))\<rparr>\<rparr>
               else n)
         nodes"

section \<open>Manual slot assignment (the flow editor's \<open>handleChangeBubbleColumn\<close>)\<close>

text \<open>
  The handler shows an error toast and returns, or updates the bubble through the store. The
  model returns the toast, if any, together with the nodes of the flow after the call.
\<close>

datatype Toast = ColunaInvalida | ColunaJaUsada string

definition handleChangeBubbleColumn :: "FlowNode list \<Rightarrow> string \<Rightarrow> string \<Rightarrow> string
    \<Rightarrow> Toast option \<times> FlowNode list" where
  "handleChangeBubbleColumn nodes nodeId bubbleId column =
     (case parseColumn column of
        None \<Rightarrow> (Some ColunaInvalida, nodes)
      | Some (kind, index) \<Rightarrow>
          let normalized = buildColumn kind index;
              duplicates =
                list_ex (\<lambda>b. if bubble_id b = bubbleId then False
                              else (case supabaseColumn (bubble_data b) of
                                      None \<Rightarrow> False
                                    | Some col \<Rightarrow>
                                        if col = [] then False
                                        else (case parseColumn col of
                                                None \<Rightarrow> False
                                              | Some (pk, pindex) \<Rightarrow> buildColumn pk pindex = normalized)))
                        (getAllBubblesFromFlowNodes nodes)
          in if duplicates then (Some (ColunaJaUsada normalized), nodes)
             else (case find (\<lambda>n. node_id n = nodeId) nodes of
                     None \<Rightarrow> (None, nodes)
                   | Some node \<Rightarrow>
                       if node_type node \<noteq> GroupNode then (None, nodes)
                       else (case find (\<lambda>b. bubble_id b = bubbleId) (bubblesOf node) of
                               None \<Rightarrow> (None, nodes)
                             | Some bubble \<Rightarrow>
                                 (None, updateBubble nodes nodeId bubbleId
                                          ((bubble_data bubble)\<lparr>supabaseColumn := Some normalized\<rparr>) None))))"

section \<open>Step Payload Codec: string helpers\<close>

definition startsWith :: "string \<Rightarrow> string \<Rightarrow> bool" where
  "startsWith p s = (take (length p) s = p)"

text \<open>\<open>s.split(c)\<close> for a one-character separator: never empty, \<open>"".split(c)\<close> is \<open>[""]\<close>.\<close>

fun js_split :: "char \<Rightarrow> string \<Rightarrow> string list" where
  "js_split c [] = [[]]"
| "js_split c (x # xs) =
     (if x = c then [] # js_split c xs
      else (case js_split c xs of [] \<Rightarrow> [[x]] | w # ws \<Rightarrow> (x # w) # ws))"

fun js_join :: "string \<Rightarrow> string list \<Rightarrow> string" where
  "js_join sep [] = []"
| "js_join sep [x] = x"
| "js_join sep (x # y # ys) = x @ sep @ js_join sep (y # ys)"

text \<open>\<open>parts[i] || dflt\<close>: the part when it exists and is not empty, else the default.\<close>

definition partOr :: "string list \<Rightarrow> nat \<Rightarrow> string \<Rightarrow> string" where
  "partOr parts i dflt = (if i < length parts \<and> parts ! i \<noteq> [] then parts ! i else dflt)"

text \<open>\<open>a || b\<close> on optional strings: the first one that is defined and not empty.\<close>

definition js_or :: "string option \<Rightarrow> string option \<Rightarrow> string option" where
  "js_or a b = (case a of Some x \<Rightarrow> if x \<noteq> [] then a else b | None \<Rightarrow> b)"

definition orEmpty :: "string option \<Rightarrow> string" where
  "orEmpty a = (case a of Some x \<Rightarrow> x | None \<Rightarrow> [])"

text \<open>\<open>s.indexOf(p)\<close>: the first position at which \<open>p\<close> occurs in \<open>s\<close>.\<close>

fun js_indexOf :: "string \<Rightarrow> string \<Rightarrow> nat option" where
  "js_indexOf p [] = (if p = [] then Some 0 else None)"
| "js_indexOf p (x # xs) =
     (if startsWith p (x # xs) then Some 0 else map_option Suc (js_indexOf p xs))"

text \<open>
  Template literals and \<open>String(n)\<close> on integers, \<open>padStart(2, '0')\<close>, and \<open>Number(s)\<close> on
  the strings that denote integers in plain decimal (blank is 0; every other string, also
  fractions, exponents and hexadecimal, is read as NaN, which is \<open>None\<close>: the model keeps
  \<open>timeMin\<close> and \<open>timeMax\<close> as integers).
\<close>

definition show_int :: "int \<Rightarrow> string" where
  "show_int i = (if i < 0 then CHR ''-'' # show_nat (nat (- i)) else show_nat (nat i))"

definition padStart2 :: "string \<Rightarrow> string" where
  "padStart2 s = replicate (2 - length s) CHR ''0'' @ s"

definition js_Number :: "string \<Rightarrow> int option" where
  "js_Number s =
     (let t = js_trim s
      in if t = [] then Some 0
         else (case t of
                 c # ds \<Rightarrow>
                   if c = CHR ''-'' \<and> ds \<noteq> [] \<and> list_all isDigit ds then Some (- int (digits_value ds))
                   else if c = CHR ''+'' \<and> ds \<noteq> [] \<and> list_all isDigit ds then Some (int (digits_value ds))
                   else if list_all isDigit t then Some (int (digits_value t))
                   else None
               | [] \<Rightarrow> Some 0))"

text \<open>
  The match of \<open>/-(\d{1,2}):(\d{1,2})$/\<close>: the text after the last hyphen must be one or two
  digits, a colon, and one or two digits. The result is the text before that hyphen (what
  \<open>content.substring(0, content.lastIndexOf(...))\<close> yields) and the two digit groups.
\<close>

definition matchTimeSuffix :: "string \<Rightarrow> (string \<times> string \<times> string) option" where
  "matchTimeSuffix str =
     (if CHR ''-'' \<notin> set str then None
      else
        let suffix = rev (takeWhile (\<lambda>c. c \<noteq> CHR ''-'') (rev str));
            before = take (length str - length suffix - 1) str
        in (case js_split CHR '':'' suffix of
              [hh, mm] \<Rightarrow>
                if (length hh = 1 \<or> length hh = 2) \<and> list_all isDigit hh \<and>
                   (length mm = 1 \<or> length mm = 2) \<and> list_all isDigit mm
                then Some (before, hh, mm) else None
            | _ \<Rightarrow> None))"

section \<open>Step Payload Codec: tables (types/workflow)\<close>

definition NODE_PREFIXES :: "NodeType \<Rightarrow> string" where
  "NODE_PREFIXES ty =
     (case ty of
        Start \<Rightarrow> ''INICIO'' | Message \<Rightarrow> ''MSG-'' | MessageUtm \<Rightarrow> ''MSG-UTM-''
      | MessageTime \<Rightarrow> ''MSG-TEMPO-'' | Photo \<Rightarrow> ''FT-'' | PhotoCaption \<Rightarrow> ''FT-C-''
      | PhotoCaptionTime \<Rightarrow> ''FT-C-T-'' | Video \<Rightarrow> ''VD-'' | VideoCaption \<Rightarrow> ''VD-C-''
      | VideoCaptionTime \<Rightarrow> ''VD-C-T-'' | Audio \<Rightarrow> ''AU-'' | Time \<Rightarrow> ''T-''
      | LeadRespond \<Rightarrow> ''LD'' | Hook \<Rightarrow> ''GANCHO-'' | DeleteHook \<Rightarrow> ''APAGAR-GANCHO-''
      | LinkPix \<Rightarrow> ''LK-PIX'' | Deliverable \<Rightarrow> [] | Reminder \<Rightarrow> [] | Note \<Rightarrow> [])"

text \<open>The labels; accented letters are written as their Latin-1 code units.\<close>

definition NODE_LABELS :: "NodeType \<Rightarrow> string" where
  "NODE_LABELS ty =
     (case ty of
        Start \<Rightarrow> ''In'' @ [char_of (237 :: nat)] @ ''cio'' | Message \<Rightarrow> ''Mensagem''
      | MessageUtm \<Rightarrow> ''Mensagem + UTM'' | MessageTime \<Rightarrow> ''Mensagem + Tempo''
      | Photo \<Rightarrow> ''Foto'' | PhotoCaption \<Rightarrow> ''Foto + Caption''
      | PhotoCaptionTime \<Rightarrow> ''Foto + Caption Tempo''
      | Video \<Rightarrow> ''V'' @ [char_of (237 :: nat)] @ ''deo''
      | VideoCaption \<Rightarrow> ''V'' @ [char_of (237 :: nat)] @ ''deo + Caption''
      | VideoCaptionTime \<Rightarrow> ''V'' @ [char_of (237 :: nat)] @ ''deo + Caption Tempo''
      | Audio \<Rightarrow> [char_of (193 :: nat)] @ ''udio'' | Time \<Rightarrow> ''Tempo''
      | LeadRespond \<Rightarrow> ''Lead Responde'' | Hook \<Rightarrow> ''Gancho'' | DeleteHook \<Rightarrow> ''Apagar Gancho''
      | LinkPix \<Rightarrow> ''Link / Pix'' | Deliverable \<Rightarrow> ''Entreg'' @ [char_of (225 :: nat)] @ ''vel''
      | Reminder \<Rightarrow> ''Relembrar'' | Note \<Rightarrow> ''Bloco de Notas'')"

text \<open>The flows of the current group, as far as the codec reads them (id and name).\<close>

record Flow =
  flow_id :: string
  flow_name :: string
  flow_groupId :: string
  flow_nodes :: "FlowNode list"
  flow_edges :: "FlowEdge list"
  isPublished :: bool

section \<open>Step Payload Codec: decoding (components/FetchFlowsModal.tsx)\<close>

text \<open>The payload \<open>{ label: "", supabaseColumn: columnName.toUpperCase() }\<close> decoding starts from.\<close>

definition initialData :: "string \<Rightarrow> NodeData" where
  "initialData columnName =
     \<lparr>label = [], supabaseRowId = None, supabaseColumn = Some (js_toUpperCase columnName),
      content = None, utm = None, caption = None, mediaUrl = None, timeMin = None, timeMax = None,
      hookFlowId = None, hookHours = None, hookMinutes = None, timeMessageRules = None,
      timeMediaRules = None, deliverableAction = None, deliverableFlowId = None,
      reminderAction = None, reminderFlowId = None, reminderHours = None, reminderMinutes = None,
      hookAction = None, data_note = None\<rparr>"

text \<open>
  Fresh ids come from \<open>uuidv4()\<close>; the model takes the supply as a function of the call
  number: the rules of a step get the ids 0, 1, .. in order and the step the next one.
\<close>

definition parseMessageRule :: "string \<Rightarrow> string \<Rightarrow> TimeMessageRule" where
  "parseMessageRule rid r =
     (let parts = js_split CHR ''-'' r
      in \<lparr>tmr_id = rid, tmr_startTime = partOr parts 0 ''00:00'', tmr_endTime = partOr parts 1 ''23:59'',
          tmr_content = js_join ''-'' (drop 2 parts)\<rparr>)"

definition parseMediaRule :: "string \<Rightarrow> string \<Rightarrow> TimeMediaRule" where
  "parseMediaRule rid r =
     (let parts = js_split CHR ''|'' r;
          cap = partOr parts 3 []
      in \<lparr>tmd_id = rid, tmd_startTime = partOr parts 0 ''00:00'', tmd_endTime = partOr parts 1 ''23:59'',
          tmd_mediaUrl = partOr parts 2 [],
          tmd_caption = (if cap \<noteq> [] then Some cap else None)\<rparr>)"

definition parseLegacyMediaRule :: "string \<Rightarrow> string \<Rightarrow> TimeMediaRule" where
  "parseLegacyMediaRule rid r =
     (let parts = js_split CHR ''-'' r
      in if length parts \<ge> 3
         then
           let fullStr = js_join ''-'' (drop 2 parts);
               urlCaption =
                 (case js_indexOf ''http'' fullStr of
                    Some httpIdx \<Rightarrow>
                      let urlAndCaption = drop httpIdx fullStr
                      in (case js_indexOf '' '' urlAndCaption of
                            Some spaceInUrl \<Rightarrow> (take spaceInUrl urlAndCaption, drop (spaceInUrl + 1) urlAndCaption)
                          | None \<Rightarrow> (urlAndCaption, []))
                  | None \<Rightarrow> (fullStr, []))
           in \<lparr>tmd_id = rid, tmd_startTime = partOr parts 0 ''00:00'', tmd_endTime = partOr parts 1 ''23:59'',
               tmd_mediaUrl = fst urlCaption,
               tmd_caption = (if snd urlCaption \<noteq> [] then Some (snd urlCaption) else None)\<rparr>
         else \<lparr>tmd_id = rid, tmd_startTime = ''00:00'', tmd_endTime = ''23:59'', tmd_mediaUrl = r,
               tmd_caption = None\<rparr>)"

definition withIds :: "(nat \<Rightarrow> string) \<Rightarrow> (string \<Rightarrow> string \<Rightarrow> 'a) \<Rightarrow> string list \<Rightarrow> 'a list" where
  "withIds uuidv4 parse rs = map (\<lambda>(i, r). parse (uuidv4 i) r) (zip [0..<length rs] rs)"

definition parseTimePair :: "string \<Rightarrow> int \<times> int" where
  "parseTimePair timeStr =
     (let nums = map js_Number (js_split CHR ''-'' timeStr);
          mn = (if 0 < length nums then nums ! 0 else None);
          mx = (if 1 < length nums then nums ! 1 else None)
      in ((case mn of None \<Rightarrow> 5 | Some v \<Rightarrow> v), (case mx of None \<Rightarrow> 10 | Some v \<Rightarrow> v)))"

text \<open>The chain of prefix tests of \<open>parseColumnValue\<close>, on the trimmed value, in source order.\<close>

definition decodeValue :: "(nat \<Rightarrow> string) \<Rightarrow> string \<Rightarrow> string \<Rightarrow> BubbleData" where
  "decodeValue uuidv4 val columnName =
     (let d = initialData columnName in
      if startsWith ''MSG-UTM-'' val then
        (let c = drop 8 val; parts = js_split CHR '' '' c; j = js_join '' '' (butlast parts)
         in \<lparr>bubble_id = uuidv4 0, bubble_type = MessageUtm,
             bubble_data = d\<lparr>label := NODE_LABELS MessageUtm,
                             content := Some (if j \<noteq> [] then j else c),
                             utm := Some (if length parts > 1 then last parts else [])\<rparr>\<rparr>)
      else if startsWith ''MSG-TEMPO-'' val then
        (let rs = js_split CHR '';'' (drop 10 val)
         in \<lparr>bubble_id = uuidv4 (length rs), bubble_type = MessageTime,
             bubble_data = d\<lparr>label := NODE_LABELS MessageTime,
                             timeMessageRules := Some (withIds uuidv4 parseMessageRule rs)\<rparr>\<rparr>)
      else if startsWith ''MSG-'' val then
        \<lparr>bubble_id = uuidv4 0, bubble_type = Message,
         bubble_data = d\<lparr>label := NODE_LABELS Message, content := Some (drop 4 val)\<rparr>\<rparr>
      else if startsWith ''FT-C-T;'' val then
        (let rs = filter (\<lambda>r. r \<noteq> []) (js_split CHR '';'' (drop 7 val))
         in \<lparr>bubble_id = uuidv4 (length rs), bubble_type = PhotoCaptionTime,
             bubble_data = d\<lparr>label := NODE_LABELS PhotoCaptionTime,
                             timeMediaRules := Some (withIds uuidv4 parseMediaRule rs)\<rparr>\<rparr>)
      else if startsWith ''FT-C-T-'' val then
        (let rs = filter (\<lambda>r. r \<noteq> []) (js_split CHR '';'' (drop 7 val))
         in \<lparr>bubble_id = uuidv4 (length rs), bubble_type = PhotoCaptionTime,
             bubble_data = d\<lparr>label := NODE_LABELS PhotoCaptionTime,
                             timeMediaRules := Some (withIds uuidv4 parseLegacyMediaRule rs)\<rparr>\<rparr>)
      else if startsWith ''VD-C-T;'' val then
        (let rs = filter (\<lambda>r. r \<noteq> []) (js_split CHR '';'' (drop 7 val))
         in \<lparr>bubble_id = uuidv4 (length rs), bubble_type = VideoCaptionTime,
             bubble_data = d\<lparr>label := NODE_LABELS VideoCaptionTime,
                             timeMediaRules := Some (withIds uuidv4 parseMediaRule rs)\<rparr>\<rparr>)
      else if startsWith ''VD-C-T-'' val then
        (let rs = filter (\<lambda>r. r \<noteq> []) (js_split CHR '';'' (drop 7 val))
         in \<lparr>bubble_id = uuidv4 (length rs), bubble_type = VideoCaptionTime,
             bubble_data = d\<lparr>label := NODE_LABELS VideoCaptionTime,
                             timeMediaRules := Some (withIds uuidv4 parseLegacyMediaRule rs)\<rparr>\<rparr>)
      else if startsWith ''FT-C-'' val then
        (let parts = js_split CHR '' '' (drop 5 val)
         in \<lparr>bubble_id = uuidv4 0, bubble_type = PhotoCaption,
             bubble_data = d\<lparr>label := NODE_LABELS PhotoCaption,
                             mediaUrl := Some (partOr parts 0 []),
                             caption := Some (js_join '' '' (drop 1 parts))\<rparr>\<rparr>)
      else if startsWith ''FT-'' val then
        \<lparr>bubble_id = uuidv4 0, bubble_type = Photo,
         bubble_data = d\<lparr>label := NODE_LABELS Photo, mediaUrl := Some (drop 3 val)\<rparr>\<rparr>
      else if startsWith ''VD-C-'' val then
        (let parts = js_split CHR '' '' (drop 5 val)
         in \<lparr>bubble_id = uuidv4 0, bubble_type = VideoCaption,
             bubble_data = d\<lparr>label := NODE_LABELS VideoCaption,
                             mediaUrl := Some (partOr parts 0 []),
                             caption := Some (js_join '' '' (drop 1 parts))\<rparr>\<rparr>)
      else if startsWith ''VD-'' val then
        \<lparr>bubble_id = uuidv4 0, bubble_type = Video,
         bubble_data = d\<lparr>label := NODE_LABELS Video, mediaUrl := Some (drop 3 val)\<rparr>\<rparr>
      else if startsWith ''AU-'' val then
        \<lparr>bubble_id = uuidv4 0, bubble_type = Audio,
         bubble_data = d\<lparr>label := NODE_LABELS Audio, mediaUrl := Some (drop 3 val)\<rparr>\<rparr>
      else if startsWith ''T-'' val then
        (let mm = parseTimePair (drop 2 val)
         in \<lparr>bubble_id = uuidv4 0, bubble_type = Time,
             bubble_data = d\<lparr>label := NODE_LABELS Time, timeMin := Some (fst mm), timeMax := Some (snd mm)\<rparr>\<rparr>)
      else if val = ''LD'' then
        \<lparr>bubble_id = uuidv4 0, bubble_type = LeadRespond, bubble_data = d\<lparr>label := NODE_LABELS LeadRespond\<rparr>\<rparr>
      else if val = ''LK-PIX'' then
        \<lparr>bubble_id = uuidv4 0, bubble_type = LinkPix, bubble_data = d\<lparr>label := NODE_LABELS LinkPix\<rparr>\<rparr>
      else if startsWith ''ADD-ENTREGA-FLUXO-'' val then
        \<lparr>bubble_id = uuidv4 0, bubble_type = Deliverable,
         bubble_data = d\<lparr>label := NODE_LABELS Deliverable, deliverableAction := Some Add,
                         content := Some (drop 18 val)\<rparr>\<rparr>
      else if startsWith ''DEL-ENTREGA-FLUXO-'' val then
        \<lparr>bubble_id = uuidv4 0, bubble_type = Deliverable,
         bubble_data = d\<lparr>label := NODE_LABELS Deliverable, deliverableAction := Some Delete,
                         content := Some (drop 18 val)\<rparr>\<rparr>
      else if startsWith ''ADD-REL-'' val then
        (let c = drop 8 val
         in \<lparr>bubble_id = uuidv4 0, bubble_type = Reminder,
             bubble_data =
               (case matchTimeSuffix c of
                  Some (flowName, hh, mm) \<Rightarrow>
                    d\<lparr>label := NODE_LABELS Reminder, reminderAction := Some Add,
                      reminderFlowId := Some flowName, content := Some flowName,
                      reminderHours := Some (int (digits_value hh)),
                      reminderMinutes := Some (int (digits_value mm))\<rparr>
                | None \<Rightarrow>
                    d\<lparr>label := NODE_LABELS Reminder, reminderAction := Some Add,
                      reminderFlowId := Some c, content := Some c\<rparr>)\<rparr>)
      else if startsWith ''DEL-REL-'' val then
        (let c = drop 8 val
         in \<lparr>bubble_id = uuidv4 0, bubble_type = Reminder,
             bubble_data =
               (case matchTimeSuffix c of
                  Some (flowName, hh, mm) \<Rightarrow>
                    d\<lparr>label := NODE_LABELS Reminder, reminderAction := Some Delete,
                      reminderFlowId := Some flowName, content := Some flowName\<rparr>
                | None \<Rightarrow>
                    d\<lparr>label := NODE_LABELS Reminder, reminderAction := Some Delete,
                      reminderFlowId := Some c, content := Some c\<rparr>)\<rparr>)
      else if startsWith ''APAGAR-GANCHO-'' val then
        \<lparr>bubble_id = uuidv4 0, bubble_type = Hook,
         bubble_data = d\<lparr>label := NODE_LABELS Hook, hookAction := Some Delete, content := Some (drop 14 val)\<rparr>\<rparr>
      else if startsWith ''GANCHO-'' val then
        (let c = drop 7 val
         in \<lparr>bubble_id = uuidv4 0, bubble_type = Hook,
             bubble_data =
               (case matchTimeSuffix c of
                  Some (flowName, hh, mm) \<Rightarrow>
                    d\<lparr>label := NODE_LABELS Hook, hookAction := Some Add,
                      hookFlowId := Some flowName, content := Some flowName,
                      hookHours := Some (int (digits_value hh)),
                      hookMinutes := Some (int (digits_value mm))\<rparr>
                | None \<Rightarrow>
                    d\<lparr>label := NODE_LABELS Hook, hookAction := Some Add,
                      hookFlowId := Some c, content := Some c,
                      hookHours := Some 0, hookMinutes := Some 0\<rparr>)\<rparr>)
      else
        \<lparr>bubble_id = uuidv4 0, bubble_type = Message,
         bubble_data = d\<lparr>label := NODE_LABELS Message, content := Some val\<rparr>\<rparr>)"

text \<open>\<open>parseColumnValue\<close>: \<open>null\<close>, the empty string and blank strings give no step.\<close>

definition parseColumnValue :: "(nat \<Rightarrow> string) \<Rightarrow> string option \<Rightarrow> string \<Rightarrow> BubbleData option" where
  "parseColumnValue uuidv4 value columnName =
     (case value of
        None \<Rightarrow> None
      | Some v \<Rightarrow>
          if v = [] then None
          else (let val = js_trim v
                in if val = [] then None else Some (decodeValue uuidv4 val columnName)))"

text \<open>\<open>parseTColumn\<close>: the timer cell, with or without the \<open>T-\<close> prefix.\<close>

definition parseTColumn :: "(nat \<Rightarrow> string) \<Rightarrow> string option \<Rightarrow> string \<Rightarrow> BubbleData option" where
  "parseTColumn uuidv4 value columnName =
     (case value of
        None \<Rightarrow> None
      | Some v \<Rightarrow>
          if v = [] then None
          else (let val = js_trim v
                in if val = [] then None
                   else (let cleanVal = (if startsWith ''T-'' val then drop 2 val else val);
                             mm = parseTimePair cleanVal
                         in Some \<lparr>bubble_id = uuidv4 0, bubble_type = Time,
                                  bubble_data = (initialData columnName)
                                    \<lparr>label := NODE_LABELS Time, timeMin := Some (fst mm),
                                      timeMax := Some (snd mm)\<rparr>\<rparr>)))"

section \<open>Position snapshot (src/lib/posicaoEncoding.ts)\<close>

text \<open>
  The snapshot document \<open>PosicaoV2\<close>. \<open>encodePosicaoV2\<close> hands the document to
  \<open>JSON.stringify\<close> and the reader obtains it again with \<open>JSON.parse\<close>; the model works on the
  document itself. The object \<open>g\<close> is held as its own properties, a map from group id to
  \<open>[x, y, title, columns]\<close>. The
  encoder returns the empty string when the flow has no group: \<open>None\<close> here. The field \<open>n\<close> is
  never written by the encoder and is left out.
\<close>

record PosicaoV2 =
  doc_vp :: "(rat \<times> rat \<times> rat) option"
  doc_sn :: "(rat \<times> rat) option"
  doc_go :: "string list"
  doc_g :: "(string, rat \<times> rat \<times> string \<times> string list) jsmap"
  doc_e :: "(string \<times> string) list option"

record Viewport =
  vp_x :: rat
  vp_y :: rat
  zoom :: rat

record ParsedGroupV2 =
  pg_groupId :: string
  pg_x :: rat
  pg_y :: rat
  pg_title :: string
  pg_columns :: "string list"

record ParsedLayoutV2 =
  layout_viewport :: "Viewport option"
  startNodePosition :: "Position option"
  layout_groups :: "ParsedGroupV2 list"
  layout_edges :: "(string \<times> string) list"

record DistributedGroup =
  dg_groupId :: string
  dg_x :: rat
  dg_y :: rat
  dg_title :: string
  dg_bubbles :: "BubbleData list"

text \<open>\<open>Math.round\<close>: the nearest integer, halves towards plus infinity.\<close>

definition Math_round :: "rat \<Rightarrow> rat" where
  "Math_round x = of_int \<lfloor>x + 1 / 2\<rfloor>"

text \<open>\<open>b.data.supabaseColumn?.toUpperCase()\<close> followed by the truthiness test on it.\<close>

definition upperColumn :: "BubbleData \<Rightarrow> string option" where
  "upperColumn b =
     (case supabaseColumn (bubble_data b) of
        None \<Rightarrow> None
      | Some col \<Rightarrow> if js_toUpperCase col = [] then None else Some (js_toUpperCase col))"

text \<open>
  The assignment \<open>posicao.g[groupId] = [...]\<close> on the plain object \<open>g\<close>, as far as the own
  properties that \<open>JSON.stringify\<close> writes are concerned: the key \<open>__proto__\<close> names the
  prototype accessor, so assigning an array to it sets the prototype and adds no property.
  A later lookup \<open>data.g?.[groupId]\<close> of a key that is not an own property finds at most a
  member of \<open>Object.prototype\<close>, which is not an array: the reader skips the group, as it does
  for \<open>undefined\<close>.
\<close>

definition object_set :: "(string, 'v) jsmap \<Rightarrow> string \<Rightarrow> 'v \<Rightarrow> (string, 'v) jsmap" where
  "object_set obj key v = (if key = ''__proto__'' then obj else jsmap_set obj key v)"

definition encodePosicaoV2 :: "FlowNode list \<Rightarrow> FlowEdge list \<Rightarrow> Viewport option \<Rightarrow> PosicaoV2 option" where
  "encodePosicaoV2 nodes edges viewport =
     (let groupNodes = filter (\<lambda>n. node_type n = GroupNode) nodes;
          startNode = find (\<lambda>n. node_type n = StartNode) nodes
      in if length groupNodes = 0 then None
         else
           let posicao = \<lparr>doc_vp = map_option (\<lambda>v. (Math_round (vp_x v * 100) / 100,
                                                    Math_round (vp_y v * 100) / 100,
                                                    Math_round (zoom v * 100) / 100)) viewport,
                          doc_sn = map_option (\<lambda>n. (Math_round (pos_x (position n)),
                                                    Math_round (pos_y (position n)))) startNode,
                          doc_go = [], doc_g = [], doc_e = None\<rparr>;
               posicao = fold (\<lambda>node p.
                                 let groupId = node_id node;
                                     x = Math_round (pos_x (position node));
                                     y = Math_round (pos_y (position node));
                                     title = (if node_label (node_data node) = [] then ''Group''
                                              else node_label (node_data node));
                                     columns = List.map_filter upperColumn (bubblesOf node)
                                 in p\<lparr>doc_go := doc_go p @ [groupId],
                                      doc_g := object_set (doc_g p) groupId (x, y, title, columns)\<rparr>)
                              groupNodes posicao;
               validNodeIds = fold (\<lambda>n s. jsset_add s (node_id n)) groupNodes (jsset_add [] ''start-node'');
               validEdges = filter (\<lambda>ed. jsset_has validNodeIds (source ed) \<and>
                                           jsset_has validNodeIds (target ed)) edges
           in Some (posicao\<lparr>doc_e := Some (map (\<lambda>ed. (source ed, target ed)) validEdges)\<rparr>))"

definition parsePosicaoV2 :: "PosicaoV2 \<Rightarrow> ParsedLayoutV2" where
  "parsePosicaoV2 data =
     \<lparr>layout_viewport = map_option (\<lambda>(x, y, z). \<lparr>vp_x = x, vp_y = y, zoom = z\<rparr>) (doc_vp data),
      startNodePosition = map_option (\<lambda>(x, y). \<lparr>pos_x = x, pos_y = y\<rparr>) (doc_sn data),
      layout_groups = List.map_filter
                 (\<lambda>groupId. map_option
                                (\<lambda>(x, y, title, columns).
                                   \<lparr>pg_groupId = groupId, pg_x = x, pg_y = y, pg_title = title,
                                    pg_columns = columns\<rparr>)
                                (jsmap_get (doc_g data) groupId))
                 (doc_go data),
      layout_edges = (case doc_e data of Some es \<Rightarrow> es | None \<Rightarrow> [])\<rparr>"

text \<open>
  \<open>distributeBubblesByPosicaoV2\<close>. \<open>now\<close> is the reading of \<open>Date.now()\<close> that names the
  fallback group.
\<close>

definition bubbleByColumn :: "BubbleData list \<Rightarrow> (string, BubbleData) jsmap" where
  "bubbleByColumn bs =
     fold (\<lambda>b m. case upperColumn b of Some col \<Rightarrow> jsmap_set m col b | None \<Rightarrow> m) bs []"

definition distributeBubblesByPosicaoV2 ::
    "nat \<Rightarrow> BubbleData list \<Rightarrow> ParsedLayoutV2 \<Rightarrow> DistributedGroup list" where
  "distributeBubblesByPosicaoV2 now bs layout =
     (let byColumn = bubbleByColumn bs;
          result = map (\<lambda>pg. \<lparr>dg_groupId = pg_groupId pg, dg_x = pg_x pg, dg_y = pg_y pg,
                               dg_title = pg_title pg,
                               dg_bubbles = List.map_filter (jsmap_get byColumn) (pg_columns pg)\<rparr>)
                       (layout_groups layout);
          assignedColumns =
            jsset_of_list (concat (map (\<lambda>pg. filter (\<lambda>col. jsmap_get byColumn col \<noteq> None)
                                                      (pg_columns pg)) (layout_groups layout)));
          unassignedBubbles =
            filter (\<lambda>b. case upperColumn b of Some col \<Rightarrow> \<not> jsset_has assignedColumns col
                                              | None \<Rightarrow> False) bs
      in if length unassignedBubbles > 0
         then (if length result > 0
               then butlast result @
                    [(last result)\<lparr>dg_bubbles := dg_bubbles (last result) @ unassignedBubbles\<rparr>]
               else [\<lparr>dg_groupId = ''fallback-'' @ show_nat now, dg_x = 250, dg_y = 50,
                      dg_title = ''Etapas'', dg_bubbles = unassignedBubbles\<rparr>])
         else result)"

text \<open>The round trip of the structure of a flow through the snapshot.\<close>

definition restoreLayout :: "nat \<Rightarrow> FlowNode list \<Rightarrow> FlowEdge list \<Rightarrow> Viewport option \<Rightarrow>
    (ParsedLayoutV2 \<times> DistributedGroup list) option" where
  "restoreLayout now nodes es viewport =
     map_option (\<lambda>doc. (parsePosicaoV2 doc,
                         distributeBubblesByPosicaoV2 now (getAllBubblesFromFlowNodes nodes)
                           (parsePosicaoV2 doc)))
       (encodePosicaoV2 nodes es viewport)"

section \<open>Step Payload Codec: encoding (the flow editor's \<open>buildSupabaseValueForBubble\<close>)\<close>

text \<open>
  The destination name of a hook or reminder: the name of the flow found by id, else of the
  flow found by name, else the content, else the stored reference, trimmed
  (\<open>(byId?.name || byName?.name || content || flowId || '').trim()\<close>).
\<close>

definition destName :: "Flow list \<Rightarrow> string option \<Rightarrow> string option \<Rightarrow> string" where
  "destName availableFlows flowId cnt =
     (let byId = (case flowId of
                    Some i \<Rightarrow> if i \<noteq> [] then find (\<lambda>f. flow_id f = i) availableFlows else None
                  | None \<Rightarrow> None);
          byName = (case flowId of
                      Some i \<Rightarrow> if i \<noteq> [] then find (\<lambda>f. flow_name f = i) availableFlows else None
                    | None \<Rightarrow> None)
      in js_trim (orEmpty (js_or (js_or (js_or (map_option flow_name byId) (map_option flow_name byName))
                                     cnt) flowId)))"

definition buildSupabaseValueForBubble :: "Flow list \<Rightarrow> BubbleData \<Rightarrow> string" where
  "buildSupabaseValueForBubble availableFlows bubble =
     (let prefix = NODE_PREFIXES (bubble_type bubble);
          d = bubble_data bubble
      in if bubble_type bubble = Time then
           prefix @ show_int (case timeMin d of Some m \<Rightarrow> m | None \<Rightarrow> 5) @ ''-'' @
                    show_int (case timeMax d of Some m \<Rightarrow> m | None \<Rightarrow> 10)
         else if bubble_type bubble = MessageTime then
           prefix @ js_join '';''
             (map (\<lambda>r. tmr_startTime r @ ''-'' @ tmr_endTime r @ ''-'' @
                        map (\<lambda>c. if c = CHR '';'' then CHR '','' else c) (tmr_content r))
                  (case timeMessageRules d of Some rs \<Rightarrow> rs | None \<Rightarrow> []))
         else if bubble_type bubble = PhotoCaptionTime \<or> bubble_type bubble = VideoCaptionTime then
           (if bubble_type bubble = PhotoCaptionTime then ''FT-C-T;'' else ''VD-C-T;'') @
           js_join '';''
             (map (\<lambda>r. tmd_startTime r @ ''|'' @ tmd_endTime r @ ''|'' @ tmd_mediaUrl r @ ''|'' @
                        orEmpty (tmd_caption r))
                  (case timeMediaRules d of Some rs \<Rightarrow> rs | None \<Rightarrow> []))
         else
           (case bubble_type bubble of
              Message \<Rightarrow> prefix @ orEmpty (content d)
            | MessageUtm \<Rightarrow> prefix @ js_trim (orEmpty (content d) @ '' '' @ orEmpty (utm d))
            | Photo \<Rightarrow> prefix @ orEmpty (mediaUrl d)
            | PhotoCaption \<Rightarrow> prefix @ js_trim (orEmpty (mediaUrl d) @ '' '' @ orEmpty (caption d))
            | Video \<Rightarrow> prefix @ orEmpty (mediaUrl d)
            | VideoCaption \<Rightarrow> prefix @ js_trim (orEmpty (mediaUrl d) @ '' '' @ orEmpty (caption d))
            | Audio \<Rightarrow> prefix @ orEmpty (mediaUrl d)
            | LeadRespond \<Rightarrow> prefix
            | LinkPix \<Rightarrow> prefix
            | Hook \<Rightarrow>
                (let action = (case hookAction d of Some a \<Rightarrow> a | None \<Rightarrow> Add);
                     dest = destName availableFlows (hookFlowId d) (content d)
                 in if action = Delete then ''APAGAR-GANCHO-'' @ dest
                    else
                      let hh = padStart2 (show_int (case hookHours d of Some h \<Rightarrow> h | None \<Rightarrow> 0));
                          mm = padStart2 (show_int (case hookMinutes d of Some m \<Rightarrow> m | None \<Rightarrow> 0));
                          timePart = hh @ '':'' @ mm
                      in prefix @ (if dest \<noteq> [] then dest @ ''-'' @ timePart else timePart))
            | DeleteHook \<Rightarrow> prefix @ destName availableFlows (hookFlowId d) (content d)
            | Deliverable \<Rightarrow>
                (let deliverableFlow =
                       (case deliverableFlowId d of
                          Some i \<Rightarrow> if i \<noteq> [] then find (\<lambda>f. flow_id f = i) availableFlows else None
                        | None \<Rightarrow> None);
                     flowName = js_trim (orEmpty (map_option flow_name deliverableFlow))
                 in (if deliverableAction d = Some Add then ''ADD-ENTREGA-FLUXO-''
                     else ''DEL-ENTREGA-FLUXO-'') @ flowName)
            | Reminder \<Rightarrow>
                (let flowName = destName availableFlows (reminderFlowId d) (content d)
                 in if reminderAction d = Some Add
                    then (case (reminderHours d, reminderMinutes d) of
                            (Some hh, Some mm) \<Rightarrow>
                              ''ADD-REL-'' @ flowName @ ''-'' @ padStart2 (show_int hh) @ '':'' @
                              padStart2 (show_int mm)
                          | _ \<Rightarrow> ''ADD-REL-'' @ flowName @ ''-__:__'')
                    else ''DEL-REL-'' @ flowName)
            | _ \<Rightarrow> prefix))"

section \<open>Notions used to state the properties\<close>

text \<open>The slot a step carries: its stored column as \<open>parseColumn\<close> reads it.\<close>

definition slotOf :: "BubbleData \<Rightarrow> (ColumnKind \<times> nat) option" where
  "slotOf b = (case supabaseColumn (bubble_data b) of None \<Rightarrow> None | Some col \<Rightarrow> parseColumn col)"

text \<open>The non-annotation steps of all group nodes, in node order, each with its slot kind.\<close>

definition groupEntries :: "FlowNode list \<Rightarrow> (BubbleData \<times> ColumnKind) list" where
  "groupEntries nodes = concat (map collectBubbles (filter (\<lambda>n. node_type n = GroupNode) nodes))"

text \<open>
  The counter value the loop of the normalizer reaches at each visited step, from the list of
  slot kinds visited, and its closed form: the 1-based rank of a position among the positions
  of the same kind.
\<close>

fun nextIndexes :: "nat \<Rightarrow> nat \<Rightarrow> ColumnKind list \<Rightarrow> nat list" where
  "nextIndexes m t [] = []"
| "nextIndexes m t (k # ks) =
     (if k = ColM then Suc m # nextIndexes (Suc m) t ks else Suc t # nextIndexes m (Suc t) ks)"

definition rankAt :: "ColumnKind list \<Rightarrow> nat \<Rightarrow> nat" where
  "rankAt ks i = length (filter (\<lambda>k. k = ks ! i) (take (Suc i) ks))"

text \<open>
  A step holds a column when its stored column is that string, literally or as the normalizer
  reads it (trimmed, upper-cased, parsed and rebuilt).
\<close>

definition holdsColumn :: "BubbleData \<Rightarrow> string \<Rightarrow> bool" where
  "holdsColumn b col \<longleftrightarrow> currentNormalized b = Some col \<or> supabaseColumn (bubble_data b) = Some col"

text \<open>A step without its column: what normalization must leave alone.\<close>

definition withoutColumn :: "BubbleData \<Rightarrow> BubbleData" where
  "withoutColumn b = b\<lparr>bubble_data := (bubble_data b)\<lparr>supabaseColumn := None\<rparr>\<rparr>"

text \<open>The group order that \<open>applyNormalizationToNodes\<close> hands to the normalizer.\<close>

definition canonicalOrder :: "FlowNode list \<Rightarrow> FlowEdge list \<Rightarrow> string list" where
  "canonicalOrder nodes edges = map groupId (calculateGroupOrder nodes edges)"

text \<open>The number of non-annotation steps of one slot kind in a flow.\<close>

definition countKind :: "ColumnKind \<Rightarrow> FlowNode list \<Rightarrow> nat" where
  "countKind k nodes =
     length (filter (\<lambda>b. \<not> isVisualOnlyBubble (bubble_type b) \<and> getColumnKindForBubble (bubble_type b) = k)
                    (getAllBubblesFromFlowNodes nodes))"

section \<open>Example flows\<close>

definition exampleGroup :: "string \<Rightarrow> rat \<Rightarrow> rat \<Rightarrow> FlowNode" where
  "exampleGroup i x y =
     \<lparr>node_id = i, node_type = GroupNode, position = \<lparr>pos_x = x, pos_y = y\<rparr>,
      width = None, height = None,
      node_data = \<lparr>node_label = ''Group'', bubbles = Some [], node_note = None\<rparr>\<rparr>"

definition exampleEdge :: "string \<Rightarrow> string \<Rightarrow> FlowEdge" where
  "exampleEdge s t = \<lparr>edge_id = s @ ''-'' @ t, source = s, target = t\<rparr>"

definition exampleData :: "string option \<Rightarrow> NodeData" where
  "exampleData col =
     \<lparr>label = ''Step'', supabaseRowId = None, supabaseColumn = col, content = None, utm = None,
      caption = None, mediaUrl = None, timeMin = None, timeMax = None, hookFlowId = None,
      hookHours = None, hookMinutes = None, timeMessageRules = None, timeMediaRules = None,
      deliverableAction = None, deliverableFlowId = None, reminderAction = None,
      reminderFlowId = None, reminderHours = None, reminderMinutes = None, hookAction = None,
      data_note = None\<rparr>"

definition exampleBubble :: "string \<Rightarrow> NodeType \<Rightarrow> string option \<Rightarrow> BubbleData" where
  "exampleBubble i ty col = \<lparr>bubble_id = i, bubble_type = ty, bubble_data = exampleData col\<rparr>"

definition exampleGroupWith :: "string \<Rightarrow> rat \<Rightarrow> rat \<Rightarrow> BubbleData list \<Rightarrow> FlowNode" where
  "exampleGroupWith i x y bs =
     \<lparr>node_id = i, node_type = GroupNode, position = \<lparr>pos_x = x, pos_y = y\<rparr>,
      width = None, height = None,
      node_data = \<lparr>node_label = ''Group'', bubbles = Some bs, node_note = None\<rparr>\<rparr>"

definition exampleStart :: FlowNode where
  "exampleStart =
     \<lparr>node_id = ''start-node'', node_type = StartNode, position = \<lparr>pos_x = 50, pos_y = 50\<rparr>,
      width = None, height = None,
      node_data = \<lparr>node_label = ''Start'', bubbles = None, node_note = None\<rparr>\<rparr>"

text \<open>
  A flow of two groups: the first holds a message stored under M3, a timer without a column,
  a note bubble and a photo stored under \<open>m2\<close> with blanks around it; the second holds a timer
  stored under T2.
\<close>

definition exampleFlow :: "FlowNode list" where
  "exampleFlow =
     [exampleStart,
      exampleGroupWith ''g1'' 0 0
        [exampleBubble ''b1'' Message (Some ''M3''), exampleBubble ''b2'' Time None,
         exampleBubble ''b3'' Note None, exampleBubble ''b4'' Photo (Some '' m2 '')],
      exampleGroupWith ''g2'' 300 0 [exampleBubble ''b5'' Time (Some ''T2'')]]"

definition exampleEdges :: "FlowEdge list" where
  "exampleEdges = [exampleEdge ''start-node'' ''g1'', exampleEdge ''g1'' ''g2'']"

text \<open>A flow of one group with 51 message steps, none of them with a column yet.\<close>

definition exampleLongFlow :: "FlowNode list" where
  "exampleLongFlow =
     [exampleGroupWith ''g1'' 0 0 (map (\<lambda>i. exampleBubble (show_nat i) Message None) [0..<51])]"

text \<open>
  A normalized flow: M1, T1, a note bubble and M2 in the first group, T2 and M3 in the second.
\<close>

definition exampleFirstStep :: BubbleData where
  "exampleFirstStep = exampleBubble ''b1'' Message (Some ''M1'')"

definition exampleFirstGroup :: FlowNode where
  "exampleFirstGroup =
     exampleGroupWith ''g1'' 0 0
        [exampleFirstStep, exampleBubble ''b2'' Time (Some ''T1''),
         exampleBubble ''b3'' Note None, exampleBubble ''b4'' Photo (Some ''M2'')]"

definition exampleNormalizedFlow :: "FlowNode list" where
  "exampleNormalizedFlow =
     [exampleStart, exampleFirstGroup,
      exampleGroupWith ''g2'' 300 0
        [exampleBubble ''b5'' Time (Some ''T2''), exampleBubble ''b6'' Message (Some ''M3'')]]"

definition exampleTimer :: BubbleData where
  "exampleTimer = exampleBubble ''b2'' Time (Some ''T1'')"

text \<open>The prefixes and literals that the chain of \<open>parseColumnValue\<close> recognizes.\<close>

definition kindPrefixes :: "string list" where
  "kindPrefixes =
     [''MSG-UTM-'', ''MSG-TEMPO-'', ''MSG-'', ''FT-C-T;'', ''FT-C-T-'', ''VD-C-T;'', ''VD-C-T-'',
      ''FT-C-'', ''FT-'', ''VD-C-'', ''VD-'', ''AU-'', ''T-'', ''ADD-ENTREGA-FLUXO-'',
      ''DEL-ENTREGA-FLUXO-'', ''ADD-REL-'', ''DEL-REL-'', ''APAGAR-GANCHO-'', ''GANCHO-'']"

definition recognizedPrefix :: "string \<Rightarrow> bool" where
  "recognizedPrefix val \<longleftrightarrow> list_ex (\<lambda>p. startsWith p val) kindPrefixes \<or> val = ''LD'' \<or> val = ''LK-PIX''"

definition exampleUuid :: "nat \<Rightarrow> string" where
  "exampleUuid i = ''id-'' @ show_nat i"

definition groupNodesOf :: "FlowNode list \<Rightarrow> FlowNode list" where
  "groupNodesOf nodes = filter (\<lambda>n. node_type n = GroupNode) nodes"

text \<open>What the snapshot keeps of a group, and the edges it keeps.\<close>

definition roundedPosition :: "FlowNode \<Rightarrow> rat \<times> rat" where
  "roundedPosition n = (Math_round (pos_x (position n)), Math_round (pos_y (position n)))"

definition snapshotTitle :: "FlowNode \<Rightarrow> string" where
  "snapshotTitle n = (if node_label (node_data n) = [] then ''Group'' else node_label (node_data n))"

definition slotNames :: "FlowNode \<Rightarrow> string list" where
  "slotNames n = List.map_filter upperColumn (bubblesOf n)"

definition validEdge :: "FlowNode list \<Rightarrow> FlowEdge \<Rightarrow> bool" where
  "validEdge nodes ed \<longleftrightarrow>
     (source ed = ''start-node'' \<or> source ed \<in> node_id ` set (groupNodesOf nodes)) \<and>
     (target ed = ''start-node'' \<or> target ed \<in> node_id ` set (groupNodesOf nodes))"

text \<open>A flow whose only group, holding the step of M1, sits at \<open>(120.5, 80)\<close>.\<close>

definition exampleHalfFlow :: "FlowNode list" where
  "exampleHalfFlow =
     [exampleStart, exampleGroupWith ''g1'' (241 / 2) 80 [exampleBubble ''b1'' Message (Some ''M1'')]]"

text \<open>
  The flow \<open>exampleFlow\<close> with its second group moved to \<open>(300.4, -0.5)\<close> and left without
  a title, and its edges followed by one that leaves for an annotation node.
\<close>

definition exampleMovedFlow :: "FlowNode list" where
  "exampleMovedFlow =
     [exampleStart,
      exampleGroupWith ''g1'' 0 0
        [exampleBubble ''b1'' Message (Some ''M3''), exampleBubble ''b2'' Time None,
         exampleBubble ''b3'' Note None, exampleBubble ''b4'' Photo (Some ''m2'')],
      (exampleGroupWith ''g2'' (1502 / 5) (- 1 / 2) [exampleBubble ''b5'' Time (Some ''T2'')])
        \<lparr>node_data := \<lparr>node_label = [], bubbles = Some [exampleBubble ''b5'' Time (Some ''T2'')],
                        node_note = None\<rparr>\<rparr>]"

definition exampleMovedEdges :: "FlowEdge list" where
  "exampleMovedEdges = exampleEdges @ [exampleEdge ''g2'' ''NOTE:1'']"

text \<open>
  The payload of a step as the codec carries it: the fields of the step's kind, the rules
  without their ids.
\<close>

record Payload =
  pl_content :: "string option"
  pl_utm :: "string option"
  pl_mediaUrl :: "string option"
  pl_caption :: "string option"
  pl_timeMin :: "int option"
  pl_timeMax :: "int option"
  pl_messageRules :: "(string \<times> string \<times> string) list"
  pl_mediaRules :: "(string \<times> string \<times> string \<times> string option) list"

definition noPayload :: Payload where
  "noPayload = \<lparr>pl_content = None, pl_utm = None, pl_mediaUrl = None, pl_caption = None,
                pl_timeMin = None, pl_timeMax = None, pl_messageRules = [], pl_mediaRules = []\<rparr>"

definition messageRulesOf :: "NodeData \<Rightarrow> (string \<times> string \<times> string) list" where
  "messageRulesOf d =
     map (\<lambda>r. (tmr_startTime r, tmr_endTime r, tmr_content r))
         (case timeMessageRules d of Some rs \<Rightarrow> rs | None \<Rightarrow> [])"

definition mediaRulesOf :: "NodeData \<Rightarrow> (string \<times> string \<times> string \<times> string option) list" where
  "mediaRulesOf d =
     map (\<lambda>r. (tmd_startTime r, tmd_endTime r, tmd_mediaUrl r, tmd_caption r))
         (case timeMediaRules d of Some rs \<Rightarrow> rs | None \<Rightarrow> [])"

definition payloadOf :: "BubbleData \<Rightarrow> Payload" where
  "payloadOf b =
     (let d = bubble_data b
      in case bubble_type b of
           Message \<Rightarrow> noPayload\<lparr>pl_content := content d\<rparr>
         | MessageUtm \<Rightarrow> noPayload\<lparr>pl_content := content d, pl_utm := utm d\<rparr>
         | MessageTime \<Rightarrow> noPayload\<lparr>pl_messageRules := messageRulesOf d\<rparr>
         | Photo \<Rightarrow> noPayload\<lparr>pl_mediaUrl := mediaUrl d\<rparr>
         | PhotoCaption \<Rightarrow> noPayload\<lparr>pl_mediaUrl := mediaUrl d, pl_caption := caption d\<rparr>
         | PhotoCaptionTime \<Rightarrow> noPayload\<lparr>pl_mediaRules := mediaRulesOf d\<rparr>
         | Video \<Rightarrow> noPayload\<lparr>pl_mediaUrl := mediaUrl d\<rparr>
         | VideoCaption \<Rightarrow> noPayload\<lparr>pl_mediaUrl := mediaUrl d, pl_caption := caption d\<rparr>
         | VideoCaptionTime \<Rightarrow> noPayload\<lparr>pl_mediaRules := mediaRulesOf d\<rparr>
         | Audio \<Rightarrow> noPayload\<lparr>pl_mediaUrl := mediaUrl d\<rparr>
         | Time \<Rightarrow> noPayload\<lparr>pl_timeMin := timeMin d, pl_timeMax := timeMax d\<rparr>
         | _ \<Rightarrow> noPayload)"

text \<open>
  Well-formed payloads. A text survives the final \<open>trim\<close> when it does not end in white space
  (\<open>endsClean\<close>) and, where nothing stands before it, does not begin with it (\<open>startsClean\<close>).
  The bounds of a time window are not empty and contain none of the separators \<open>-\<close>, \<open>;\<close>
  and \<open>|\<close>; a url or caption of a time window contains neither \<open>;\<close> nor \<open>|\<close>.
\<close>

definition endsClean :: "string \<Rightarrow> bool" where
  "endsClean s \<longleftrightarrow> s = [] \<or> \<not> isWhiteSpace (last s)"

definition startsClean :: "string \<Rightarrow> bool" where
  "startsClean s \<longleftrightarrow> s = [] \<or> \<not> isWhiteSpace (hd s)"

definition windowBound :: "string \<Rightarrow> bool" where
  "windowBound s \<longleftrightarrow> s \<noteq> [] \<and> CHR ''-'' \<notin> set s \<and> CHR '';'' \<notin> set s \<and> CHR ''|'' \<notin> set s"

definition separatorFree :: "string \<Rightarrow> bool" where
  "separatorFree s \<longleftrightarrow> CHR '';'' \<notin> set s \<and> CHR ''|'' \<notin> set s"

definition wellFormedMessageRule :: "TimeMessageRule \<Rightarrow> bool" where
  "wellFormedMessageRule r \<longleftrightarrow>
     windowBound (tmr_startTime r) \<and> windowBound (tmr_endTime r) \<and>
     CHR '';'' \<notin> set (tmr_content r) \<and> endsClean (tmr_content r)"

definition wellFormedMediaRule :: "TimeMediaRule \<Rightarrow> bool" where
  "wellFormedMediaRule r \<longleftrightarrow>
     windowBound (tmd_startTime r) \<and> windowBound (tmd_endTime r) \<and>
     separatorFree (tmd_mediaUrl r) \<and>
     (case tmd_caption r of None \<Rightarrow> True
      | Some c \<Rightarrow> c \<noteq> [] \<and> separatorFree c \<and> endsClean c)"

definition wellFormedCaptioned :: "NodeData \<Rightarrow> bool" where
  "wellFormedCaptioned d \<longleftrightarrow>
     (case (mediaUrl d, caption d) of
        (Some u, Some c) \<Rightarrow>
          u \<noteq> [] \<and> list_all (\<lambda>ch. \<not> isWhiteSpace ch) u \<and> \<not> startsWith ''T;'' u \<and>
          \<not> startsWith ''T-'' u \<and> endsClean c
      | _ \<Rightarrow> False)"

definition wellFormedPayload :: "BubbleData \<Rightarrow> bool" where
  "wellFormedPayload b \<longleftrightarrow>
     (let d = bubble_data b
      in case bubble_type b of
           Message \<Rightarrow>
             (case content d of
                Some c \<Rightarrow> \<not> startsWith ''UTM-'' c \<and> \<not> startsWith ''TEMPO-'' c \<and> endsClean c
              | None \<Rightarrow> False)
         | MessageUtm \<Rightarrow>
             (case (content d, utm d) of
                (Some c, Some u) \<Rightarrow>
                  c \<noteq> [] \<and> startsClean c \<and> u \<noteq> [] \<and> CHR '' '' \<notin> set u \<and> endsClean u
              | _ \<Rightarrow> False)
         | MessageTime \<Rightarrow>
             (case timeMessageRules d of
                Some rs \<Rightarrow> rs \<noteq> [] \<and> list_all wellFormedMessageRule rs
              | None \<Rightarrow> False)
         | Photo \<Rightarrow>
             (case mediaUrl d of Some u \<Rightarrow> \<not> startsWith ''C-'' u \<and> endsClean u | None \<Rightarrow> False)
         | PhotoCaption \<Rightarrow> wellFormedCaptioned d
         | PhotoCaptionTime \<Rightarrow>
             (case timeMediaRules d of
                Some rs \<Rightarrow> rs \<noteq> [] \<and> list_all wellFormedMediaRule rs
              | None \<Rightarrow> False)
         | Video \<Rightarrow>
             (case mediaUrl d of Some u \<Rightarrow> \<not> startsWith ''C-'' u \<and> endsClean u | None \<Rightarrow> False)
         | VideoCaption \<Rightarrow> wellFormedCaptioned d
         | VideoCaptionTime \<Rightarrow>
             (case timeMediaRules d of
                Some rs \<Rightarrow> rs \<noteq> [] \<and> list_all wellFormedMediaRule rs
              | None \<Rightarrow> False)
         | Audio \<Rightarrow> (case mediaUrl d of Some u \<Rightarrow> endsClean u | None \<Rightarrow> False)
         | Time \<Rightarrow>
             (case (timeMin d, timeMax d) of (Some a, Some b) \<Rightarrow> 0 \<le> a \<and> 0 \<le> b | _ \<Rightarrow> False)
         | LeadRespond \<Rightarrow> True
         | LinkPix \<Rightarrow> True
         | _ \<Rightarrow> False)"

definition exampleDeleteHook :: BubbleData where
  "exampleDeleteHook =
     \<lparr>bubble_id = ''b1'', bubble_type = DeleteHook,
      bubble_data = (exampleData (Some ''M1''))\<lparr>hookFlowId := Some ''FRONT'', content := Some ''FRONT''\<rparr>\<rparr>"

definition exampleUtmLikeMessage :: BubbleData where
  "exampleUtmLikeMessage =
     \<lparr>bubble_id = ''b2'', bubble_type = Message,
      bubble_data = (exampleData (Some ''M2''))\<lparr>content := Some ''UTM-source deve ser preenchido''\<rparr>\<rparr>"

definition examplePhotoWindows :: BubbleData where
  "examplePhotoWindows =
     \<lparr>bubble_id = ''b3'', bubble_type = PhotoCaptionTime,
      bubble_data = (exampleData (Some ''M3''))
        \<lparr>timeMediaRules := Some
           [\<lparr>tmd_id = ''r1'', tmd_startTime = ''00:00'', tmd_endTime = ''23:59'',
             tmd_mediaUrl = ''https://cdn.example.com/a-b.png'', tmd_caption = Some ''Bom dia - oferta''\<rparr>,
            \<lparr>tmd_id = ''r2'', tmd_startTime = ''06:00'', tmd_endTime = ''12:00'',
             tmd_mediaUrl = ''https://cdn.example.com/c.png'', tmd_caption = None\<rparr>]\<rparr>\<rparr>"

text \<open>
  A flow that the normalizer leaves alone although an annotation bubble carries the column M3:
  M1, M2, the annotation, M3 and M4 in one group.
\<close>

definition exampleNoteFlow :: "FlowNode list" where
  "exampleNoteFlow =
     [exampleStart,
      exampleGroupWith ''g1'' 0 0
        [exampleBubble ''b1'' Message (Some ''M1''), exampleBubble ''b2'' Message (Some ''M2''),
         exampleBubble ''n1'' Note (Some ''M3''), exampleBubble ''b3'' Message (Some ''M3''),
         exampleBubble ''b4'' Message (Some ''M4'')]]"

text \<open>
  The branching flow of three groups, listed C, B, start node, A, with the edges A\<rightarrow>C,
  start\<rightarrow>B, start\<rightarrow>A in that order.
\<close>

definition exampleBranchNodes :: "FlowNode list" where
  "exampleBranchNodes =
     [exampleGroup ''C'' 0 200, exampleGroup ''B'' 100 0, exampleStart, exampleGroup ''A'' 0 0]"

definition exampleBranchEdges :: "FlowEdge list" where
  "exampleBranchEdges =
     [exampleEdge ''A'' ''C'', exampleEdge ''start-node'' ''B'', exampleEdge ''start-node'' ''A'']"

text \<open>
  The non-annotation steps of a flow along a list of group ids: group by group in the order
  of the list, within a group in the order of its step list.
\<close>

definition stepsOf :: "FlowNode \<Rightarrow> BubbleData list" where
  "stepsOf n = filter (\<lambda>b. \<not> isVisualOnlyBubble (bubble_type b)) (bubblesOf n)"

definition stepsInOrder :: "FlowNode list \<Rightarrow> string list \<Rightarrow> BubbleData list" where
  "stepsInOrder nodes order =
     concat (map (\<lambda>gid. concat (map stepsOf (filter (\<lambda>n. node_id n = gid) (groupNodesOf nodes)))) order)"

text \<open>
  The flow \<open>exampleFlow\<close> with its nodes listed second group, start node, first group; the
  edges \<open>exampleEdges\<close> still lead from the start node to the first group and on to the second.
\<close>

definition exampleReversedFlow :: "FlowNode list" where
  "exampleReversedFlow =
     [exampleGroupWith ''g2'' 300 0 [exampleBubble ''b5'' Time (Some ''T2'')],
      exampleStart,
      exampleGroupWith ''g1'' 0 0
        [exampleBubble ''b1'' Message (Some ''M3''), exampleBubble ''b2'' Time None,
         exampleBubble ''b3'' Note None, exampleBubble ''b4'' Photo (Some '' m2 '')]]"

text \<open>The steps of a group that carry a slot name: the steps the snapshot can refer to.\<close>

definition slottedSteps :: "FlowNode \<Rightarrow> BubbleData list" where
  "slottedSteps n = filter (\<lambda>b. upperColumn b \<noteq> None) (bubblesOf n)"

section \<open>Decimal numerals, trimming and column names\<close>

lemma digit_char_isDigit: "d < 10 \<Longrightarrow> isDigit (digit_char d)"
  by (simp add: isDigit_def digit_char_def)

lemma digit_char_value: "d < 10 \<Longrightarrow> (of_char (digit_char d) :: nat) - 48 = d"
  by (simp add: digit_char_def)

lemma show_nat_digits: "list_all isDigit (show_nat n)"
proof (induction n rule: show_nat.induct)
  case (1 n)
  show ?case
  proof (cases "n < 10")
    case True
    then show ?thesis by (simp add: show_nat.simps [of n] digit_char_isDigit)
  next
    case False
    with 1 show ?thesis by (simp add: show_nat.simps [of n] digit_char_isDigit)
  qed
qed

lemma digits_value_snoc: "digits_value (ds @ [c]) = 10 * digits_value ds + ((of_char c :: nat) - 48)"
  by (simp add: digits_value_def)

lemma digits_value_show_nat: "digits_value (show_nat n) = n"
proof (induction n rule: show_nat.induct)
  case (1 n)
  show ?case
  proof (cases "n < 10")
    case True
    then show ?thesis
      by (simp add: show_nat.simps [of n] digits_value_def digit_char_value)
  next
    case False
    with 1 have "digits_value (show_nat (n div 10)) = n div 10" by simp
    with False show ?thesis
      by (simp add: show_nat.simps [of n] digits_value_snoc digit_char_value)
  qed
qed

lemma show_nat_inj: "show_nat m = show_nat n \<Longrightarrow> m = n"
  by (metis digits_value_show_nat)

lemma show_nat_length_pos: "0 < length (show_nat n)"
  by (subst show_nat.simps) simp

lemma show_nat_length_small: "n < 10 \<Longrightarrow> length (show_nat n) = 1"
  by (simp add: show_nat.simps [of n])

lemma show_nat_length_two: "10 \<le> n \<Longrightarrow> n < 100 \<Longrightarrow> length (show_nat n) = 2"
  by (simp add: show_nat.simps [of n] show_nat_length_small)

lemma show_nat_length_ge2: "10 \<le> n \<Longrightarrow> 2 \<le> length (show_nat n)"
proof -
  assume n: "10 \<le> n"
  have "show_nat (n div 10) \<noteq> []" using show_nat_length_pos [of "n div 10"] by simp
  then have "1 \<le> length (show_nat (n div 10))" by (cases "show_nat (n div 10)") simp_all
  with n show ?thesis by (simp add: show_nat.simps [of n])
qed

lemma show_nat_length_large: "100 \<le> n \<Longrightarrow> 3 \<le> length (show_nat n)"
proof -
  assume n: "100 \<le> n"
  then have "10 \<le> n div 10" by simp
  then have "2 \<le> length (show_nat (n div 10))" by (rule show_nat_length_ge2)
  with n show ?thesis
    by (simp add: show_nat.simps [of n])
qed

lemma isDigit_not_space: "isDigit c \<Longrightarrow> \<not> isWhiteSpace c"
  by (auto simp add: isDigit_def isWhiteSpace_def)

lemma isDigit_upper: "isDigit c \<Longrightarrow> toUpperChar c = c"
  by (simp add: isDigit_def toUpperChar_def)

lemma toUpperChar_idem: "toUpperChar (toUpperChar c) = toUpperChar c"
proof (cases "97 \<le> (of_char c :: nat) \<and> (of_char c :: nat) \<le> 122")
  case True
  define n where "n = (of_char c :: nat)"
  with True have "97 \<le> n" "n \<le> 122" by simp_all
  then have "(n - 32) mod 256 = n - 32" by simp
  then have "((of_char c :: nat) - 32) mod 256 = of_char c - 32" by (simp only: n_def)
  with True show ?thesis by (auto simp add: toUpperChar_def)
next
  case False
  then show ?thesis by (auto simp add: toUpperChar_def)
qed

lemma isWhiteSpace_upper: "isWhiteSpace (toUpperChar c) = isWhiteSpace c"
  by (auto simp add: toUpperChar_def isWhiteSpace_def)

lemma kindLetter_plain: "\<not> isWhiteSpace (kindLetter k)" "toUpperChar (kindLetter k) = kindLetter k"
  by (cases k; simp add: kindLetter_def isWhiteSpace_def toUpperChar_def)+

lemma js_trim_no_space:
  assumes "s \<noteq> []" "\<not> isWhiteSpace (hd s)" "\<not> isWhiteSpace (last s)"
  shows "js_trim s = s"
proof -
  from assms have 1: "dropWhile isWhiteSpace s = s"
    by (cases s) simp_all
  from assms have "rev s \<noteq> []" "\<not> isWhiteSpace (hd (rev s))"
    by (simp_all add: hd_rev)
  then have 2: "dropWhile isWhiteSpace (rev s) = rev s"
    by (cases "rev s") simp_all
  show ?thesis by (simp add: js_trim_def 1 2)
qed

lemma js_trim_buildColumn: "js_trim (buildColumn k n) = buildColumn k n"
proof (rule js_trim_no_space)
  show "buildColumn k n \<noteq> []" by (simp add: buildColumn_def)
  show "\<not> isWhiteSpace (hd (buildColumn k n))" by (simp add: buildColumn_def kindLetter_plain)
  have "show_nat n \<noteq> []" using show_nat_length_pos [of n] by auto
  then have "last (buildColumn k n) = last (show_nat n)" by (simp add: buildColumn_def)
  moreover have "isDigit (last (show_nat n))"
    using show_nat_digits [of n] \<open>show_nat n \<noteq> []\<close> by (simp add: list_all_iff)
  ultimately show "\<not> isWhiteSpace (last (buildColumn k n))" by (simp add: isDigit_not_space)
qed

lemma js_toUpperCase_digits: "list_all isDigit ds \<Longrightarrow> js_toUpperCase ds = ds"
  by (induction ds) (simp_all add: js_toUpperCase_def isDigit_upper)

lemma js_toUpperCase_buildColumn: "js_toUpperCase (buildColumn k n) = buildColumn k n"
  using js_toUpperCase_digits [OF show_nat_digits [of n]]
  by (simp add: buildColumn_def js_toUpperCase_def kindLetter_plain)

lemma parseColumn_buildColumn:
  "parseColumn (buildColumn k n) = (if 1 \<le> n \<and> n \<le> COLUMN_LIMIT then Some (k, n) else None)"
proof -
  have norm: "js_toUpperCase (js_trim (buildColumn k n)) = kindLetter k # show_nat n"
    by (simp add: js_trim_buildColumn js_toUpperCase_buildColumn) (simp add: buildColumn_def)
  have letter: "(kindLetter k = CHR ''M'' \<or> kindLetter k = CHR ''T'')"
     "(if kindLetter k = CHR ''M'' then ColM else ColT) = k"
    by (cases k; simp add: kindLetter_def)+
  have len: "(length (show_nat n) = Suc 0 \<or> length (show_nat n) = 2) = (n < 100)"
    using show_nat_length_small [of n] show_nat_length_two [of n] show_nat_length_large [of n]
    by (cases "n < 10"; cases "n < 100") auto
  show ?thesis
    unfolding parseColumn_def norm
    by (auto simp add: letter len show_nat_digits digits_value_show_nat COLUMN_LIMIT_def)
qed

lemma buildColumn_inj: "buildColumn k m = buildColumn k' n \<Longrightarrow> k = k' \<and> m = n"
  by (cases k; cases k'; auto simp add: buildColumn_def kindLetter_def dest: show_nat_inj)

lemma buildColumn_nonempty: "buildColumn k n \<noteq> []"
  by (simp add: buildColumn_def)

section \<open>Properties of the Graph Order Resolver\<close>






lemma dropWhile_map_upper:
  "dropWhile isWhiteSpace (map toUpperChar s) = map toUpperChar (dropWhile isWhiteSpace s)"
  by (induction s) (simp_all add: isWhiteSpace_upper)

lemma js_trim_upper: "js_trim (js_toUpperCase s) = js_toUpperCase (js_trim s)"
  by (simp add: js_trim_def js_toUpperCase_def dropWhile_map_upper rev_map)

lemma dropWhile_rev_dropWhile:
  assumes "xs = [] \<or> \<not> P (hd xs)"
  shows "dropWhile P (rev (dropWhile P (rev xs))) = rev (dropWhile P (rev xs))"
proof (cases "rev (dropWhile P (rev xs))")
  case Nil
  then show ?thesis by (simp only: dropWhile.simps)
next
  case (Cons a as)
  have "rev xs = takeWhile P (rev xs) @ dropWhile P (rev xs)" by simp
  then have "xs = rev (dropWhile P (rev xs)) @ rev (takeWhile P (rev xs))"
    by (metis rev_append rev_rev_ident)
  with Cons have "xs = a # (as @ rev (takeWhile P (rev xs)))" by simp
  then have "xs \<noteq> []" "hd xs = a" by (metis list.distinct(1), metis list.sel(1))
  with assms have "\<not> P a" by auto
  with Cons show ?thesis by simp
qed

lemma js_trim_idem: "js_trim (js_trim s) = js_trim s"
proof -
  let ?t = "dropWhile isWhiteSpace s"
  have t: "?t = [] \<or> \<not> isWhiteSpace (hd ?t)"
    using hd_dropWhile [of isWhiteSpace s] by blast
  have "dropWhile isWhiteSpace (js_trim s) = js_trim s"
    unfolding js_trim_def by (rule dropWhile_rev_dropWhile [of "dropWhile isWhiteSpace s" isWhiteSpace, OF t])
  then show ?thesis
    by (simp add: js_trim_def)
qed

lemma js_toUpperCase_idem: "js_toUpperCase (js_toUpperCase s) = js_toUpperCase s"
  by (simp add: js_toUpperCase_def toUpperChar_idem)

lemma parseColumn_normalized: "parseColumn (js_toUpperCase (js_trim c)) = parseColumn c"
  by (simp add: parseColumn_def js_trim_upper js_trim_idem js_toUpperCase_idem)

lemma parseColumn_empty: "js_toUpperCase (js_trim c) = [] \<Longrightarrow> parseColumn c = None"
  by (simp add: parseColumn_def)

lemma currentNormalized_slotOf:
  "currentNormalized b = map_option (\<lambda>(kind, index). buildColumn kind index) (slotOf b)"
  by (cases "supabaseColumn (bubble_data b)")
     (simp_all add: currentNormalized_def slotOf_def parseColumn_normalized parseColumn_empty)

lemma currentNormalized_Some:
  "currentNormalized b = Some (buildColumn k n) \<longleftrightarrow> slotOf b = Some (k, n)"
  by (cases "slotOf b") (auto simp add: currentNormalized_slotOf dest: buildColumn_inj)

section \<open>Insertion-ordered maps and the traversal of the normalizer\<close>

lemma map_of_jsmap_set: "map_of (jsmap_set m k v) = (map_of m)(k \<mapsto> v)"
  by (induction m) (auto simp add: fun_eq_iff)

lemma jsmap_set_nonempty: "jsmap_set m k v \<noteq> []"
  by (cases m) (auto split: if_splits)

lemma jsmap_set_fresh: "k \<notin> fst ` set m \<Longrightarrow> jsmap_set m k v = m @ [(k, v)]"
  by (induction m) auto

lemma nodeMap_distinct:
  "distinct (map fst m @ map node_id nodes) \<Longrightarrow>
   fold (\<lambda>node m. jsmap_set m (node_id node) node) nodes m = m @ map (\<lambda>n. (node_id n, n)) nodes"
proof (induction nodes arbitrary: m)
  case Nil
  then show ?case by simp
next
  case (Cons n nodes)
  from Cons.prems have fresh: "node_id n \<notin> fst ` set m" by auto
  from Cons.prems have "distinct (map fst (m @ [(node_id n, n)]) @ map node_id nodes)" by auto
  from Cons.IH [OF this] fresh show ?case by (simp add: jsmap_set_fresh)
qed

lemma processRemaining_Cons:
  "processRemaining ((k, node) # m) =
     (if node_type node \<noteq> GroupNode then [] else collectBubbles node) @ processRemaining m"
  by (simp add: processRemaining_def)

lemma processRemaining_Nil: "processRemaining [] = []"
  by (simp add: processRemaining_def)

lemma jsmap_delete_absent: "k \<notin> fst ` set m \<Longrightarrow> jsmap_delete m k = m"
  by (induction m) (auto simp add: jsmap_delete_def)

lemma processRemaining_delete:
  assumes "distinct (map fst m)" "map_of m gid = Some node" "node_type node = GroupNode"
  shows "mset (collectBubbles node) + mset (processRemaining (jsmap_delete m gid)) = mset (processRemaining m)"
  using assms
proof (induction m)
  case Nil
  then show ?case by simp
next
  case (Cons kv m)
  obtain k n where kv: "kv = (k, n)" by (cases kv)
  show ?case
  proof (cases "k = gid")
    case True
    with Cons.prems kv have "n = node" "gid \<notin> fst ` set m" by auto
    with True kv Cons.prems(3) show ?thesis
      using jsmap_delete_absent [of gid m]
      by (simp add: processRemaining_Cons jsmap_delete_def)
  next
    case False
    with Cons.prems kv have "distinct (map fst m)" "map_of m gid = Some node" by auto
    from Cons.IH [OF this Cons.prems(3)] False kv show ?thesis
      by (simp add: processRemaining_Cons jsmap_delete_def)
  qed
qed

lemma jsmap_delete_distinct: "distinct (map fst m) \<Longrightarrow> distinct (map fst (jsmap_delete m k))"
  by (induction m) (auto simp add: jsmap_delete_def)

lemma processGroupOrder_mset:
  "distinct (map fst m) \<Longrightarrow>
   mset (snd (processGroupOrder order m acc)) + mset (processRemaining (fst (processGroupOrder order m acc)))
   = mset acc + mset (processRemaining m)"
proof (induction order arbitrary: m acc)
  case Nil
  then show ?case by simp
next
  case (Cons gid order)
  show ?case
  proof (cases "jsmap_get m gid")
    case None
    with Cons show ?thesis by simp
  next
    case (Some node)
    show ?thesis
    proof (cases "node_type node = GroupNode")
      case False
      with Some Cons show ?thesis by simp
    next
      case True
      from Some have "map_of m gid = Some node" by (simp add: jsmap_get_def)
      from processRemaining_delete [OF Cons.prems this True]
      have "mset (collectBubbles node) + mset (processRemaining (jsmap_delete m gid)) = mset (processRemaining m)" .
      moreover from Cons.IH [of "jsmap_delete m gid" "acc @ collectBubbles node", OF jsmap_delete_distinct [OF Cons.prems]]
      have "mset (snd (processGroupOrder order (jsmap_delete m gid) (acc @ collectBubbles node))) +
            mset (processRemaining (fst (processGroupOrder order (jsmap_delete m gid) (acc @ collectBubbles node))))
            = mset (acc @ collectBubbles node) + mset (processRemaining (jsmap_delete m gid))" .
      ultimately show ?thesis using Some True by (simp add: add.assoc)
    qed
  qed
qed

lemma processRemaining_nodes:
  "processRemaining (map (\<lambda>n. (node_id n, n)) nodes) = groupEntries nodes"
  by (induction nodes) (simp_all add: processRemaining_Nil processRemaining_Cons groupEntries_def)

lemma allBubblesInOrder_mset:
  assumes "distinct (map node_id nodes)"
  shows "mset (allBubblesInOrder nodes order) = mset (groupEntries nodes)"
proof -
  have nm: "fold (\<lambda>node m. jsmap_set m (node_id node) node) nodes [] = map (\<lambda>n. (node_id n, n)) nodes"
    using nodeMap_distinct [of "[]" nodes] assms by simp
  have d: "distinct (map fst (map (\<lambda>n. (node_id n, n)) nodes))"
    using assms by (simp add: comp_def)
  show ?thesis
    using processGroupOrder_mset [OF d, of order "[]"]
    by (simp add: allBubblesInOrder_def nm processRemaining_nodes Let_def)
qed

lemma groupEntries_bubbles:
  "map fst (groupEntries nodes) =
   filter (\<lambda>b. \<not> isVisualOnlyBubble (bubble_type b)) (getAllBubblesFromFlowNodes nodes)"
  by (induction nodes)
     (simp_all add: groupEntries_def getAllBubblesFromFlowNodes_def collectBubbles_def comp_def bubblesOf_def)

section \<open>The traversal under a change of the nodes\<close>

lemma jsmap_get_map_values:
  "jsmap_get (map (\<lambda>(k, n). (k, f n)) m) gid = map_option f (jsmap_get m gid)"
  by (induction m) (auto simp add: jsmap_get_def)

lemma jsmap_delete_map_values:
  "jsmap_delete (map (\<lambda>(k, n). (k, f n)) m) gid = map (\<lambda>(k, n). (k, f n)) (jsmap_delete m gid)"
  by (induction m) (auto simp add: jsmap_delete_def)

lemma jsmap_get_value: "jsmap_get m gid = Some n \<Longrightarrow> n \<in> snd ` set m"
  by (auto simp add: jsmap_get_def dest!: map_of_SomeD intro: rev_image_eqI)

lemma jsmap_delete_values: "snd ` set (jsmap_delete m gid) \<subseteq> snd ` set m"
  by (auto simp add: jsmap_delete_def)

lemma processGroupOrder_transform:
  assumes "g [] = []" and "\<And>xs ys. g (xs @ ys) = g xs @ g ys"
    and "\<And>n. n \<in> snd ` set m \<Longrightarrow> node_type (f n) = node_type n \<and>
            (node_type n = GroupNode \<longrightarrow> collectBubbles (f n) = g (collectBubbles n))"
  shows "processGroupOrder order (map (\<lambda>(k, n). (k, f n)) m) (g acc) =
         (map (\<lambda>(k, n). (k, f n)) (fst (processGroupOrder order m acc)),
          g (snd (processGroupOrder order m acc)))"
  using assms(3)
proof (induction order arbitrary: m acc)
  case Nil
  then show ?case by simp
next
  case (Cons gid order)
  show ?case
  proof (cases "jsmap_get m gid")
    case None
    with Cons show ?thesis by (simp add: jsmap_get_map_values)
  next
    case (Some node)
    then have node: "node \<in> snd ` set m" by (rule jsmap_get_value)
    from Cons.prems [OF node] have ty: "node_type (f node) = node_type node" by simp
    show ?thesis
    proof (cases "node_type node = GroupNode")
      case False
      with Some ty Cons show ?thesis by (simp add: jsmap_get_map_values)
    next
      case True
      with Cons.prems [OF node] have cb: "collectBubbles (f node) = g (collectBubbles node)" by simp
      have "\<And>n. n \<in> snd ` set (jsmap_delete m gid) \<Longrightarrow> node_type (f n) = node_type n \<and>
            (node_type n = GroupNode \<longrightarrow> collectBubbles (f n) = g (collectBubbles n))"
        using Cons.prems jsmap_delete_values [of m gid] by blast
      from Cons.IH [of "jsmap_delete m gid" "acc @ collectBubbles node", OF this] Some True ty cb
      show ?thesis
        by (simp add: jsmap_get_map_values jsmap_delete_map_values assms(2))
    qed
  qed
qed

lemma processRemaining_transform:
  assumes "g [] = []" and "\<And>xs ys. g (xs @ ys) = g xs @ g ys"
    and "\<And>n. n \<in> snd ` set m \<Longrightarrow> node_type (f n) = node_type n \<and>
            (node_type n = GroupNode \<longrightarrow> collectBubbles (f n) = g (collectBubbles n))"
  shows "processRemaining (map (\<lambda>(k, n). (k, f n)) m) = g (processRemaining m)"
  using assms(3)
proof (induction m)
  case Nil
  then show ?case by (simp add: processRemaining_Nil assms(1))
next
  case (Cons kv m)
  obtain k n where kv: "kv = (k, n)" by (cases kv)
  from Cons.prems [of n] kv have n: "node_type (f n) = node_type n"
    "node_type n = GroupNode \<longrightarrow> collectBubbles (f n) = g (collectBubbles n)" by simp_all
  have "processRemaining (map (\<lambda>(k, n). (k, f n)) m) = g (processRemaining m)"
    using Cons.IH Cons.prems by simp
  with kv n show ?case
    by (simp add: processRemaining_Cons assms(1,2))
qed

lemma allBubblesInOrder_transform:
  assumes d: "distinct (map node_id nodes)"
    and g: "g [] = []" "\<And>xs ys. g (xs @ ys) = g xs @ g ys"
    and f: "\<And>n. n \<in> set nodes \<Longrightarrow> node_id (f n) = node_id n \<and> node_type (f n) = node_type n \<and>
            (node_type n = GroupNode \<longrightarrow> collectBubbles (f n) = g (collectBubbles n))"
  shows "allBubblesInOrder (map f nodes) order = g (allBubblesInOrder nodes order)"
proof -
  let ?m = "map (\<lambda>n. (node_id n, n)) nodes"
  have ids: "map node_id (map f nodes) = map node_id nodes"
    using f by simp
  have nm: "fold (\<lambda>node m. jsmap_set m (node_id node) node) nodes [] = ?m"
    using nodeMap_distinct [of "[]" nodes] d by simp
  have "fold (\<lambda>node m. jsmap_set m (node_id node) node) (map f nodes) [] =
        map (\<lambda>n. (node_id n, n)) (map f nodes)"
  proof -
    have "distinct (map node_id (map f nodes))" unfolding ids by (rule d)
    then show ?thesis using nodeMap_distinct [of "[]" "map f nodes"] by simp
  qed
  also have "\<dots> = map (\<lambda>(k, n). (k, f n)) ?m"
    using f by simp
  finally have nm': "fold (\<lambda>node m. jsmap_set m (node_id node) node) (map f nodes) [] =
        map (\<lambda>(k, n). (k, f n)) ?m" .
  have fm: "\<And>n. n \<in> snd ` set ?m \<Longrightarrow> node_type (f n) = node_type n \<and>
            (node_type n = GroupNode \<longrightarrow> collectBubbles (f n) = g (collectBubbles n))"
    using f by auto
  have po: "processGroupOrder order (map (\<lambda>(k, n). (k, f n)) ?m) [] =
         (map (\<lambda>(k, n). (k, f n)) (fst (processGroupOrder order ?m [])),
          g (snd (processGroupOrder order ?m [])))"
    using processGroupOrder_transform [of g ?m f order "[]", OF g fm] by (simp add: g(1))
  have sub: "snd ` set (fst (processGroupOrder order m acc)) \<subseteq> snd ` set m" for m acc
  proof (induction order arbitrary: m acc)
    case Nil
    then show ?case by simp
  next
    case (Cons gid order)
    have "snd ` set (fst (processGroupOrder order (jsmap_delete m gid) acc')) \<subseteq> snd ` set m" for acc'
      using Cons [of "jsmap_delete m gid" acc'] jsmap_delete_values [of m gid] by blast
    with Cons [of m acc] show ?case
      by (simp split: option.splits)
  qed
  have fm2: "\<And>n. n \<in> snd ` set (fst (processGroupOrder order ?m [])) \<Longrightarrow> node_type (f n) = node_type n \<and>
            (node_type n = GroupNode \<longrightarrow> collectBubbles (f n) = g (collectBubbles n))"
    using fm sub [of ?m "[]"] by blast
  show ?thesis
    unfolding allBubblesInOrder_def nm nm' Let_def po
    using processRemaining_transform [of g "fst (processGroupOrder order ?m [])" f, OF g fm2]
    by (simp add: g(2))
qed

section \<open>The counter loop\<close>

lemma nextIndexes_length: "length (nextIndexes m t ks) = length ks"
  by (induction ks arbitrary: m t) simp_all

lemma rankAt_0: "rankAt (k # ks) 0 = 1"
  by (simp add: rankAt_def)

lemma rankAt_Suc: "rankAt (k # ks) (Suc j) = (if k = ks ! j then 1 else 0) + rankAt ks j"
  by (simp add: rankAt_def)

lemma nextIndexes_nth:
  "i < length ks \<Longrightarrow> nextIndexes m t ks ! i = (if ks ! i = ColM then m else t) + rankAt ks i"
proof (induction ks arbitrary: m t i)
  case Nil
  then show ?case by simp
next
  case (Cons k ks)
  show ?case
  proof (cases i)
    case 0
    then show ?thesis by (simp add: rankAt_0)
  next
    case (Suc j)
    with Cons.prems have j: "j < length ks" by simp
    show ?thesis
      using Cons.IH [OF j, of "Suc m" t] Cons.IH [OF j, of m "Suc t"] Suc
      by (cases k; cases "ks ! j") (simp_all add: rankAt_Suc)
  qed
qed

lemma rankAt_pos: "i < length ks \<Longrightarrow> 1 \<le> rankAt ks i"
proof -
  assume "i < length ks"
  then have "take (Suc i) ks = take i ks @ [ks ! i]" by (rule take_Suc_conv_app_nth)
  then show ?thesis by (simp add: rankAt_def)
qed

lemma rankAt_le_count: "i < length ks \<Longrightarrow> rankAt ks i \<le> length (filter (\<lambda>k. k = ks ! i) ks)"
proof -
  have "ks = take (Suc i) ks @ drop (Suc i) ks" by simp
  then have "filter (\<lambda>k. k = ks ! i) ks =
        filter (\<lambda>k. k = ks ! i) (take (Suc i) ks) @ filter (\<lambda>k. k = ks ! i) (drop (Suc i) ks)"
    by (metis filter_append)
  then show ?thesis by (simp add: rankAt_def)
qed

lemma rankAt_mono:
  assumes "i < j" "j < length ks" "ks ! i = ks ! j"
  shows "rankAt ks i < rankAt ks j"
proof -
  have "take j ks = take (Suc i) ks @ take (j - Suc i) (drop (Suc i) ks)"
    using assms(1) take_add [of "Suc i" "j - Suc i" ks] by simp
  moreover have "take (Suc j) ks = take j ks @ [ks ! j]"
    using assms(2) by (rule take_Suc_conv_app_nth)
  ultimately have "take (Suc j) ks = take (Suc i) ks @ take (j - Suc i) (drop (Suc i) ks) @ [ks ! j]"
    by simp
  then have "filter (\<lambda>k. k = ks ! j) (take (Suc j) ks) =
      filter (\<lambda>k. k = ks ! j) (take (Suc i) ks) @ filter (\<lambda>k. k = ks ! j) (take (j - Suc i) (drop (Suc i) ks)) @ [ks ! j]"
    by simp
  then show ?thesis
    by (simp add: rankAt_def assms(3))
qed

lemma assignColumns_nonempty: "u0 \<noteq> [] \<Longrightarrow> assignColumns m t tr u0 \<noteq> []"
proof (induction tr arbitrary: m t u0)
  case Nil
  then show ?case by simp
next
  case (Cons e tr)
  obtain b k where e: "e = (b, k)" by (cases e)
  from Cons.prems have "jsmap_set u0 x c \<noteq> []" for x c by (rule_tac jsmap_set_nonempty)
  with Cons e show ?case
    by (cases k) (simp_all add: Let_def)
qed

lemma assignColumns_other:
  "x \<notin> (\<lambda>e. bubble_id (fst e)) ` set tr \<Longrightarrow> map_of (assignColumns m t tr u0) x = map_of u0 x"
  by (induction tr arbitrary: m t u0) (auto simp add: Let_def map_of_jsmap_set)

lemma assignColumns_get:
  assumes "distinct (map (\<lambda>e. bubble_id (fst e)) tr)" "i < length tr"
  shows "map_of (assignColumns m t tr u0) (bubble_id (fst (tr ! i))) =
         (if currentNormalized (fst (tr ! i)) \<noteq> Some (buildColumn (snd (tr ! i)) (nextIndexes m t (map snd tr) ! i))
          then Some (buildColumn (snd (tr ! i)) (nextIndexes m t (map snd tr) ! i))
          else map_of u0 (bubble_id (fst (tr ! i))))"
  using assms
proof (induction tr arbitrary: m t u0 i)
  case Nil
  then show ?case by simp
next
  case (Cons e tr)
  obtain b k where e: "e = (b, k)" by (cases e)
  from Cons.prems e have fresh: "bubble_id b \<notin> (\<lambda>e. bubble_id (fst e)) ` set tr"
    and d: "distinct (map (\<lambda>e. bubble_id (fst e)) tr)" by auto
  show ?case
  proof (cases i)
    case 0
    with e fresh show ?thesis
      by (cases k) (simp_all add: Let_def assignColumns_other map_of_jsmap_set)
  next
    case (Suc j)
    with Cons.prems have j: "j < length tr" by simp
    then have "bubble_id (fst (tr ! j)) \<in> (\<lambda>e. bubble_id (fst e)) ` set tr" by simp
    with fresh have ne: "bubble_id (fst (tr ! j)) \<noteq> bubble_id b" by metis
    show ?thesis
      using Cons.IH [OF d j] Suc e ne
      by (cases k) (simp_all add: Let_def map_of_jsmap_set)
  qed
qed

lemma assignColumns_empty:
  "assignColumns m t tr u0 = [] \<longleftrightarrow>
     u0 = [] \<and> list_all2 (\<lambda>e n. currentNormalized (fst e) = Some (buildColumn (snd e) n))
                         tr (nextIndexes m t (map snd tr))"
proof (induction tr arbitrary: m t u0)
  case Nil
  then show ?case by simp
next
  case (Cons e tr)
  obtain b k where e: "e = (b, k)" by (cases e)
  show ?case
    using Cons [of "Suc m" t] Cons [of m "Suc t"] e
    by (cases k) (auto simp add: Let_def jsmap_set_nonempty assignColumns_nonempty)
qed

section \<open>Applying an update map\<close>

lemma withNewColumn_type: "bubble_type (withNewColumn u b) = bubble_type b"
  and withNewColumn_id: "bubble_id (withNewColumn u b) = bubble_id b"
  and withNewColumn_frame: "withoutColumn (withNewColumn u b) = withoutColumn b"
  by (simp_all add: withNewColumn_def withoutColumn_def split: option.splits)

lemma withNewColumn_absent: "map_of u (bubble_id b) = None \<Longrightarrow> withNewColumn u b = b"
  by (simp add: withNewColumn_def jsmap_get_def)

lemma withNewColumn_same:
  "map_of u (bubble_id b) = Some c \<Longrightarrow> supabaseColumn (bubble_data b) = Some c \<Longrightarrow> withNewColumn u b = b"
  by (simp add: withNewColumn_def jsmap_get_def)

lemma withNewColumn_set:
  "map_of u (bubble_id b) = Some c \<Longrightarrow> c \<noteq> [] \<Longrightarrow> supabaseColumn (bubble_data (withNewColumn u b)) = Some c"
  by (simp add: withNewColumn_def jsmap_get_def)

lemma collectBubbles_updated:
  assumes "node_type n = GroupNode"
  shows "collectBubbles (n\<lparr>node_data := (node_data n)\<lparr>bubbles := Some (map (withNewColumn u) (bubblesOf n))\<rparr>\<rparr>) =
         map (\<lambda>e. (withNewColumn u (fst e), snd e)) (collectBubbles n)"
  by (simp add: collectBubbles_def bubblesOf_def filter_map comp_def withNewColumn_type)

lemma allBubblesInOrder_applyColumnUpdates:
  assumes "distinct (map node_id nodes)"
  shows "allBubblesInOrder (applyColumnUpdates u nodes) order =
         map (\<lambda>e. (withNewColumn u (fst e), snd e)) (allBubblesInOrder nodes order)"
  unfolding applyColumnUpdates_def
  by (rule allBubblesInOrder_transform [OF assms]) (simp_all add: collectBubbles_updated)

section \<open>The group order depends on ids, types and positions only\<close>

lemma calculateGroupOrder_cong:
  assumes "map (\<lambda>n. (node_id n, node_type n, position n)) nodes' =
           map (\<lambda>n. (node_id n, node_type n, position n)) nodes"
  shows "calculateGroupOrder nodes' edges = calculateGroupOrder nodes edges"
proof -
  let ?key = "\<lambda>n. (node_id n, node_type n, position n)"
  let ?grp = "\<lambda>n. node_type n = GroupNode"
  have "filter (\<lambda>k. fst (snd k) = GroupNode) (map ?key nodes') = filter (\<lambda>k. fst (snd k) = GroupNode) (map ?key nodes)"
    using assms by simp
  then have k: "map ?key (filter ?grp nodes') = map ?key (filter ?grp nodes)"
    by (simp add: filter_map comp_def)
  have ids: "map node_id (filter ?grp nodes') = map node_id (filter ?grp nodes)"
  proof -
    have "map fst (map ?key (filter ?grp nodes')) = map fst (map ?key (filter ?grp nodes))"
      using k by simp
    then show ?thesis by (simp add: comp_def)
  qed
  have fld: "fold (\<lambda>n m. jsmap_set m (node_id n) (position n)) xs m0 =
             fold (\<lambda>k m. jsmap_set m (fst k) (snd (snd k))) (map ?key xs) m0" for xs m0
    by (simp add: fold_map comp_def)
  have pos: "fold (\<lambda>n m. jsmap_set m (node_id n) (position n)) (filter ?grp nodes') [] =
             fold (\<lambda>n m. jsmap_set m (node_id n) (position n)) (filter ?grp nodes) []"
    by (simp only: fld k)
  have emp: "(filter ?grp nodes' = []) = (filter ?grp nodes = [])"
  proof -
    have "(map ?key (filter ?grp nodes') = []) = (map ?key (filter ?grp nodes) = [])"
      by (simp only: k)
    then show ?thesis by (simp only: map_is_Nil_conv)
  qed
  show ?thesis
    unfolding calculateGroupOrder_def Let_def ids pos emp ..
qed

lemma applyColumnUpdates_keys:
  "map (\<lambda>n. (node_id n, node_type n, position n)) (applyColumnUpdates u nodes) =
   map (\<lambda>n. (node_id n, node_type n, position n)) nodes"
  by (simp add: applyColumnUpdates_def)

lemma applyNormalizationToNodes_cases:
  "applyNormalizationToNodes nodes edges = nodes \<and>
     assignColumns 0 0 (allBubblesInOrder nodes (canonicalOrder nodes edges)) [] = []
   \<or> applyNormalizationToNodes nodes edges =
       applyColumnUpdates (assignColumns 0 0 (allBubblesInOrder nodes (canonicalOrder nodes edges)) []) nodes \<and>
     assignColumns 0 0 (allBubblesInOrder nodes (canonicalOrder nodes edges)) [] \<noteq> []"
  by (simp add: applyNormalizationToNodes_def normalizeColumnsWithGroupOrder_def canonicalOrder_def Let_def)

lemma canonicalOrder_applyNormalizationToNodes:
  "canonicalOrder (applyNormalizationToNodes nodes edges) edges = canonicalOrder nodes edges"
  using applyNormalizationToNodes_cases [of nodes edges]
  by (auto simp add: canonicalOrder_def calculateGroupOrder_cong [OF applyColumnUpdates_keys])

lemma withNewColumn_empty: "withNewColumn [] b = b"
  by (simp add: withNewColumn_def jsmap_get_def)

lemma allBubblesInOrder_applyNormalizationToNodes:
  assumes "distinct (map node_id nodes)"
  shows "allBubblesInOrder (applyNormalizationToNodes nodes edges) order =
         map (\<lambda>e. (withNewColumn (assignColumns 0 0 (allBubblesInOrder nodes (canonicalOrder nodes edges)) []) (fst e), snd e))
             (allBubblesInOrder nodes order)"
  using applyNormalizationToNodes_cases [of nodes edges]
  by (auto simp add: allBubblesInOrder_applyColumnUpdates [OF assms] withNewColumn_empty)

lemma traversal_ids_distinct:
  assumes "distinct (map node_id nodes)" "distinct (map bubble_id (getAllBubblesFromFlowNodes nodes))"
  shows "distinct (map (\<lambda>e. bubble_id (fst e)) (allBubblesInOrder nodes order))"
proof -
  have "mset (map (\<lambda>e. bubble_id (fst e)) (allBubblesInOrder nodes order)) =
        mset (map (\<lambda>e. bubble_id (fst e)) (groupEntries nodes))"
    using allBubblesInOrder_mset [OF assms(1), of order] by (metis mset_map)
  moreover have "map (\<lambda>e. bubble_id (fst e)) (groupEntries nodes) =
        map bubble_id (filter (\<lambda>b. \<not> isVisualOnlyBubble (bubble_type b)) (getAllBubblesFromFlowNodes nodes))"
    using arg_cong [OF groupEntries_bubbles [of nodes], of "map bubble_id"] by (simp add: comp_def)
  moreover have "distinct (map bubble_id (filter (\<lambda>b. \<not> isVisualOnlyBubble (bubble_type b)) (getAllBubblesFromFlowNodes nodes)))"
    using assms(2) by (rule distinct_map_filter)
  ultimately show ?thesis
    by (metis mset_eq_imp_distinct_iff)
qed

lemma traversal_kind:
  assumes "distinct (map node_id nodes)" "e \<in> set (allBubblesInOrder nodes order)"
  shows "snd e = getColumnKindForBubble (bubble_type (fst e)) \<and> \<not> isVisualOnlyBubble (bubble_type (fst e))
         \<and> fst e \<in> set (getAllBubblesFromFlowNodes nodes)"
proof -
  from assms have "e \<in> set (groupEntries nodes)"
    using allBubblesInOrder_mset [OF assms(1), of order] by (metis mset_eq_setD)
  then obtain n where n: "n \<in> set nodes" "node_type n = GroupNode" "e \<in> set (collectBubbles n)"
    by (auto simp add: groupEntries_def)
  from n(3) have e: "snd e = getColumnKindForBubble (bubble_type (fst e))"
    "\<not> isVisualOnlyBubble (bubble_type (fst e))" "fst e \<in> set (bubblesOf n)"
    by (auto simp add: collectBubbles_def)
  from e(3) have "bubbles (node_data n) \<noteq> None"
    by (cases "bubbles (node_data n)") (simp_all add: bubblesOf_def)
  with n e(3) have "fst e \<in> set (getAllBubblesFromFlowNodes nodes)"
    unfolding getAllBubblesFromFlowNodes_def by (auto intro!: bexI [of _ n])
  with e show ?thesis by simp
qed

section \<open>The resolver lists every group once\<close>

lemma insort_cmp_mset: "mset (insort_cmp cmp x xs) = add_mset x (mset xs)"
  by (induction xs) auto

lemma js_sort_mset: "mset (js_sort cmp xs) = mset xs"
  by (induction xs) (simp_all add: js_sort_def insort_cmp_mset)

lemma js_sort_set: "set (js_sort cmp xs) = set xs"
  by (metis js_sort_mset set_mset_mset)

lemma js_sort_distinct: "distinct (js_sort cmp xs) = distinct xs"
  by (metis js_sort_mset mset_eq_imp_distinct_iff)

lemma jsset_fold_set: "set (fold (\<lambda>x s. jsset_add s x) xs s0) = set s0 \<union> set xs"
  by (induction xs arbitrary: s0) (auto simp add: jsset_add_def)

lemma jsset_fold_distinct: "distinct s0 \<Longrightarrow> distinct (fold (\<lambda>x s. jsset_add s x) xs s0)"
  by (induction xs arbitrary: s0) (auto simp add: jsset_add_def)

lemma jsset_of_list_perm: "distinct (jsset_of_list xs)" "set (jsset_of_list xs) = set xs"
  by (simp_all add: jsset_of_list_def jsset_fold_distinct jsset_fold_set)

lemma enqueueTargets_result:
  "\<exists>new. enqueueTargets groupIds ts (queue, visited) = (queue @ new, visited @ new) \<and>
         distinct new \<and> set new \<inter> set visited = {} \<and> set new \<subseteq> set groupIds"
proof (induction ts arbitrary: queue visited)
  case Nil
  show ?case by simp
next
  case (Cons t ts)
  show ?case
  proof (cases "jsset_has groupIds t \<and> \<not> jsset_has visited t")
    case True
    from Cons.IH [of "queue @ [t]" "visited @ [t]"] obtain new where
      new: "enqueueTargets groupIds ts (queue @ [t], visited @ [t]) = ((queue @ [t]) @ new, (visited @ [t]) @ new)"
        "distinct new" "set new \<inter> set (visited @ [t]) = {}" "set new \<subseteq> set groupIds"
      by blast
    have "enqueueTargets groupIds (t # ts) (queue, visited) = (queue @ (t # new), visited @ (t # new))"
      using True new(1) by (simp add: jsset_add_def jsset_has_def)
    moreover have "distinct (t # new)" using new(2,3) by auto
    moreover have "set (t # new) \<inter> set visited = {}" using True new(3) by (auto simp add: jsset_has_def)
    moreover have "set (t # new) \<subseteq> set groupIds" using True new(4) by (auto simp add: jsset_has_def)
    ultimately show ?thesis by blast
  next
    case False
    with Cons.IH [of queue visited] show ?thesis by auto
  qed
qed

lemma processQueue_result:
  assumes "distinct (result @ queue)" "set visited = set result \<union> set queue" "set visited \<subseteq> set groupIds"
  shows "distinct (fst (processQueue adj groupIds nodePositions queue visited result)) \<and>
         set (fst (processQueue adj groupIds nodePositions queue visited result)) =
           set (snd (processQueue adj groupIds nodePositions queue visited result)) \<and>
         set (snd (processQueue adj groupIds nodePositions queue visited result)) \<subseteq> set groupIds"
  using assms
proof (induction adj groupIds nodePositions queue visited result rule: processQueue.induct)
  case (1 adj groupIds nodePositions visited result)
  then show ?case by simp
next
  case (2 adj groupIds nodePositions current rest visited result)
  let ?targets = "case jsmap_get adj current of Some ts \<Rightarrow> ts | None \<Rightarrow> []"
  obtain new where new:
    "enqueueTargets groupIds (sortByPosition nodePositions ?targets) (rest, visited) = (rest @ new, visited @ new)"
    "distinct new" "set new \<inter> set visited = {}" "set new \<subseteq> set groupIds"
    using enqueueTargets_result by blast
  have 1: "distinct ((result @ [current]) @ rest @ new)"
    using "2.prems"(1,2) new(2,3) by auto
  have 2: "set (visited @ new) = set (result @ [current]) \<union> set (rest @ new)"
    using "2.prems"(2) by auto
  have 3: "set (visited @ new) \<subseteq> set groupIds"
    using "2.prems"(3) new(4) by auto
  from "2.IH" [OF refl refl] new(1) 1 2 3
  show ?case by (simp add: Let_def)
qed

lemma topologicalSortFromStart_perm:
  assumes "distinct groupIds"
  shows "distinct (topologicalSortFromStart startNodeId groupIds edges nodePositions) \<and>
         set (topologicalSortFromStart startNodeId groupIds edges nodePositions) = set groupIds"
proof -
  let ?adj = "buildAdjacencyMap edges"
  let ?fromStart = "case jsmap_get ?adj startNodeId of Some ts \<Rightarrow> ts | None \<Rightarrow> []"
  obtain new where new:
    "enqueueTargets groupIds (sortByPosition nodePositions ?fromStart) ([], []) = ([] @ new, [] @ new)"
    "distinct new" "set new \<subseteq> set groupIds"
    using enqueueTargets_result [of groupIds _ "[]" "[]"] by blast
  let ?rv = "processQueue ?adj groupIds nodePositions new new []"
  have rv: "distinct (fst ?rv)" "set (fst ?rv) = set (snd ?rv)" "set (snd ?rv) \<subseteq> set groupIds"
    using processQueue_result [of "[]" new new groupIds ?adj nodePositions] new(2,3) by simp_all
  let ?remaining = "filter (\<lambda>i. \<not> jsset_has (snd ?rv) i) groupIds"
  have ts: "topologicalSortFromStart startNodeId groupIds edges nodePositions =
            fst ?rv @ sortByPosition nodePositions ?remaining"
    using new(1) by (simp add: topologicalSortFromStart_def Let_def)
  have "distinct (sortByPosition nodePositions ?remaining)"
    using assms by (simp add: sortByPosition_def js_sort_distinct)
  moreover have s: "set (sortByPosition nodePositions ?remaining) = set groupIds - set (snd ?rv)"
    by (auto simp add: sortByPosition_def js_sort_set jsset_has_def)
  ultimately show ?thesis
    unfolding ts using rv by auto
qed

lemma order_ids:
  "map groupId (map (\<lambda>(gid, index). \<lparr>groupId = gid, orderTag = f index, orderIndex = index\<rparr>)
                    (zip xs [0..<length xs])) = xs"
  by (rule nth_equalityI) simp_all

lemma canonicalOrder_perm:
  "distinct (canonicalOrder nodes edges) \<and>
   set (canonicalOrder nodes edges) = node_id ` set (groupNodesOf nodes)"
proof (cases "groupNodesOf nodes = []")
  case True
  then show ?thesis
    by (simp add: canonicalOrder_def calculateGroupOrder_def groupNodesOf_def)
next
  case False
  let ?ids = "jsset_of_list (map node_id (groupNodesOf nodes))"
  let ?pos = "fold (\<lambda>n m. jsmap_set m (node_id n) (position n)) (groupNodesOf nodes) []"
  have "canonicalOrder nodes edges = topologicalSortFromStart ''start-node'' ?ids edges ?pos \<or>
        canonicalOrder nodes edges = sortByCanvasPosition ?ids ?pos"
    using False
    unfolding canonicalOrder_def calculateGroupOrder_def Let_def groupNodesOf_def [symmetric]
    by (simp only: order_ids if_False) (metis order_ids)
  then show ?thesis
    using topologicalSortFromStart_perm [OF jsset_of_list_perm(1), of "''start-node''" "map node_id (groupNodesOf nodes)" edges ?pos]
    by (auto simp add: sortByCanvasPosition_def js_sort_distinct js_sort_set jsset_of_list_perm)
qed


lemma nodePositions_get:
  assumes "distinct (map node_id gs)" "g \<in> set gs"
  shows "jsmap_get (fold (\<lambda>n m. jsmap_set m (node_id n) (position n)) gs m0) (node_id g) = Some (position g)"
  using assms
proof (induction gs arbitrary: m0)
  case Nil
  then show ?case by simp
next
  case (Cons n gs)
  show ?case
  proof (cases "g \<in> set gs")
    case True
    with Cons show ?thesis by simp
  next
    case False
    with Cons.prems have g: "g = n" "node_id n \<notin> node_id ` set gs" by auto
    have keep: "map_of (fold (\<lambda>n m. jsmap_set m (node_id n) (position n)) gs m) k = map_of m k"
      if "k \<notin> node_id ` set gs" for k m
      using that by (induction gs arbitrary: m) (simp_all add: map_of_jsmap_set)
    show ?thesis
      using keep [OF g(2)] by (simp add: g jsmap_get_def map_of_jsmap_set)
  qed
qed

lemma buildAdjacencyMap_fold_get:
  "jsmap_get (fold (\<lambda>edge adj.
             let existing = (case jsmap_get adj (source edge) of Some ts \<Rightarrow> ts | None \<Rightarrow> [])
             in jsmap_set adj (source edge) (existing @ [target edge])) es adj0) s =
   (let ts = map target (filter (\<lambda>e. source e = s) es)
    in if ts = [] then jsmap_get adj0 s
       else Some ((case jsmap_get adj0 s of Some ts0 \<Rightarrow> ts0 | None \<Rightarrow> []) @ ts))"
proof (induction es arbitrary: adj0)
  case Nil
  then show ?case by simp
next
  case (Cons e es)
  show ?case
    unfolding fold_Cons comp_def Cons.IH
    by (auto simp add: Let_def jsmap_get_def map_of_jsmap_set split: option.splits)
qed

lemma buildAdjacencyMap_get:
  "jsmap_get (buildAdjacencyMap es) s =
   (let ts = map target (filter (\<lambda>e. source e = s) es) in if ts = [] then None else Some ts)"
  unfolding buildAdjacencyMap_def buildAdjacencyMap_fold_get
  by (simp add: jsmap_get_def Let_def)

lemma targets_of_pairs:
  "map target (filter (\<lambda>e. source e = s) es) =
   map snd (filter (\<lambda>p. fst p = s) (map (\<lambda>e. (source e, target e)) es))"
  by (induction es) simp_all

lemma mset_one: "mset xs = {#x#} \<Longrightarrow> xs = [x]"
  by (cases xs) auto

lemma mset_two: "mset xs = {#x, y#} \<Longrightarrow> xs = [x, y] \<or> xs = [y, x]"
proof -
  assume a: "mset xs = {#x, y#}"
  then have "length xs = 2" by (metis size_mset size_add_mset size_empty numeral_2_eq_2)
  then obtain p q where xs: "xs = [p, q]"
    by (cases xs; cases "tl xs") (auto simp add: numeral_2_eq_2)
  with a show ?thesis by (auto simp add: add_eq_conv_ex)
qed

text \<open>
  Claim C7. Let the groups of the flow be A, B and C, listed in any order among the other
  nodes, with A to the left of B, and let the edges be start\<rightarrow>A, start\<rightarrow>B and A\<rightarrow>C, listed in
  any order. Then \<open>calculateGroupOrder\<close> yields [A, B, C]: the traversal is breadth-first,
  the targets of the start node are taken by position, and B is visited before A's
  successor C.
\<close>

theorem calculateGroupOrder_breadth_first:
  assumes groups: "mset (groupNodesOf nodes) = {#gA, gB, gC#}"
    and ids: "distinct [node_id gA, node_id gB, node_id gC, ''start-node'']"
    and left: "pos_x (position gA) < pos_x (position gB)"
    and edges: "mset (map (\<lambda>e. (source e, target e)) es) =
                {#(''start-node'', node_id gA), (''start-node'', node_id gB), (node_id gA, node_id gC)#}"
  shows "map groupId (calculateGroupOrder nodes es) = [node_id gA, node_id gB, node_id gC]"
proof -
  define a b c where abc: "a = node_id gA" "b = node_id gB" "c = node_id gC"
  from ids have ne: "a \<noteq> b" "a \<noteq> c" "b \<noteq> c" "b \<noteq> a" "c \<noteq> a" "c \<noteq> b"
     "a \<noteq> ''start-node''" "b \<noteq> ''start-node''" "c \<noteq> ''start-node''"
     "''start-node'' \<noteq> a" "''start-node'' \<noteq> b" "''start-node'' \<noteq> c"
    by (auto simp add: abc)
  let ?gs = "groupNodesOf nodes"
  let ?ids = "jsset_of_list (map node_id ?gs)"
  let ?pos = "fold (\<lambda>n m. jsmap_set m (node_id n) (position n)) ?gs []"
  let ?adj = "buildAdjacencyMap es"
  have gs: "mset ?gs = mset [gA, gB, gC]" using groups by simp
  then have gset: "set ?gs = {gA, gB, gC}" by (metis mset_eq_setD list.simps(15) empty_set)
  have "mset (map node_id ?gs) = mset [a, b, c]"
    using gs by (metis abc list.simps(8,9) mset_map)
  then have dgs: "distinct (map node_id ?gs)" and idset: "set (map node_id ?gs) = {a, b, c}"
    using ne by (metis distinct.simps(2) distinct_singleton empty_set list.simps(15) mset_eq_imp_distinct_iff
        insert_iff empty_iff, metis mset_eq_setD list.simps(15) empty_set)
  have nonempty: "?gs \<noteq> []" using gset by auto
  have mem: "jsset_has ?ids a" "jsset_has ?ids b" "jsset_has ?ids c"
    and only: "\<And>i. jsset_has ?ids i \<longleftrightarrow> i \<in> {a, b, c}"
    using idset by (simp_all add: jsset_has_def jsset_of_list_perm(2))
  have pa: "jsmap_get ?pos a = Some (position gA)" and pb: "jsmap_get ?pos b = Some (position gB)"
    unfolding abc by (rule nodePositions_get [OF dgs]; simp add: gset)+
  have cmp: "comparePosition ?pos a b < 0" "comparePosition ?pos b a > 0"
    using left by (simp_all add: comparePosition_def pa pb Let_def)
  have s1: "sortByPosition ?pos [a, b] = [a, b]" "sortByPosition ?pos [b, a] = [a, b]"
    using cmp by (simp_all add: sortByPosition_def js_sort_def)
  have s2: "sortByPosition ?pos [c] = [c]" "sortByPosition ?pos [] = []"
    by (simp_all add: sortByPosition_def js_sort_def)
  have fromStart: "map target (filter (\<lambda>e. source e = ''start-node'') es) = [a, b] \<or>
                   map target (filter (\<lambda>e. source e = ''start-node'') es) = [b, a]"
  proof (rule mset_two)
    have "mset (map target (filter (\<lambda>e. source e = ''start-node'') es)) =
          image_mset snd (filter_mset (\<lambda>p. fst p = ''start-node'') (mset (map (\<lambda>e. (source e, target e)) es)))"
      unfolding targets_of_pairs by simp
    then show "mset (map target (filter (\<lambda>e. source e = ''start-node'') es)) = {#a, b#}"
      unfolding edges using ne by (simp add: abc)
  qed
  have fromA: "map target (filter (\<lambda>e. source e = a) es) = [c]"
  proof (rule mset_one)
    have "mset (map target (filter (\<lambda>e. source e = a) es)) =
          image_mset snd (filter_mset (\<lambda>p. fst p = a) (mset (map (\<lambda>e. (source e, target e)) es)))"
      unfolding targets_of_pairs by simp
    then show "mset (map target (filter (\<lambda>e. source e = a) es)) = {#c#}"
      unfolding edges using ne by (simp add: abc)
  qed
  have fromOther: "map target (filter (\<lambda>e. source e = i) es) = []" if "i = b \<or> i = c" for i
  proof -
    have "mset (map target (filter (\<lambda>e. source e = i) es)) =
          image_mset snd (filter_mset (\<lambda>p. fst p = i) (mset (map (\<lambda>e. (source e, target e)) es)))"
      unfolding targets_of_pairs by simp
    then have "mset (map target (filter (\<lambda>e. source e = i) es)) = {#}"
      unfolding edges using ne that by (auto simp add: abc)
    then show ?thesis by simp
  qed
  have adjS: "jsmap_get ?adj ''start-node'' = Some [a, b] \<or> jsmap_get ?adj ''start-node'' = Some [b, a]"
    using fromStart by (auto simp add: buildAdjacencyMap_get Let_def)
  have adjA: "jsmap_get ?adj a = Some [c]"
    by (simp add: buildAdjacencyMap_get fromA)
  have adjB: "jsmap_get ?adj b = None" and adjC: "jsmap_get ?adj c = None"
    by (simp_all add: buildAdjacencyMap_get fromOther)
  have sortedStart: "sortByPosition ?pos (case jsmap_get ?adj ''start-node'' of Some ts \<Rightarrow> ts | None \<Rightarrow> []) = [a, b]"
    using adjS s1 by auto
  have q0: "enqueueTargets ?ids [a, b] ([], []) = ([a, b], [a, b])"
    using mem ne by (simp add: jsset_has_def jsset_add_def)
  have qa: "enqueueTargets ?ids [c] ([b], [a, b]) = ([b, c], [a, b, c])"
    using mem ne by (simp add: jsset_has_def jsset_add_def)
  have p3: "processQueue ?adj ?ids ?pos [c] [a, b, c] [a, b] = ([a, b, c], [a, b, c])"
    by (subst processQueue.simps(2)) (simp add: adjC s2 Let_def)
  have p2: "processQueue ?adj ?ids ?pos [b, c] [a, b, c] [a] = ([a, b, c], [a, b, c])"
    by (subst processQueue.simps(2)) (simp add: adjB s2 Let_def p3 del: processQueue.simps)
  have p1: "processQueue ?adj ?ids ?pos [a, b] [a, b] [] = ([a, b, c], [a, b, c])"
    by (subst processQueue.simps(2)) (simp add: adjA s2 qa Let_def p2 del: processQueue.simps enqueueTargets.simps)
  have remaining: "filter (\<lambda>i. \<not> jsset_has [a, b, c] i) ?ids = []"
    using only by (auto simp add: filter_empty_conv jsset_has_def)
  have ts: "topologicalSortFromStart ''start-node'' ?ids es ?pos = [a, b, c]"
    unfolding topologicalSortFromStart_def Let_def sortedStart q0
    by (simp add: p1 remaining s2 del: processQueue.simps enqueueTargets.simps)
  have "(''start-node'', a) \<in># mset (map (\<lambda>e. (source e, target e)) es)"
    unfolding edges by (simp add: abc)
  then have "(''start-node'', a) \<in> set (map (\<lambda>e. (source e, target e)) es)"
    by (simp only: set_mset_mset)
  then have startEdges: "filter (\<lambda>e. source e = ''start-node'' \<and> jsset_has ?ids (target e)) es \<noteq> []"
    using mem(1) by (auto simp add: filter_empty_conv)
  have "map groupId (calculateGroupOrder nodes es) = [a, b, c]"
    unfolding calculateGroupOrder_def Let_def groupNodesOf_def [symmetric]
    by (simp only: nonempty startEdges ts order_ids if_False if_True simp_thms)
  then show ?thesis by (simp add: abc)
qed


theorem calculateGroupOrder_breadth_first_witness:
  "mset (groupNodesOf exampleBranchNodes) =
     {#exampleGroup ''A'' 0 0, exampleGroup ''B'' 100 0, exampleGroup ''C'' 0 200#} \<and>
   mset (map (\<lambda>e. (source e, target e)) exampleBranchEdges) =
     {#(''start-node'', ''A''), (''start-node'', ''B''), (''A'', ''C'')#} \<and>
   map node_id (groupNodesOf exampleBranchNodes) = [''C'', ''B'', ''A''] \<and>
   map groupId (calculateGroupOrder exampleBranchNodes exampleBranchEdges) = [''A'', ''B'', ''C'']"
proof -
  have g: "groupNodesOf exampleBranchNodes =
           [exampleGroup ''C'' 0 200, exampleGroup ''B'' 100 0, exampleGroup ''A'' 0 0]"
    by (simp add: groupNodesOf_def exampleBranchNodes_def exampleGroup_def exampleStart_def)
  have h1: "mset (groupNodesOf exampleBranchNodes) =
     {#exampleGroup ''A'' 0 0, exampleGroup ''B'' 100 0, exampleGroup ''C'' 0 200#}"
    unfolding g by (simp add: add_mset_commute)
  have h2: "distinct [node_id (exampleGroup ''A'' 0 0), node_id (exampleGroup ''B'' 100 0),
                      node_id (exampleGroup ''C'' 0 200), ''start-node'']"
    by (simp add: exampleGroup_def)
  have h3: "pos_x (position (exampleGroup ''A'' 0 0)) < pos_x (position (exampleGroup ''B'' 100 0))"
    by (simp add: exampleGroup_def)
  have h4: "mset (map (\<lambda>e. (source e, target e)) exampleBranchEdges) =
     {#(''start-node'', node_id (exampleGroup ''A'' 0 0)), (''start-node'', node_id (exampleGroup ''B'' 100 0)),
       (node_id (exampleGroup ''A'' 0 0), node_id (exampleGroup ''C'' 0 200))#}"
    by (simp add: exampleBranchEdges_def exampleEdge_def exampleGroup_def add_mset_commute)
  have ids: "map node_id (groupNodesOf exampleBranchNodes) = [''C'', ''B'', ''A'']"
    unfolding g by (simp add: exampleGroup_def)
  from calculateGroupOrder_breadth_first [OF h1 h2 h3 h4] h1 h4 ids
  show ?thesis by (simp add: exampleGroup_def)
qed

section \<open>What one pass of the normalizer establishes\<close>

lemma assigned_holds:
  assumes "distinct (map (\<lambda>e. bubble_id (fst e)) tr)" "i < length tr"
  shows "holdsColumn (withNewColumn (assignColumns 0 0 tr []) (fst (tr ! i)))
           (buildColumn (snd (tr ! i)) (rankAt (map snd tr) i))"
proof -
  let ?nx = "buildColumn (snd (tr ! i)) (rankAt (map snd tr) i)"
  let ?u = "assignColumns 0 0 tr []"
  have idx: "nextIndexes 0 0 (map snd tr) ! i = rankAt (map snd tr) i"
    using nextIndexes_nth [of i "map snd tr" 0 0] assms(2) by simp
  have get: "map_of ?u (bubble_id (fst (tr ! i))) =
        (if currentNormalized (fst (tr ! i)) \<noteq> Some ?nx then Some ?nx else None)"
    using assignColumns_get [OF assms, of 0 0 "[]"] by (simp add: idx)
  show ?thesis
  proof (cases "currentNormalized (fst (tr ! i)) = Some ?nx")
    case True
    with get have "withNewColumn ?u (fst (tr ! i)) = fst (tr ! i)"
      by (simp add: withNewColumn_absent)
    with True show ?thesis by (simp add: holdsColumn_def)
  next
    case False
    with get have "supabaseColumn (bubble_data (withNewColumn ?u (fst (tr ! i)))) = Some ?nx"
      by (simp add: withNewColumn_set buildColumn_nonempty)
    then show ?thesis by (simp add: holdsColumn_def)
  qed
qed

lemma reassign_noop:
  assumes "distinct (map (\<lambda>e. bubble_id (fst e)) tr)" "i < length tr"
  shows "withNewColumn (assignColumns 0 0 (map (\<lambda>e. (withNewColumn (assignColumns 0 0 tr []) (fst e), snd e)) tr) [])
            (withNewColumn (assignColumns 0 0 tr []) (fst (tr ! i))) =
         withNewColumn (assignColumns 0 0 tr []) (fst (tr ! i))"
proof -
  let ?u = "assignColumns 0 0 tr []"
  let ?tr' = "map (\<lambda>e. (withNewColumn ?u (fst e), snd e)) tr"
  let ?b' = "withNewColumn ?u (fst (tr ! i))"
  let ?nx = "buildColumn (snd (tr ! i)) (rankAt (map snd tr) i)"
  have kinds: "map snd ?tr' = map snd tr" by (simp add: comp_def)
  have ids: "map (\<lambda>e. bubble_id (fst e)) ?tr' = map (\<lambda>e. bubble_id (fst e)) tr"
    by (simp add: comp_def withNewColumn_id)
  have d': "distinct (map (\<lambda>e. bubble_id (fst e)) ?tr')" unfolding ids by (rule assms(1))
  have i': "i < length ?tr'" using assms(2) by simp
  have nth: "?tr' ! i = (?b', snd (tr ! i))" using assms(2) by simp
  have idx: "nextIndexes 0 0 (map snd tr) ! i = rankAt (map snd tr) i"
    using nextIndexes_nth [of i "map snd tr" 0 0] assms(2) by simp
  have get: "map_of (assignColumns 0 0 ?tr' []) (bubble_id ?b') =
        (if currentNormalized ?b' \<noteq> Some ?nx then Some ?nx else None)"
    using assignColumns_get [OF d' i', of 0 0 "[]"] unfolding kinds nth by (simp add: idx)
  have holds: "holdsColumn ?b' ?nx" by (rule assigned_holds [OF assms])
  show ?thesis
  proof (cases "currentNormalized ?b' = Some ?nx")
    case True
    with get show ?thesis by (simp add: withNewColumn_absent)
  next
    case False
    with holds have "supabaseColumn (bubble_data ?b') = Some ?nx" by (simp add: holdsColumn_def)
    moreover from False get have "map_of (assignColumns 0 0 ?tr' []) (bubble_id ?b') = Some ?nx" by simp
    ultimately show ?thesis by (rule withNewColumn_same [rotated])
  qed
qed

lemma updates_only_traversed:
  assumes "bubble_id b \<notin> (\<lambda>e. bubble_id (fst e)) ` set tr"
  shows "withNewColumn (assignColumns 0 0 tr []) b = b"
  using assignColumns_other [OF assms, of 0 0 "[]"] by (simp add: withNewColumn_absent)

lemma bubble_in_traversal:
  assumes d1: "distinct (map node_id nodes)"
    and d2: "distinct (map bubble_id (getAllBubblesFromFlowNodes nodes))"
    and b: "b \<in> set (getAllBubblesFromFlowNodes nodes)"
  shows "if isVisualOnlyBubble (bubble_type b)
         then bubble_id b \<notin> (\<lambda>e. bubble_id (fst e)) ` set (allBubblesInOrder nodes order)
         else (\<exists>i < length (allBubblesInOrder nodes order). fst (allBubblesInOrder nodes order ! i) = b)"
proof (cases "isVisualOnlyBubble (bubble_type b)")
  case True
  have "bubble_id b \<notin> (\<lambda>e. bubble_id (fst e)) ` set (allBubblesInOrder nodes order)"
  proof
    assume "bubble_id b \<in> (\<lambda>e. bubble_id (fst e)) ` set (allBubblesInOrder nodes order)"
    then obtain e where e: "e \<in> set (allBubblesInOrder nodes order)" "bubble_id (fst e) = bubble_id b"
      by auto
    from traversal_kind [OF d1 e(1)] have e': "\<not> isVisualOnlyBubble (bubble_type (fst e))"
      "fst e \<in> set (getAllBubblesFromFlowNodes nodes)" by simp_all
    from d2 have "inj_on bubble_id (set (getAllBubblesFromFlowNodes nodes))"
      by (simp add: distinct_map)
    with e(2) e'(2) b have "fst e = b" by (auto dest: inj_onD)
    with e'(1) True show False by simp
  qed
  with True show ?thesis by simp
next
  case False
  with b have "b \<in> set (map fst (groupEntries nodes))"
    by (simp add: groupEntries_bubbles)
  then have "b \<in> fst ` set (allBubblesInOrder nodes order)"
    using allBubblesInOrder_mset [OF d1, of order] by (metis mset_eq_setD set_map)
  then obtain e where "e \<in> set (allBubblesInOrder nodes order)" "fst e = b" by auto
  then obtain i where "i < length (allBubblesInOrder nodes order)" "fst (allBubblesInOrder nodes order ! i) = b"
    by (metis in_set_conv_nth)
  with False show ?thesis by auto
qed

lemma second_pass_fixes:
  assumes d1: "distinct (map node_id nodes)"
    and d2: "distinct (map bubble_id (getAllBubblesFromFlowNodes nodes))"
    and b: "b \<in> set (getAllBubblesFromFlowNodes nodes)"
  shows "withNewColumn
           (assignColumns 0 0
              (map (\<lambda>e. (withNewColumn (assignColumns 0 0 (allBubblesInOrder nodes order) []) (fst e), snd e))
                   (allBubblesInOrder nodes order)) [])
           (withNewColumn (assignColumns 0 0 (allBubblesInOrder nodes order) []) b) =
         withNewColumn (assignColumns 0 0 (allBubblesInOrder nodes order) []) b"
proof -
  let ?tr = "allBubblesInOrder nodes order"
  let ?u = "assignColumns 0 0 ?tr []"
  let ?tr' = "map (\<lambda>e. (withNewColumn ?u (fst e), snd e)) ?tr"
  have d: "distinct (map (\<lambda>e. bubble_id (fst e)) ?tr)"
    by (rule traversal_ids_distinct [OF d1 d2])
  show ?thesis
  proof (cases "isVisualOnlyBubble (bubble_type b)")
    case True
    with bubble_in_traversal [OF d1 d2 b, of order]
    have out: "bubble_id b \<notin> (\<lambda>e. bubble_id (fst e)) ` set ?tr" by simp
    then have 1: "withNewColumn ?u b = b" by (rule updates_only_traversed)
    have "map (\<lambda>e. bubble_id (fst e)) ?tr' = map (\<lambda>e. bubble_id (fst e)) ?tr"
      by (simp add: comp_def withNewColumn_id)
    then have "(\<lambda>e. bubble_id (fst e)) ` set ?tr' = (\<lambda>e. bubble_id (fst e)) ` set ?tr"
      by (simp only: set_map [symmetric])
    with out have "bubble_id b \<notin> (\<lambda>e. bubble_id (fst e)) ` set ?tr'" by simp
    then have "withNewColumn (assignColumns 0 0 ?tr' []) b = b" by (rule updates_only_traversed)
    with 1 show ?thesis by simp
  next
    case False
    with bubble_in_traversal [OF d1 d2 b, of order]
    obtain i where i: "i < length ?tr" "fst (?tr ! i) = b" by auto
    from reassign_noop [OF d i(1)] i(2) show ?thesis by simp
  qed
qed

lemma getAllBubbles_member:
  "b \<in> set (getAllBubblesFromFlowNodes nodes) \<longleftrightarrow>
   (\<exists>n \<in> set nodes. node_type n = GroupNode \<and> b \<in> set (bubblesOf n))"
proof -
  have "getAllBubblesFromFlowNodes nodes = concat (map bubblesOf (filter (\<lambda>n. node_type n = GroupNode) nodes))"
    by (induction nodes) (simp_all add: getAllBubblesFromFlowNodes_def bubblesOf_def)
  then show ?thesis by auto
qed

lemma applyColumnUpdates_twice:
  assumes "\<And>b. b \<in> set (getAllBubblesFromFlowNodes nodes) \<Longrightarrow>
             withNewColumn u2 (withNewColumn u b) = withNewColumn u b"
  shows "applyColumnUpdates u2 (applyColumnUpdates u nodes) = applyColumnUpdates u nodes"
proof -
  have "map (withNewColumn u2) (map (withNewColumn u) (bubblesOf n)) = map (withNewColumn u) (bubblesOf n)"
    if "n \<in> set nodes" "node_type n = GroupNode" for n
    using that assms by (auto simp add: getAllBubbles_member)
  then show ?thesis
    by (auto simp add: applyColumnUpdates_def bubblesOf_def)
qed

section \<open>Properties of the normalizer\<close>

lemma kinds_count:
  assumes "distinct (map node_id nodes)"
  shows "length (filter (\<lambda>k'. k' = k) (map snd (allBubblesInOrder nodes order))) = countKind k nodes"
proof -
  have "mset (map snd (allBubblesInOrder nodes order)) = mset (map snd (groupEntries nodes))"
    using allBubblesInOrder_mset [OF assms, of order] by (metis mset_map)
  then have "mset (filter (\<lambda>k'. k' = k) (map snd (allBubblesInOrder nodes order))) =
             mset (filter (\<lambda>k'. k' = k) (map snd (groupEntries nodes)))"
    by (simp only: mset_filter)
  then have "length (filter (\<lambda>k'. k' = k) (map snd (allBubblesInOrder nodes order))) =
             length (filter (\<lambda>k'. k' = k) (map snd (groupEntries nodes)))"
    by (metis size_mset)
  also have "map snd (groupEntries nodes) =
       map (\<lambda>b. getColumnKindForBubble (bubble_type b))
           (filter (\<lambda>b. \<not> isVisualOnlyBubble (bubble_type b)) (getAllBubblesFromFlowNodes nodes))"
    by (induction nodes)
       (simp_all add: groupEntries_def getAllBubblesFromFlowNodes_def collectBubbles_def comp_def bubblesOf_def)
  finally show ?thesis
    by (simp add: countKind_def filter_map comp_def conj_commute)
qed

lemma holdsColumn_slot:
  assumes "holdsColumn b (buildColumn k r)"
  shows "slotOf b = None \<or> slotOf b = Some (k, r)"
  using assms unfolding holdsColumn_def
proof
  assume "currentNormalized b = Some (buildColumn k r)"
  then show ?thesis by (simp add: currentNormalized_Some)
next
  assume "supabaseColumn (bubble_data b) = Some (buildColumn k r)"
  then show ?thesis by (simp add: slotOf_def parseColumn_buildColumn)
qed

lemma holdsColumn_slot_in_range:
  assumes "holdsColumn b (buildColumn k r)" "1 \<le> r" "r \<le> COLUMN_LIMIT"
  shows "slotOf b = Some (k, r)"
  using assms(1) unfolding holdsColumn_def
proof
  assume "currentNormalized b = Some (buildColumn k r)"
  then show ?thesis by (simp add: currentNormalized_Some)
next
  assume "supabaseColumn (bubble_data b) = Some (buildColumn k r)"
  with assms(2,3) show ?thesis by (simp add: slotOf_def parseColumn_buildColumn)
qed

lemma getAllBubbles_applyNormalizationToNodes:
  "getAllBubblesFromFlowNodes (applyNormalizationToNodes nodes edges) =
   map (withNewColumn (assignColumns 0 0 (allBubblesInOrder nodes (canonicalOrder nodes edges)) []))
       (getAllBubblesFromFlowNodes nodes)"
proof -
  have "getAllBubblesFromFlowNodes (applyColumnUpdates u nodes) = map (withNewColumn u) (getAllBubblesFromFlowNodes nodes)" for u
    by (induction nodes) (simp_all add: getAllBubblesFromFlowNodes_def applyColumnUpdates_def bubblesOf_def)
  moreover have "map (withNewColumn []) bs = bs" for bs
    by (induction bs) (simp_all add: withNewColumn_empty)
  ultimately show ?thesis
    using applyNormalizationToNodes_cases [of nodes edges]
    by auto
qed

text \<open>
  Claim C5, first half. For a flow whose node ids and step ids are unique, normalizing a
  second time changes nothing: \<open>applyNormalizationToNodes\<close> is idempotent. Second half, as the
  code has it: when the flow has at most \<open>COLUMN_LIMIT\<close> (50) steps of each slot kind, the
  update map computed on the normalized flow is empty (\<open>null\<close>).
\<close>

theorem applyNormalizationToNodes_idempotent:
  assumes d1: "distinct (map node_id nodes)"
    and d2: "distinct (map bubble_id (getAllBubblesFromFlowNodes nodes))"
  shows "applyNormalizationToNodes (applyNormalizationToNodes nodes edges) edges =
           applyNormalizationToNodes nodes edges
       \<and> (countKind ColM nodes \<le> COLUMN_LIMIT \<and> countKind ColT nodes \<le> COLUMN_LIMIT \<longrightarrow>
            normalizeColumnsWithGroupOrder (applyNormalizationToNodes nodes edges)
              (canonicalOrder (applyNormalizationToNodes nodes edges) edges) = None)"
proof
  let ?order = "canonicalOrder nodes edges"
  let ?tr = "allBubblesInOrder nodes ?order"
  let ?u = "assignColumns 0 0 ?tr []"
  let ?tr' = "map (\<lambda>e. (withNewColumn ?u (fst e), snd e)) ?tr"
  let ?nodes' = "applyNormalizationToNodes nodes edges"
  have order': "canonicalOrder ?nodes' edges = ?order"
    by (rule canonicalOrder_applyNormalizationToNodes)
  have tr': "allBubblesInOrder ?nodes' ?order = ?tr'"
    by (rule allBubblesInOrder_applyNormalizationToNodes [OF d1])
  have d: "distinct (map (\<lambda>e. bubble_id (fst e)) ?tr)"
    by (rule traversal_ids_distinct [OF d1 d2])
  show "applyNormalizationToNodes ?nodes' edges = ?nodes'"
    using applyNormalizationToNodes_cases [of nodes edges]
  proof
    assume "?nodes' = nodes \<and> ?u = []"
    then show ?thesis by simp
  next
    assume b: "?nodes' = applyColumnUpdates ?u nodes \<and> ?u \<noteq> []"
    have fixed: "applyColumnUpdates (assignColumns 0 0 ?tr' []) (applyColumnUpdates ?u nodes) = applyColumnUpdates ?u nodes"
      by (rule applyColumnUpdates_twice) (rule second_pass_fixes [OF d1 d2])
    from applyNormalizationToNodes_cases [of ?nodes' edges]
    show ?thesis
      unfolding order' tr' using b fixed by auto
  qed
  show "countKind ColM nodes \<le> COLUMN_LIMIT \<and> countKind ColT nodes \<le> COLUMN_LIMIT \<longrightarrow>
        normalizeColumnsWithGroupOrder ?nodes' (canonicalOrder ?nodes' edges) = None"
  proof
    assume limit: "countKind ColM nodes \<le> COLUMN_LIMIT \<and> countKind ColT nodes \<le> COLUMN_LIMIT"
    have "currentNormalized (fst (?tr' ! i)) = Some (buildColumn (snd (?tr' ! i)) (nextIndexes 0 0 (map snd ?tr') ! i))"
      if i: "i < length ?tr" for i
    proof -
      let ?k = "snd (?tr ! i)" and ?r = "rankAt (map snd ?tr) i"
      have kinds: "map snd ?tr' = map snd ?tr" by (simp add: comp_def)
      have idx: "nextIndexes 0 0 (map snd ?tr) ! i = ?r"
        using nextIndexes_nth [of i "map snd ?tr" 0 0] i by simp
      have "?r \<le> length (filter (\<lambda>k'. k' = ?k) (map snd ?tr))"
        using rankAt_le_count [of i "map snd ?tr"] i by simp
      also have "\<dots> = countKind ?k nodes" by (rule kinds_count [OF d1])
      also have "\<dots> \<le> COLUMN_LIMIT" using limit by (cases ?k) simp_all
      finally have hi: "?r \<le> COLUMN_LIMIT" .
      have lo: "1 \<le> ?r" using rankAt_pos [of i "map snd ?tr"] i by simp
      have "holdsColumn (withNewColumn ?u (fst (?tr ! i))) (buildColumn ?k ?r)"
        by (rule assigned_holds [OF d i])
      from holdsColumn_slot_in_range [OF this lo hi]
      have "currentNormalized (withNewColumn ?u (fst (?tr ! i))) = Some (buildColumn ?k ?r)"
        by (simp add: currentNormalized_Some)
      with i show ?thesis unfolding kinds by (simp add: idx)
    qed
    then have "list_all2 (\<lambda>e n. currentNormalized (fst e) = Some (buildColumn (snd e) n))
                 ?tr' (nextIndexes 0 0 (map snd ?tr'))"
      by (simp add: list_all2_conv_all_nth nextIndexes_length)
    then have "assignColumns 0 0 ?tr' [] = []"
      by (simp add: assignColumns_empty)
    then show "normalizeColumnsWithGroupOrder ?nodes' (canonicalOrder ?nodes' edges) = None"
      unfolding order' by (simp add: normalizeColumnsWithGroupOrder_def tr')
  qed
qed

lemma applyNormalizationToNodes_node_ids:
  "map node_id (applyNormalizationToNodes nodes edges) = map node_id nodes"
  using applyNormalizationToNodes_cases [of nodes edges]
  by (auto simp add: applyColumnUpdates_def)

text \<open>
  One pass of \<open>applyNormalizationToNodes\<close>, read along the traversal of the normalizer: the
  step at each position holds the column made of its slot kind and its 1-based rank among the
  steps of that kind, and no two visited steps carry the same slot.
\<close>

lemma normalized_traversal:
  assumes d1: "distinct (map node_id nodes)"
    and d2: "distinct (map bubble_id (getAllBubblesFromFlowNodes nodes))"
  shows "let nodes' = applyNormalizationToNodes nodes edges;
             tr = allBubblesInOrder nodes' (canonicalOrder nodes' edges);
             kinds = map snd tr
         in mset (map fst tr) =
              mset (filter (\<lambda>b. \<not> isVisualOnlyBubble (bubble_type b)) (getAllBubblesFromFlowNodes nodes'))
          \<and> (\<forall>i<length tr. kinds ! i = getColumnKindForBubble (bubble_type (fst (tr ! i))))
          \<and> (\<forall>i<length tr. holdsColumn (fst (tr ! i)) (buildColumn (kinds ! i) (rankAt kinds i)))
          \<and> (\<forall>i<length tr. \<forall>j<length tr. i \<noteq> j \<longrightarrow> slotOf (fst (tr ! i)) \<noteq> None \<longrightarrow>
                slotOf (fst (tr ! i)) \<noteq> slotOf (fst (tr ! j)))
          \<and> (countKind ColM nodes \<le> COLUMN_LIMIT \<and> countKind ColT nodes \<le> COLUMN_LIMIT \<longrightarrow>
                (\<forall>i<length tr. slotOf (fst (tr ! i)) = Some (kinds ! i, rankAt kinds i)))"
proof -
  let ?order = "canonicalOrder nodes edges"
  let ?tr = "allBubblesInOrder nodes ?order"
  let ?u = "assignColumns 0 0 ?tr []"
  let ?tr' = "map (\<lambda>e. (withNewColumn ?u (fst e), snd e)) ?tr"
  let ?nodes' = "applyNormalizationToNodes nodes edges"
  let ?ks = "map snd ?tr'"
  have order': "canonicalOrder ?nodes' edges = ?order"
    by (rule canonicalOrder_applyNormalizationToNodes)
  have tr': "allBubblesInOrder ?nodes' ?order = ?tr'"
    by (rule allBubblesInOrder_applyNormalizationToNodes [OF d1])
  have d: "distinct (map (\<lambda>e. bubble_id (fst e)) ?tr)"
    by (rule traversal_ids_distinct [OF d1 d2])
  have d1': "distinct (map node_id ?nodes')"
    unfolding applyNormalizationToNodes_node_ids by (rule d1)
  have kinds: "?ks = map snd ?tr" by (simp add: comp_def)
  have len: "length ?tr' = length ?tr" by simp
  have cover: "mset (map fst ?tr') =
        mset (filter (\<lambda>b. \<not> isVisualOnlyBubble (bubble_type b)) (getAllBubblesFromFlowNodes ?nodes'))"
  proof -
    have "mset (map fst (allBubblesInOrder ?nodes' ?order)) = mset (map fst (groupEntries ?nodes'))"
      using allBubblesInOrder_mset [OF d1', of ?order] by (metis mset_map)
    then show ?thesis by (simp only: tr' groupEntries_bubbles)
  qed
  have kind: "?ks ! i = getColumnKindForBubble (bubble_type (fst (?tr' ! i)))" if "i < length ?tr'" for i
  proof -
    from that have "?tr' ! i \<in> set (allBubblesInOrder ?nodes' ?order)"
      unfolding tr' by (rule nth_mem)
    from traversal_kind [OF d1' this] that show ?thesis by simp
  qed
  have holds: "holdsColumn (fst (?tr' ! i)) (buildColumn (?ks ! i) (rankAt ?ks i))" if "i < length ?tr'" for i
  proof -
    from that have i: "i < length ?tr" by simp
    from assigned_holds [OF d i] i show ?thesis unfolding kinds by simp
  qed
  have uniq: "slotOf (fst (?tr' ! i)) \<noteq> slotOf (fst (?tr' ! j))"
    if ij: "i < length ?tr'" "j < length ?tr'" "i \<noteq> j" and some: "slotOf (fst (?tr' ! i)) \<noteq> None" for i j
  proof
    assume eq: "slotOf (fst (?tr' ! i)) = slotOf (fst (?tr' ! j))"
    from holdsColumn_slot [OF holds [OF ij(1)]] some
    have si: "slotOf (fst (?tr' ! i)) = Some (?ks ! i, rankAt ?ks i)" by blast
    from holdsColumn_slot [OF holds [OF ij(2)]] si eq
    have sj: "slotOf (fst (?tr' ! j)) = Some (?ks ! j, rankAt ?ks j)" by auto
    from si sj eq have same: "?ks ! i = ?ks ! j" "rankAt ?ks i = rankAt ?ks j" by simp_all
    from ij have li: "i < length ?ks" and lj: "j < length ?ks" by simp_all
    show False
    proof (cases "i < j")
      case True
      from rankAt_mono [OF True lj same(1)] same(2) show False by simp
    next
      case False
      with ij(3) have "j < i" by simp
      from rankAt_mono [OF this li same(1) [symmetric]] same(2) show False by simp
    qed
  qed
  have exact: "slotOf (fst (?tr' ! i)) = Some (?ks ! i, rankAt ?ks i)"
    if limit: "countKind ColM nodes \<le> COLUMN_LIMIT \<and> countKind ColT nodes \<le> COLUMN_LIMIT"
      and i: "i < length ?tr'" for i
  proof -
    from i have li: "i < length ?ks" by simp
    have "rankAt ?ks i \<le> length (filter (\<lambda>k'. k' = ?ks ! i) ?ks)"
      by (rule rankAt_le_count [OF li])
    also have "\<dots> = countKind (?ks ! i) nodes"
      unfolding kinds by (rule kinds_count [OF d1])
    also have "\<dots> \<le> COLUMN_LIMIT" using limit by (cases "?ks ! i") simp_all
    finally have hi: "rankAt ?ks i \<le> COLUMN_LIMIT" .
    have lo: "1 \<le> rankAt ?ks i" by (rule rankAt_pos [OF li])
    from holdsColumn_slot_in_range [OF holds [OF i] lo hi] show ?thesis .
  qed
  show ?thesis
    unfolding Let_def order' tr'
    using cover kind holds uniq exact by blast
qed

lemma map_of_jsmap_delete: "map_of (jsmap_delete m k) k' = (if k' = k then None else map_of m k')"
  by (induction m) (auto simp add: jsmap_delete_def)

lemma processGroupOrder_listed:
  assumes "distinct order" "distinct (map fst m)"
    and "\<And>gid. gid \<in> set order \<Longrightarrow> \<exists>n. map_of m gid = Some n \<and> node_type n = GroupNode"
  shows "processGroupOrder order m acc =
         (filter (\<lambda>kv. fst kv \<notin> set order) m,
          acc @ concat (map (\<lambda>gid. collectBubbles (the (map_of m gid))) order))"
  using assms
proof (induction order arbitrary: m acc)
  case Nil
  then show ?case by simp
next
  case (Cons gid rest)
  from Cons.prems(3) [of gid] obtain n where n: "map_of m gid = Some n" "node_type n = GroupNode"
    by auto
  let ?m = "jsmap_delete m gid"
  have same: "map_of ?m g = map_of m g" if "g \<in> set rest" for g
    using that Cons.prems(1) by (auto simp add: map_of_jsmap_delete)
  have 1: "distinct rest" using Cons.prems(1) by simp
  have 2: "distinct (map fst ?m)" by (rule jsmap_delete_distinct [OF Cons.prems(2)])
  have 3: "\<exists>n. map_of ?m g = Some n \<and> node_type n = GroupNode" if "g \<in> set rest" for g
    using Cons.prems(3) [of g] that same [OF that] by simp
  have cong: "map (\<lambda>g. collectBubbles (the (map_of ?m g))) rest =
              map (\<lambda>g. collectBubbles (the (map_of m g))) rest"
    by (rule map_cong [OF refl]) (simp add: same)
  have flt: "filter (\<lambda>kv. fst kv \<notin> set rest) ?m = filter (\<lambda>kv. fst kv \<notin> set (gid # rest)) m"
    by (induction m) (auto simp add: jsmap_delete_def)
  show ?case
    using Cons.IH [OF 1 2 3, of "acc @ collectBubbles n"] n
    by (simp add: jsmap_get_def cong flt)
qed

lemma filter_unique:
  "distinct (map f xs) \<Longrightarrow> x \<in> set xs \<Longrightarrow> filter (\<lambda>y. f y = f x) xs = [x]"
proof (induction xs)
  case Nil
  then show ?case by simp
next
  case (Cons y ys)
  show ?case
  proof (cases "x \<in> set ys")
    case True
    with Cons show ?thesis by (auto simp add: image_iff)
  next
    case False
    with Cons.prems have xy: "x = y" by simp
    have "filter (\<lambda>z. f z = f y) ys = []"
      using Cons.prems(1) by (auto simp add: filter_empty_conv image_iff)
    with xy show ?thesis by simp
  qed
qed

lemma groupNodesOf_ids: "distinct (map node_id nodes) \<Longrightarrow> distinct (map node_id (groupNodesOf nodes))"
  by (simp add: groupNodesOf_def distinct_map_filter)

lemma traversal_in_order:
  assumes d: "distinct (map node_id nodes)" and o: "distinct order"
    and s: "set order = node_id ` set (groupNodesOf nodes)"
  shows "allBubblesInOrder nodes order =
         map (\<lambda>b. (b, getColumnKindForBubble (bubble_type b))) (stepsInOrder nodes order)"
proof -
  let ?m = "map (\<lambda>n. (node_id n, n)) nodes"
  have nm: "fold (\<lambda>node m. jsmap_set m (node_id node) node) nodes [] = ?m"
    using nodeMap_distinct [of "[]" nodes] d by simp
  have dm: "distinct (map fst ?m)" using d by (simp add: comp_def)
  have dg: "distinct (map node_id (groupNodesOf nodes))" by (rule groupNodesOf_ids [OF d])
  have look: "\<exists>n. map_of ?m gid = Some n \<and> node_type n = GroupNode \<and>
                  filter (\<lambda>n. node_id n = gid) (groupNodesOf nodes) = [n]"
    if "gid \<in> set order" for gid
  proof -
    from that s obtain n where n: "n \<in> set (groupNodesOf nodes)" "node_id n = gid" by auto
    then have n': "n \<in> set nodes" "node_type n = GroupNode" by (simp_all add: groupNodesOf_def)
    have "(node_id n, n) \<in> set ?m" using n'(1) by auto
    with dm have "map_of ?m (node_id n) = Some n" by (rule map_of_is_SomeI)
    moreover have "filter (\<lambda>y. node_id y = node_id n) (groupNodesOf nodes) = [n]"
      by (rule filter_unique [OF dg n(1)])
    ultimately show ?thesis using n(2) n'(2) by auto
  qed
  have first: "processGroupOrder order ?m [] =
       (filter (\<lambda>kv. fst kv \<notin> set order) ?m,
        [] @ concat (map (\<lambda>gid. collectBubbles (the (map_of ?m gid))) order))"
    by (rule processGroupOrder_listed [OF o dm]) (use look in blast)
  have rest: "processRemaining (filter (\<lambda>kv. fst kv \<notin> set order) ?m) = []"
  proof -
    have "node_type n \<noteq> GroupNode" if "n \<in> set nodes" "node_id n \<notin> set order" for n
      using that s by (auto simp add: groupNodesOf_def)
    then show ?thesis
      by (auto simp add: processRemaining_def)
  qed
  have each: "collectBubbles (the (map_of ?m gid)) =
              map (\<lambda>b. (b, getColumnKindForBubble (bubble_type b)))
                  (concat (map stepsOf (filter (\<lambda>n. node_id n = gid) (groupNodesOf nodes))))"
    if "gid \<in> set order" for gid
    using look [OF that] by (auto simp add: collectBubbles_def stepsOf_def)
  have "concat (map (\<lambda>gid. collectBubbles (the (map_of ?m gid))) order) =
        concat (map (\<lambda>gid. map (\<lambda>b. (b, getColumnKindForBubble (bubble_type b)))
                  (concat (map stepsOf (filter (\<lambda>n. node_id n = gid) (groupNodesOf nodes))))) order)"
    by (rule arg_cong [where f = concat], rule map_cong [OF refl]) (rule each)
  also have "\<dots> = map (\<lambda>b. (b, getColumnKindForBubble (bubble_type b))) (stepsInOrder nodes order)"
    by (simp add: stepsInOrder_def map_concat comp_def)
  finally show ?thesis
    by (simp add: allBubblesInOrder_def nm first rest Let_def)
qed

text \<open>
  Claim C4. Take a flow whose node ids and step ids are unique and normalize it
  (\<open>applyNormalizationToNodes\<close>). The canonical group order lists every group of the flow
  exactly once. Read the non-annotation steps group by group in that order and, within a
  group, in the order of its step list: these are all the non-annotation steps of the flow;
  the step at each position holds the column made of its slot kind and its 1-based rank among
  the steps of that kind up to that position (so the indexes of a kind run 1, 2, .., n without
  gaps in traversal order); no two of the steps carry the same (kind, index) slot; and when
  no kind has more than \<open>COLUMN_LIMIT\<close> steps, every step's slot is exactly (kind, rank).
\<close>

theorem normalized_slots_unique_and_gapless:
  assumes d1: "distinct (map node_id nodes)"
    and d2: "distinct (map bubble_id (getAllBubblesFromFlowNodes nodes))"
  shows "let nodes' = applyNormalizationToNodes nodes edges;
             order = canonicalOrder nodes' edges;
             steps = stepsInOrder nodes' order;
             kinds = map (\<lambda>b. getColumnKindForBubble (bubble_type b)) steps
         in distinct order \<and> set order = node_id ` set (groupNodesOf nodes')
          \<and> mset steps =
              mset (filter (\<lambda>b. \<not> isVisualOnlyBubble (bubble_type b)) (getAllBubblesFromFlowNodes nodes'))
          \<and> (\<forall>i<length steps. holdsColumn (steps ! i) (buildColumn (kinds ! i) (rankAt kinds i)))
          \<and> (\<forall>i<length steps. \<forall>j<length steps. i \<noteq> j \<longrightarrow> slotOf (steps ! i) \<noteq> None \<longrightarrow>
                slotOf (steps ! i) \<noteq> slotOf (steps ! j))
          \<and> (countKind ColM nodes \<le> COLUMN_LIMIT \<and> countKind ColT nodes \<le> COLUMN_LIMIT \<longrightarrow>
                (\<forall>i<length steps. slotOf (steps ! i) = Some (kinds ! i, rankAt kinds i)))"
proof -
  let ?nodes' = "applyNormalizationToNodes nodes edges"
  let ?order = "canonicalOrder ?nodes' edges"
  let ?steps = "stepsInOrder ?nodes' ?order"
  let ?kind = "\<lambda>b. getColumnKindForBubble (bubble_type b)"
  let ?tr = "allBubblesInOrder ?nodes' ?order"
  have d1': "distinct (map node_id ?nodes')"
    unfolding applyNormalizationToNodes_node_ids by (rule d1)
  have perm: "distinct ?order" "set ?order = node_id ` set (groupNodesOf ?nodes')"
    using canonicalOrder_perm [of ?nodes' edges] by simp_all
  have tr: "?tr = map (\<lambda>b. (b, ?kind b)) ?steps"
    by (rule traversal_in_order [OF d1' perm])
  have fst_tr: "map fst ?tr = ?steps" and snd_tr: "map snd ?tr = map ?kind ?steps"
    and len: "length ?tr = length ?steps"
    unfolding tr by (simp_all add: comp_def)
  have nth: "fst (?tr ! i) = ?steps ! i" if "i < length ?steps" for i
    unfolding tr using that by simp
  note old = normalized_traversal [OF d1 d2, of edges, unfolded Let_def snd_tr len fst_tr]
  from old have cover: "mset ?steps =
        mset (filter (\<lambda>b. \<not> isVisualOnlyBubble (bubble_type b)) (getAllBubblesFromFlowNodes ?nodes'))"
    by blast
  from old have holds: "\<forall>i<length ?steps. holdsColumn (fst (?tr ! i))
        (buildColumn (map ?kind ?steps ! i) (rankAt (map ?kind ?steps) i))"
    by blast
  from old have uniq: "\<forall>i<length ?steps. \<forall>j<length ?steps. i \<noteq> j \<longrightarrow> slotOf (fst (?tr ! i)) \<noteq> None \<longrightarrow>
        slotOf (fst (?tr ! i)) \<noteq> slotOf (fst (?tr ! j))"
    by blast
  from old have exact: "countKind ColM nodes \<le> COLUMN_LIMIT \<and> countKind ColT nodes \<le> COLUMN_LIMIT \<longrightarrow>
        (\<forall>i<length ?steps. slotOf (fst (?tr ! i)) = Some (map ?kind ?steps ! i, rankAt (map ?kind ?steps) i))"
    by blast
  show ?thesis
    unfolding Let_def using perm cover holds uniq exact by (simp add: nth)
qed


theorem normalized_slots_unique_and_gapless_witness:
  "distinct (map node_id exampleReversedFlow) \<and>
   distinct (map bubble_id (getAllBubblesFromFlowNodes exampleReversedFlow)) \<and>
   countKind ColM exampleReversedFlow \<le> COLUMN_LIMIT \<and> countKind ColT exampleReversedFlow \<le> COLUMN_LIMIT \<and>
   map node_id (groupNodesOf exampleReversedFlow) = [''g2'', ''g1''] \<and>
   canonicalOrder (applyNormalizationToNodes exampleReversedFlow exampleEdges) exampleEdges = [''g1'', ''g2''] \<and>
   map (\<lambda>b. (bubble_id b, slotOf b))
     (stepsInOrder (applyNormalizationToNodes exampleReversedFlow exampleEdges) [''g1'', ''g2'']) =
     [(''b1'', Some (ColM, 1)), (''b2'', Some (ColT, 1)), (''b4'', Some (ColM, 2)), (''b5'', Some (ColT, 2))] \<and>
   slotOf (stepsInOrder (applyNormalizationToNodes exampleReversedFlow exampleEdges) [''g1'', ''g2''] ! 3) =
     Some (ColT, 2)"
proof -
  let ?nodes' = "applyNormalizationToNodes exampleReversedFlow exampleEdges"
  have h1: "distinct (map node_id exampleReversedFlow)" by code_simp
  have h2: "distinct (map bubble_id (getAllBubblesFromFlowNodes exampleReversedFlow))" by code_simp
  have h3: "countKind ColM exampleReversedFlow \<le> COLUMN_LIMIT \<and> countKind ColT exampleReversedFlow \<le> COLUMN_LIMIT"
    by code_simp
  have g: "map node_id (groupNodesOf exampleReversedFlow) = [''g2'', ''g1'']" by code_simp
  have o: "canonicalOrder ?nodes' exampleEdges = [''g1'', ''g2'']" by code_simp
  have s: "map (\<lambda>b. (bubble_id b, slotOf b)) (stepsInOrder ?nodes' [''g1'', ''g2'']) =
     [(''b1'', Some (ColM, 1)), (''b2'', Some (ColT, 1)), (''b4'', Some (ColM, 2)), (''b5'', Some (ColT, 2))]"
    by code_simp
  have l: "3 < length (stepsInOrder ?nodes' [''g1'', ''g2''])" by code_simp
  have k: "map (\<lambda>b. getColumnKindForBubble (bubble_type b)) (stepsInOrder ?nodes' [''g1'', ''g2'']) ! 3 = ColT"
    "rankAt (map (\<lambda>b. getColumnKindForBubble (bubble_type b)) (stepsInOrder ?nodes' [''g1'', ''g2''])) 3 = 2"
    by code_simp+
  from normalized_slots_unique_and_gapless [OF h1 h2, of exampleEdges, unfolded Let_def o] h3 l
  have "slotOf (stepsInOrder ?nodes' [''g1'', ''g2''] ! 3) =
        Some (map (\<lambda>b. getColumnKindForBubble (bubble_type b)) (stepsInOrder ?nodes' [''g1'', ''g2'']) ! 3,
              rankAt (map (\<lambda>b. getColumnKindForBubble (bubble_type b)) (stepsInOrder ?nodes' [''g1'', ''g2''])) 3)"
    by blast
  then have "slotOf (stepsInOrder ?nodes' [''g1'', ''g2''] ! 3) = Some (ColT, 2)"
    by (simp only: k)
  with h1 h2 h3 g o s show ?thesis by blast
qed

theorem applyNormalizationToNodes_idempotent_witness:
  "distinct (map node_id exampleFlow) \<and>
   distinct (map bubble_id (getAllBubblesFromFlowNodes exampleFlow)) \<and>
   countKind ColM exampleFlow \<le> COLUMN_LIMIT \<and> countKind ColT exampleFlow \<le> COLUMN_LIMIT \<and>
   applyNormalizationToNodes (applyNormalizationToNodes exampleFlow exampleEdges) exampleEdges =
     applyNormalizationToNodes exampleFlow exampleEdges \<and>
   normalizeColumnsWithGroupOrder (applyNormalizationToNodes exampleFlow exampleEdges)
     (canonicalOrder (applyNormalizationToNodes exampleFlow exampleEdges) exampleEdges) = None"
proof -
  have h1: "distinct (map node_id exampleFlow)" by code_simp
  have h2: "distinct (map bubble_id (getAllBubblesFromFlowNodes exampleFlow))" by code_simp
  have h3: "countKind ColM exampleFlow \<le> COLUMN_LIMIT \<and> countKind ColT exampleFlow \<le> COLUMN_LIMIT"
    by code_simp
  from applyNormalizationToNodes_idempotent [OF h1 h2, of exampleEdges] h3
  show ?thesis using h1 h2 by blast
qed

text \<open>
  Claim C5, second half as the spec states it, fails: a flow with 51 message steps (unique
  ids) is normalized to M1..M51, and the normalizer run on the result still returns an update
  map that is not empty, because \<open>parseColumn\<close> rejects M51.
\<close>

theorem normalized_flow_update_map_counterexample:
  "distinct (map node_id exampleLongFlow) \<and>
   distinct (map bubble_id (getAllBubblesFromFlowNodes exampleLongFlow)) \<and>
   normalizeColumnsWithGroupOrder (applyNormalizationToNodes exampleLongFlow [])
     (canonicalOrder (applyNormalizationToNodes exampleLongFlow []) []) \<noteq> None"
  by code_simp

section \<open>Frame of the normalization\<close>

lemma applyColumnUpdates_frame:
  "map node_id (applyColumnUpdates u nodes) = map node_id nodes \<and>
   map node_type (applyColumnUpdates u nodes) = map node_type nodes \<and>
   map position (applyColumnUpdates u nodes) = map position nodes \<and>
   map width (applyColumnUpdates u nodes) = map width nodes \<and>
   map height (applyColumnUpdates u nodes) = map height nodes \<and>
   map (\<lambda>n. node_label (node_data n)) (applyColumnUpdates u nodes) = map (\<lambda>n. node_label (node_data n)) nodes \<and>
   map (\<lambda>n. node_note (node_data n)) (applyColumnUpdates u nodes) = map (\<lambda>n. node_note (node_data n)) nodes \<and>
   (\<forall>i<length nodes. node_type (nodes ! i) \<noteq> GroupNode \<longrightarrow> applyColumnUpdates u nodes ! i = nodes ! i) \<and>
   map (\<lambda>n. map withoutColumn (bubblesOf n)) (applyColumnUpdates u nodes) =
     map (\<lambda>n. map withoutColumn (bubblesOf n)) nodes"
  by (simp add: applyColumnUpdates_def bubblesOf_def comp_def withNewColumn_frame)

lemma note_bubbles_kept:
  assumes d1: "distinct (map node_id nodes)"
    and d2: "distinct (map bubble_id (getAllBubblesFromFlowNodes nodes))"
  shows "map (\<lambda>n. filter (\<lambda>b. isVisualOnlyBubble (bubble_type b)) (bubblesOf n))
             (applyColumnUpdates (assignColumns 0 0 (allBubblesInOrder nodes order) []) nodes) =
         map (\<lambda>n. filter (\<lambda>b. isVisualOnlyBubble (bubble_type b)) (bubblesOf n)) nodes"
proof -
  let ?u = "assignColumns 0 0 (allBubblesInOrder nodes order) []"
  have "filter (\<lambda>b. isVisualOnlyBubble (bubble_type b)) (map (withNewColumn ?u) (bubblesOf n)) =
        filter (\<lambda>b. isVisualOnlyBubble (bubble_type b)) (bubblesOf n)"
    if n: "n \<in> set nodes" "node_type n = GroupNode" for n
  proof -
    have keep: "withNewColumn ?u b = b" if b: "b \<in> set (bubblesOf n)" "isVisualOnlyBubble (bubble_type b)" for b
    proof -
      from n b(1) have "b \<in> set (getAllBubblesFromFlowNodes nodes)"
        by (auto simp add: getAllBubbles_member)
      from bubble_in_traversal [OF d1 d2 this, of order] b(2)
      show ?thesis by (simp add: updates_only_traversed)
    qed
    have "map (withNewColumn ?u) (filter (\<lambda>b. isVisualOnlyBubble (bubble_type b)) (bubblesOf n)) =
               filter (\<lambda>b. isVisualOnlyBubble (bubble_type b)) (bubblesOf n)"
      by (rule map_idI) (simp add: keep)
    then show ?thesis
      by (simp add: filter_map comp_def withNewColumn_type)
  qed
  then show ?thesis
    by (simp add: applyColumnUpdates_def bubblesOf_def)
qed

text \<open>
  Claim C10. \<open>applyNormalizationToNodes\<close> returns the nodes with the same ids, types,
  positions, sizes, titles and note data, in the same order; every node that is not a group
  (the start node, annotation nodes) is returned as it is; every group keeps its steps in the
  same order, each with the same id, kind and payload apart from \<open>supabaseColumn\<close>; and, when
  node ids and step ids are unique, the note bubbles inside groups are unchanged as well. The
  edges are an argument only: the function returns nodes and nothing else.
\<close>

theorem applyNormalizationToNodes_frame:
  "map node_id (applyNormalizationToNodes nodes edges) = map node_id nodes \<and>
   map node_type (applyNormalizationToNodes nodes edges) = map node_type nodes \<and>
   map position (applyNormalizationToNodes nodes edges) = map position nodes \<and>
   map width (applyNormalizationToNodes nodes edges) = map width nodes \<and>
   map height (applyNormalizationToNodes nodes edges) = map height nodes \<and>
   map (\<lambda>n. node_label (node_data n)) (applyNormalizationToNodes nodes edges) =
     map (\<lambda>n. node_label (node_data n)) nodes \<and>
   map (\<lambda>n. node_note (node_data n)) (applyNormalizationToNodes nodes edges) =
     map (\<lambda>n. node_note (node_data n)) nodes \<and>
   (\<forall>i<length nodes. node_type (nodes ! i) \<noteq> GroupNode \<longrightarrow>
      applyNormalizationToNodes nodes edges ! i = nodes ! i) \<and>
   map (\<lambda>n. map withoutColumn (bubblesOf n)) (applyNormalizationToNodes nodes edges) =
     map (\<lambda>n. map withoutColumn (bubblesOf n)) nodes \<and>
   (distinct (map node_id nodes) \<and> distinct (map bubble_id (getAllBubblesFromFlowNodes nodes)) \<longrightarrow>
      map (\<lambda>n. filter (\<lambda>b. isVisualOnlyBubble (bubble_type b)) (bubblesOf n))
          (applyNormalizationToNodes nodes edges) =
      map (\<lambda>n. filter (\<lambda>b. isVisualOnlyBubble (bubble_type b)) (bubblesOf n)) nodes)"
  using applyNormalizationToNodes_cases [of nodes edges]
proof
  assume "applyNormalizationToNodes nodes edges = nodes \<and>
    assignColumns 0 0 (allBubblesInOrder nodes (canonicalOrder nodes edges)) [] = []"
  then show ?thesis by simp
next
  assume "applyNormalizationToNodes nodes edges =
      applyColumnUpdates (assignColumns 0 0 (allBubblesInOrder nodes (canonicalOrder nodes edges)) []) nodes \<and>
    assignColumns 0 0 (allBubblesInOrder nodes (canonicalOrder nodes edges)) [] \<noteq> []"
  then have eq: "applyNormalizationToNodes nodes edges =
      applyColumnUpdates (assignColumns 0 0 (allBubblesInOrder nodes (canonicalOrder nodes edges)) []) nodes"
    by simp
  show ?thesis
    unfolding eq
    using applyColumnUpdates_frame [of "assignColumns 0 0 (allBubblesInOrder nodes (canonicalOrder nodes edges)) []" nodes]
      note_bubbles_kept [of nodes "canonicalOrder nodes edges"]
    by blast
qed

theorem applyNormalizationToNodes_frame_witness:
  "0 < length exampleFlow \<and> node_type (exampleFlow ! 0) \<noteq> GroupNode \<and>
   distinct (map node_id exampleFlow) \<and>
   distinct (map bubble_id (getAllBubblesFromFlowNodes exampleFlow)) \<and>
   applyNormalizationToNodes exampleFlow exampleEdges ! 0 = exampleFlow ! 0 \<and>
   map (\<lambda>n. map withoutColumn (bubblesOf n)) (applyNormalizationToNodes exampleFlow exampleEdges) =
     map (\<lambda>n. map withoutColumn (bubblesOf n)) exampleFlow \<and>
   map (\<lambda>n. filter (\<lambda>b. isVisualOnlyBubble (bubble_type b)) (bubblesOf n))
       (applyNormalizationToNodes exampleFlow exampleEdges) =
   map (\<lambda>n. filter (\<lambda>b. isVisualOnlyBubble (bubble_type b)) (bubblesOf n)) exampleFlow \<and>
   applyNormalizationToNodes exampleFlow exampleEdges \<noteq> exampleFlow"
proof -
  have h0: "0 < length exampleFlow \<and> node_type (exampleFlow ! 0) \<noteq> GroupNode" by code_simp
  have h1: "distinct (map node_id exampleFlow)" by code_simp
  have h2: "distinct (map bubble_id (getAllBubblesFromFlowNodes exampleFlow))" by code_simp
  have h3: "applyNormalizationToNodes exampleFlow exampleEdges \<noteq> exampleFlow" by code_simp
  from applyNormalizationToNodes_frame [of exampleFlow exampleEdges] h0 h1 h2 h3
  show ?thesis by blast
qed

section \<open>The shift after a deletion\<close>

lemma rankAt_append_left: "i < length xs \<Longrightarrow> rankAt (xs @ zs) i = rankAt xs i"
  by (simp add: rankAt_def nth_append)

lemma rankAt_append_right:
  "j < length zs \<Longrightarrow> rankAt (xs @ zs) (length xs + j) = length (filter (\<lambda>k. k = zs ! j) xs) + rankAt zs j"
  by (simp add: rankAt_def nth_append)

lemma shiftColumn_slot:
  "shiftColumn dk di c u =
     (case slotOf c of
        None \<Rightarrow> u
      | Some (k, idx) \<Rightarrow> if k = dk \<and> idx > di then jsmap_set u (bubble_id c) (buildColumn dk (idx - 1)) else u)"
  by (cases "supabaseColumn (bubble_data c)")
     (auto simp add: shiftColumn_def slotOf_def parseColumn_def js_trim_def js_toUpperCase_def split: option.splits)

lemma shift_other:
  "x \<notin> bubble_id ` set bs \<Longrightarrow> map_of (fold (shiftColumn dk di) bs u0) x = map_of u0 x"
  by (induction bs arbitrary: u0) (auto simp add: shiftColumn_slot map_of_jsmap_set split: option.splits)

lemma shift_get:
  assumes "distinct (map bubble_id bs)" "c \<in> set bs"
  shows "map_of (fold (shiftColumn dk di) bs u0) (bubble_id c) =
         (case slotOf c of
            None \<Rightarrow> map_of u0 (bubble_id c)
          | Some (k, idx) \<Rightarrow> if k = dk \<and> idx > di then Some (buildColumn dk (idx - 1)) else map_of u0 (bubble_id c))"
  using assms
proof (induction bs arbitrary: u0)
  case Nil
  then show ?case by simp
next
  case (Cons a bs)
  show ?case
  proof (cases "c = a")
    case True
    from Cons.prems have "bubble_id a \<notin> bubble_id ` set bs" by simp
    with True show ?thesis
      by (simp add: shift_other) (auto simp add: shiftColumn_slot map_of_jsmap_set split: option.splits)
  next
    case False
    with Cons.prems have c: "c \<in> set bs" and d: "distinct (map bubble_id bs)" by simp_all
    from Cons.prems have "bubble_id a \<notin> bubble_id ` set bs" by simp
    with c have ne: "bubble_id c \<noteq> bubble_id a" by (metis imageI)
    from Cons.IH [OF d c, of "shiftColumn dk di a u0"] ne show ?thesis
      by (auto simp add: shiftColumn_slot map_of_jsmap_set split: option.splits)
  qed
qed

lemma filter_out_nth:
  assumes "distinct (map f xs)" "p < length xs"
  shows "filter (\<lambda>e. f e \<noteq> f (xs ! p)) xs = take p xs @ drop (Suc p) xs"
proof -
  have xs: "xs = take p xs @ xs ! p # drop (Suc p) xs"
    using assms(2) by (rule id_take_nth_drop)
  then have "distinct (map f (take p xs @ xs ! p # drop (Suc p) xs))"
    using assms(1) by simp
  then have out: "f (xs ! p) \<notin> f ` set (take p xs)" "f (xs ! p) \<notin> f ` set (drop (Suc p) xs)"
    by auto
  have "filter (\<lambda>e. f e \<noteq> f (xs ! p)) (take p xs) = take p xs"
    using out(1) by (simp add: filter_id_conv) (metis imageI)
  moreover have "filter (\<lambda>e. f e \<noteq> f (xs ! p)) (drop (Suc p) xs) = drop (Suc p) xs"
    using out(2) by (simp add: filter_id_conv) (metis imageI)
  ultimately have "filter (\<lambda>e. f e \<noteq> f (xs ! p)) (take p xs @ xs ! p # drop (Suc p) xs) =
      take p xs @ drop (Suc p) xs"
    by simp
  with xs show ?thesis by simp
qed

lemma shift_agrees_with_resequence:
  assumes norm: "\<And>i. i < length tr \<Longrightarrow> slotOf (fst (tr ! i)) = Some (snd (tr ! i), rankAt (map snd tr) i)"
    and p: "p < length tr"
    and i: "i < length (take p tr @ drop (Suc p) tr)"
  shows "(if currentNormalized (fst ((take p tr @ drop (Suc p) tr) ! i)) \<noteq>
             Some (buildColumn (snd ((take p tr @ drop (Suc p) tr) ! i))
                               (rankAt (map snd (take p tr @ drop (Suc p) tr)) i))
          then Some (buildColumn (snd ((take p tr @ drop (Suc p) tr) ! i))
                               (rankAt (map snd (take p tr @ drop (Suc p) tr)) i))
          else None) =
         (case slotOf (fst ((take p tr @ drop (Suc p) tr) ! i)) of
            None \<Rightarrow> None
          | Some (k, idx) \<Rightarrow>
              if k = snd (tr ! p) \<and> idx > rankAt (map snd tr) p
              then Some (buildColumn (snd (tr ! p)) (idx - 1)) else None)"
proof -
  define xs where "xs = map snd (take p tr)"
  define ys where "ys = map snd (drop (Suc p) tr)"
  define kb where "kb = snd (tr ! p)"
  have tr: "tr = take p tr @ tr ! p # drop (Suc p) tr"
    using p by (rule id_take_nth_drop)
  have ks: "map snd tr = xs @ kb # ys"
    unfolding xs_def ys_def kb_def by (subst tr) simp
  have ksR: "map snd (take p tr @ drop (Suc p) tr) = xs @ ys"
    by (simp add: xs_def ys_def)
  have lxs: "length xs = p" using p by (simp add: xs_def)
  have Rb: "rankAt (map snd tr) p = length (filter (\<lambda>k. k = kb) xs) + 1"
    using rankAt_append_right [of 0 "kb # ys" xs] by (simp add: ks lxs rankAt_0)
  show ?thesis
  proof (cases "i < p")
    case True
    then have nth: "(take p tr @ drop (Suc p) tr) ! i = tr ! i"
      using p by (simp add: nth_append)
    have ixs: "i < length xs" using True lxs by simp
    have r1: "rankAt (xs @ ys) i = rankAt xs i" by (rule rankAt_append_left [OF ixs])
    have r2: "rankAt (xs @ kb # ys) i = rankAt xs i" by (rule rankAt_append_left [OF ixs])
    from True p have "i < length tr" by simp
    from norm [OF this] have slot: "slotOf (fst (tr ! i)) = Some (snd (tr ! i), rankAt xs i)"
      by (simp add: ks r2)
    have k: "snd (tr ! i) = xs ! i"
      using True p by (simp add: xs_def)
    have "rankAt xs i \<le> length (filter (\<lambda>k. k = xs ! i) xs)" by (rule rankAt_le_count [OF ixs])
    then have small: "snd (tr ! i) = kb \<Longrightarrow> \<not> rankAt xs i > rankAt (map snd tr) p"
      by (simp add: Rb k)
    show ?thesis
      unfolding nth ksR r1 using slot small
      by (auto simp add: currentNormalized_Some kb_def)
  next
    case False
    define j where "j = i - p"
    from False have ij: "i = p + j" by (simp add: j_def)
    from i ij p have jys: "j < length ys" by (simp add: ys_def)
    have nth: "(take p tr @ drop (Suc p) tr) ! i = tr ! (Suc (p + j))"
      using p ij by (simp add: nth_append)
    have li: "Suc (p + j) < length tr" using jys by (simp add: ys_def)
    have k: "snd (tr ! (Suc (p + j))) = ys ! j"
      using jys by (simp add: ys_def)
    have rnew: "rankAt (xs @ ys) i = length (filter (\<lambda>k. k = ys ! j) xs) + rankAt ys j"
      using rankAt_append_right [OF jys, of xs] by (simp add: ij lxs)
    have "rankAt (xs @ kb # ys) (length xs + Suc j) =
          length (filter (\<lambda>k. k = (kb # ys) ! Suc j) xs) + rankAt (kb # ys) (Suc j)"
      by (rule rankAt_append_right) (simp add: jys)
    then have rold: "rankAt (map snd tr) (Suc (p + j)) =
          length (filter (\<lambda>k. k = ys ! j) xs) + (if kb = ys ! j then 1 else 0) + rankAt ys j"
      by (simp add: ks lxs rankAt_Suc)
    from norm [OF li] have slot: "slotOf (fst (tr ! Suc (p + j))) =
        Some (ys ! j, length (filter (\<lambda>k. k = ys ! j) xs) + (if kb = ys ! j then 1 else 0) + rankAt ys j)"
      by (simp add: k rold)
    have pos: "1 \<le> rankAt ys j" by (rule rankAt_pos [OF jys])
    show ?thesis
    proof (cases "ys ! j = kb")
      case True
      with slot have "slotOf (fst (tr ! Suc (p + j))) = Some (kb, length (filter (\<lambda>k. k = kb) xs) + 1 + rankAt ys j)"
        by simp
      then show ?thesis
        unfolding nth ksR rnew k using pos True
        by (simp add: currentNormalized_Some Rb kb_def [symmetric])
    next
      case False
      with slot have "slotOf (fst (tr ! Suc (p + j))) = Some (ys ! j, length (filter (\<lambda>k. k = ys ! j) xs) + rankAt ys j)"
        by auto
      then show ?thesis
        unfolding nth ksR rnew k using False
        by (simp add: currentNormalized_Some kb_def [symmetric])
    qed
  qed
qed

lemma getAllBubbles_concat:
  "getAllBubblesFromFlowNodes nodes = concat (map bubblesOf (filter (\<lambda>n. node_type n = GroupNode) nodes))"
  by (induction nodes) (simp_all add: getAllBubblesFromFlowNodes_def bubblesOf_def)

lemma getAllBubbles_applyColumnUpdates:
  "getAllBubblesFromFlowNodes (applyColumnUpdates u nodes) = map (withNewColumn u) (getAllBubblesFromFlowNodes nodes)"
  by (induction nodes) (simp_all add: getAllBubblesFromFlowNodes_def applyColumnUpdates_def bubblesOf_def)

lemma unique_home:
  assumes "distinct (map bubble_id (getAllBubblesFromFlowNodes nodes))"
    and "n1 \<in> set nodes" "node_type n1 = GroupNode" "b1 \<in> set (bubblesOf n1)"
    and "n2 \<in> set nodes" "node_type n2 = GroupNode" "b2 \<in> set (bubblesOf n2)"
    and "bubble_id b1 = bubble_id b2"
  shows "n1 = n2"
  using assms
proof (induction nodes)
  case Nil
  then show ?case by simp
next
  case (Cons n nodes)
  have split: "getAllBubblesFromFlowNodes (n # nodes) =
      (if node_type n = GroupNode then bubblesOf n else []) @ getAllBubblesFromFlowNodes nodes"
    by (simp add: getAllBubbles_concat)
  from Cons.prems(1) have dr: "distinct (map bubble_id (getAllBubblesFromFlowNodes nodes))"
    and disj: "node_type n = GroupNode \<Longrightarrow>
        bubble_id ` set (bubblesOf n) \<inter> bubble_id ` set (getAllBubblesFromFlowNodes nodes) = {}"
    unfolding split by auto
  have mem: "bubble_id b \<in> bubble_id ` set (getAllBubblesFromFlowNodes nodes)"
    if "m \<in> set nodes" "node_type m = GroupNode" "b \<in> set (bubblesOf m)" for m b
  proof -
    from that have "b \<in> set (getAllBubblesFromFlowNodes nodes)"
      unfolding getAllBubbles_member by blast
    then show ?thesis by (rule imageI)
  qed
  show ?case
  proof (cases "n1 = n")
    case True
    show ?thesis
    proof (cases "n2 = n")
      case True
      with \<open>n1 = n\<close> show ?thesis by simp
    next
      case False
      with Cons.prems have "n2 \<in> set nodes" by simp
      from mem [OF this Cons.prems(6,7)] disj True Cons.prems(3,4,8) show ?thesis by auto
    qed
  next
    case False
    with Cons.prems have n1: "n1 \<in> set nodes" by simp
    show ?thesis
    proof (cases "n2 = n")
      case True
      from mem [OF n1 Cons.prems(3,4)] disj True Cons.prems(6,7,8) show ?thesis by auto
    next
      case False
      with Cons.prems have "n2 \<in> set nodes" by simp
      from Cons.IH [OF dr n1 Cons.prems(3,4) this Cons.prems(6,7,8)] show ?thesis by simp
    qed
  qed
qed

lemma removeBubble_bubblesOf:
  assumes d1: "distinct (map node_id nodes)"
    and d2: "distinct (map bubble_id (getAllBubblesFromFlowNodes nodes))"
    and n: "n \<in> set nodes" "node_type n = GroupNode" and b: "b \<in> set (bubblesOf n)"
    and m: "m \<in> set nodes" "node_type m = GroupNode"
  shows "bubblesOf (if node_id m \<noteq> node_id n \<or> node_type m \<noteq> GroupNode then m
                    else m\<lparr>node_data := (node_data m)\<lparr>bubbles :=
                           Some (filter (\<lambda>c. bubble_id c \<noteq> bubble_id b) (bubblesOf m))\<rparr>\<rparr>) =
         filter (\<lambda>c. bubble_id c \<noteq> bubble_id b) (bubblesOf m)"
proof (cases "node_id m = node_id n")
  case True
  with m show ?thesis by (simp add: bubblesOf_def)
next
  case False
  then have ne: "m \<noteq> n" by auto
  have "bubble_id c \<noteq> bubble_id b" if "c \<in> set (bubblesOf m)" for c
  proof
    assume "bubble_id c = bubble_id b"
    from unique_home [OF d2 m that n b this] ne show False by simp
  qed
  then have "filter (\<lambda>c. bubble_id c \<noteq> bubble_id b) (bubblesOf m) = bubblesOf m"
    by (simp add: filter_id_conv)
  with False show ?thesis by simp
qed

lemma getAllBubbles_removeBubble:
  assumes d1: "distinct (map node_id nodes)"
    and d2: "distinct (map bubble_id (getAllBubblesFromFlowNodes nodes))"
    and n: "n \<in> set nodes" "node_type n = GroupNode" and b: "b \<in> set (bubblesOf n)"
  shows "getAllBubblesFromFlowNodes (removeBubble nodes (node_id n) (bubble_id b)) =
         filter (\<lambda>c. bubble_id c \<noteq> bubble_id b) (getAllBubblesFromFlowNodes nodes)"
proof -
  let ?f = "\<lambda>m. if node_id m \<noteq> node_id n \<or> node_type m \<noteq> GroupNode then m
                    else m\<lparr>node_data := (node_data m)\<lparr>bubbles :=
                           Some (filter (\<lambda>c. bubble_id c \<noteq> bubble_id b) (bubblesOf m))\<rparr>\<rparr>"
  have ty: "node_type (?f m) = node_type m" for m by simp
  have "map bubblesOf (filter (\<lambda>n. node_type n = GroupNode) (map ?f nodes)) =
        map (\<lambda>m. filter (\<lambda>c. bubble_id c \<noteq> bubble_id b) (bubblesOf m)) (filter (\<lambda>n. node_type n = GroupNode) nodes)"
    unfolding filter_map comp_def ty map_map
    by (rule map_cong [OF refl]) (use removeBubble_bubblesOf [OF d1 d2 n b] in auto)
  then show ?thesis
    unfolding getAllBubbles_concat removeBubble_def
    by (simp add: filter_concat comp_def)
qed

lemma allBubblesInOrder_removeBubble:
  assumes d1: "distinct (map node_id nodes)"
    and d2: "distinct (map bubble_id (getAllBubblesFromFlowNodes nodes))"
    and n: "n \<in> set nodes" "node_type n = GroupNode" and b: "b \<in> set (bubblesOf n)"
  shows "allBubblesInOrder (removeBubble nodes (node_id n) (bubble_id b)) order =
         filter (\<lambda>e. bubble_id (fst e) \<noteq> bubble_id b) (allBubblesInOrder nodes order)"
  unfolding removeBubble_def
proof (rule allBubblesInOrder_transform [OF d1])
  show "filter (\<lambda>e. bubble_id (fst e) \<noteq> bubble_id b) [] = []" by simp
  show "filter (\<lambda>e. bubble_id (fst e) \<noteq> bubble_id b) (xs @ ys) =
        filter (\<lambda>e. bubble_id (fst e) \<noteq> bubble_id b) xs @ filter (\<lambda>e. bubble_id (fst e) \<noteq> bubble_id b) ys"
    for xs ys :: "(BubbleData \<times> ColumnKind) list" by simp
  fix m assume m: "m \<in> set nodes"
  let ?fm = "if node_id m \<noteq> node_id n \<or> node_type m \<noteq> GroupNode then m
             else m\<lparr>node_data := (node_data m)\<lparr>bubbles :=
                    Some (filter (\<lambda>b'. bubble_id b' \<noteq> bubble_id b) (bubblesOf m))\<rparr>\<rparr>"
  have "collectBubbles ?fm = filter (\<lambda>e. bubble_id (fst e) \<noteq> bubble_id b) (collectBubbles m)"
    if g: "node_type m = GroupNode"
  proof -
    have "bubblesOf ?fm = filter (\<lambda>c. bubble_id c \<noteq> bubble_id b) (bubblesOf m)"
      by (rule removeBubble_bubblesOf [OF d1 d2 n b m g])
    then show ?thesis
      unfolding collectBubbles_def by (simp add: filter_map comp_def conj_commute)
  qed
  then show "node_id ?fm = node_id m \<and> node_type ?fm = node_type m \<and>
        (node_type m = GroupNode \<longrightarrow>
           collectBubbles ?fm = filter (\<lambda>e. bubble_id (fst e) \<noteq> bubble_id b) (collectBubbles m))"
    by simp
qed

lemma removeBubble_keys:
  "map (\<lambda>n. (node_id n, node_type n, position n)) (removeBubble nodes nodeId bubbleId) =
   map (\<lambda>n. (node_id n, node_type n, position n)) nodes"
  by (simp add: removeBubble_def)

lemma deletedColumnOf_found:
  assumes d1: "distinct (map node_id nodes)"
    and d2: "distinct (map bubble_id (getAllBubblesFromFlowNodes nodes))"
    and n: "n \<in> set nodes" "node_type n = GroupNode" and b: "b \<in> set (bubblesOf n)"
  shows "deletedColumnOf nodes (node_id n) (bubble_id b) = supabaseColumn (bubble_data b)"
proof -
  let ?step = "\<lambda>m deletedColumn.
             if node_id m \<noteq> node_id n \<or> node_type m \<noteq> GroupNode then deletedColumn
             else (case find (\<lambda>c. bubble_id c = bubble_id b) (bubblesOf m) of
                     Some targetBubble \<Rightarrow> supabaseColumn (bubble_data targetBubble)
                   | None \<Rightarrow> deletedColumn)"
  have skip: "fold ?step zs acc = acc" if "\<And>m. m \<in> set zs \<Longrightarrow> node_id m \<noteq> node_id n" for zs acc
    using that by (induction zs arbitrary: acc) simp_all
  from n(1) obtain xs ys where nodes: "nodes = xs @ n # ys" by (meson split_list)
  with d1 have "node_id n \<notin> node_id ` set xs" "node_id n \<notin> node_id ` set ys"
    by auto
  then have out: "\<And>m. m \<in> set xs \<Longrightarrow> node_id m \<noteq> node_id n" "\<And>m. m \<in> set ys \<Longrightarrow> node_id m \<noteq> node_id n"
    by (metis imageI)+
  obtain c where c: "find (\<lambda>c. bubble_id c = bubble_id b) (bubblesOf n) = Some c"
    using b by (cases "find (\<lambda>c. bubble_id c = bubble_id b) (bubblesOf n)") (auto simp add: find_None_iff)
  then have c': "c \<in> set (bubblesOf n)" "bubble_id c = bubble_id b"
    by (auto simp add: find_Some_iff)
  from d2 have "inj_on bubble_id (set (getAllBubblesFromFlowNodes nodes))" by (simp add: distinct_map)
  moreover from n b c'(1) have "b \<in> set (getAllBubblesFromFlowNodes nodes)" "c \<in> set (getAllBubblesFromFlowNodes nodes)"
    by (auto simp add: getAllBubbles_member)
  ultimately have cb: "c = b" using c'(2) by (auto dest: inj_onD)
  have "deletedColumnOf nodes (node_id n) (bubble_id b) = fold ?step ys (?step n (fold ?step xs None))"
    unfolding deletedColumnOf_def nodes by (simp only: fold_append fold.simps comp_apply)
  also have "\<dots> = ?step n None"
    by (simp only: skip [OF out(1)] skip [OF out(2)])
  also have "\<dots> = supabaseColumn (bubble_data b)"
    using c n(2) cb by simp
  finally show ?thesis .
qed

lemma parseColumn_Nil: "parseColumn [] = None"
  by (simp add: parseColumn_def js_trim_def js_toUpperCase_def)

lemma normalized_slots:
  assumes "normalizeColumnsWithGroupOrder nodes order = None" "i < length (allBubblesInOrder nodes order)"
  shows "slotOf (fst (allBubblesInOrder nodes order ! i)) =
         Some (snd (allBubblesInOrder nodes order ! i), rankAt (map snd (allBubblesInOrder nodes order)) i)"
proof -
  let ?tr = "allBubblesInOrder nodes order"
  from assms(1) have "assignColumns 0 0 ?tr [] = []"
    by (simp add: normalizeColumnsWithGroupOrder_def Let_def split: if_splits)
  then have "list_all2 (\<lambda>e n. currentNormalized (fst e) = Some (buildColumn (snd e) n))
                 ?tr (nextIndexes 0 0 (map snd ?tr))"
    by (simp add: assignColumns_empty)
  from list_all2_nthD [OF this assms(2)]
  have "currentNormalized (fst (?tr ! i)) = Some (buildColumn (snd (?tr ! i)) (nextIndexes 0 0 (map snd ?tr) ! i))" .
  moreover have "nextIndexes 0 0 (map snd ?tr) ! i = rankAt (map snd ?tr) i"
    using nextIndexes_nth [of i "map snd ?tr" 0 0] assms(2) by simp
  ultimately show ?thesis by (simp add: currentNormalized_Some)
qed

lemma withNewColumn_cong:
  "map_of u (bubble_id c) = map_of u' (bubble_id c) \<Longrightarrow> withNewColumn u c = withNewColumn u' c"
  by (simp add: withNewColumn_def jsmap_get_def)

lemma map_withNewColumn_empty: "map (withNewColumn []) bs = bs"
  by (induction bs) (simp_all add: withNewColumn_empty)

text \<open>
  Claim C6, for the deletion of a non-annotation step. Take a flow with unique node ids and
  step ids that is normalized (the normalizer under the canonical group order returns no
  update) and delete one non-annotation step from a group. Then \<open>deleteBubble\<close>, which removes the step and applies the localized shift of
  \<open>reorganizeColumnsAfterDeletion\<close>, leaves every non-annotation step exactly as a full
  resequence (\<open>applyNormalizationToNodes\<close> on the flow after the removal) leaves it: the same
  steps in the same order with the same columns.
\<close>

theorem shift_after_deletion_equals_resequence:
  assumes d1: "distinct (map node_id nodes)"
    and d2: "distinct (map bubble_id (getAllBubblesFromFlowNodes nodes))"
    and norm: "normalizeColumnsWithGroupOrder nodes (canonicalOrder nodes edges) = None"
    and n: "n \<in> set nodes" "node_type n = GroupNode"
    and b: "b \<in> set (bubblesOf n)" "\<not> isVisualOnlyBubble (bubble_type b)"
  shows "filter (\<lambda>c. \<not> isVisualOnlyBubble (bubble_type c))
           (getAllBubblesFromFlowNodes (deleteBubble nodes (node_id n) (bubble_id b))) =
         filter (\<lambda>c. \<not> isVisualOnlyBubble (bubble_type c))
           (getAllBubblesFromFlowNodes
              (applyNormalizationToNodes (removeBubble nodes (node_id n) (bubble_id b)) edges))"
proof -
  let ?order = "canonicalOrder nodes edges"
  let ?tr = "allBubblesInOrder nodes ?order"
  let ?R = "removeBubble nodes (node_id n) (bubble_id b)"
  have dtr: "distinct (map (\<lambda>e. bubble_id (fst e)) ?tr)"
    by (rule traversal_ids_distinct [OF d1 d2])
  have bmem: "b \<in> set (getAllBubblesFromFlowNodes nodes)"
    using n b(1) unfolding getAllBubbles_member by blast
  from bubble_in_traversal [OF d1 d2 bmem, of ?order] b(2)
  obtain p where p: "p < length ?tr" "fst (?tr ! p) = b" by auto
  define trR where "trR = take p ?tr @ drop (Suc p) ?tr"
  have trR: "allBubblesInOrder ?R ?order = trR"
    unfolding trR_def
    using allBubblesInOrder_removeBubble [OF d1 d2 n b(1), of ?order]
      filter_out_nth [OF dtr p(1)] p(2) by simp
  have slots: "\<And>i. i < length ?tr \<Longrightarrow> slotOf (fst (?tr ! i)) = Some (snd (?tr ! i), rankAt (map snd ?tr) i)"
    by (rule normalized_slots [OF norm])
  define kb where "kb = snd (?tr ! p)"
  define Rb where "Rb = rankAt (map snd ?tr) p"
  from slots [OF p(1)] p(2) have bslot: "slotOf b = Some (kb, Rb)"
    by (simp add: kb_def Rb_def)
  then obtain col where col: "supabaseColumn (bubble_data b) = Some col" "parseColumn col = Some (kb, Rb)"
    by (auto simp add: slotOf_def split: option.splits)
  from col(2) have colne: "col \<noteq> []" by (auto simp add: parseColumn_Nil)
  have dc: "deletedColumnOf nodes (node_id n) (bubble_id b) = Some col"
    using deletedColumnOf_found [OF d1 d2 n b(1)] col(1) by simp
  define uS where "uS = fold (shiftColumn kb Rb) (getAllBubblesFromFlowNodes ?R) []"
  define uF where "uF = assignColumns 0 0 trR []"
  have del: "getAllBubblesFromFlowNodes (deleteBubble nodes (node_id n) (bubble_id b)) =
             map (withNewColumn uS) (getAllBubblesFromFlowNodes ?R)"
  proof (cases "uS = []")
    case True
    then have "deleteBubble nodes (node_id n) (bubble_id b) = ?R"
      by (simp add: deleteBubble_def dc colne reorganizeColumnsAfterDeletion_def col(2) uS_def Let_def)
    with True show ?thesis by (simp add: map_withNewColumn_empty)
  next
    case False
    then have "deleteBubble nodes (node_id n) (bubble_id b) = applyColumnUpdates uS ?R"
      by (simp add: deleteBubble_def dc colne reorganizeColumnsAfterDeletion_def col(2) uS_def Let_def)
    then show ?thesis by (simp add: getAllBubbles_applyColumnUpdates)
  qed
  have orderR: "canonicalOrder ?R edges = ?order"
    unfolding canonicalOrder_def by (simp only: calculateGroupOrder_cong [OF removeBubble_keys])
  have full: "getAllBubblesFromFlowNodes (applyNormalizationToNodes ?R edges) =
              map (withNewColumn uF) (getAllBubblesFromFlowNodes ?R)"
    unfolding getAllBubbles_applyNormalizationToNodes orderR trR uF_def ..
  have idsR: "map node_id ?R = map node_id nodes"
    by (simp add: removeBubble_def)
  have d1R: "distinct (map node_id ?R)" unfolding idsR by (rule d1)
  have gR: "getAllBubblesFromFlowNodes ?R =
        filter (\<lambda>c. bubble_id c \<noteq> bubble_id b) (getAllBubblesFromFlowNodes nodes)"
    by (rule getAllBubbles_removeBubble [OF d1 d2 n b(1)])
  have d2R: "distinct (map bubble_id (getAllBubblesFromFlowNodes ?R))"
    unfolding gR using d2 by (rule distinct_map_filter)
  have dR: "distinct (map (\<lambda>e. bubble_id (fst e)) trR)"
    using traversal_ids_distinct [OF d1R d2R, of ?order] by (simp only: trR)
  have agree: "withNewColumn uS c = withNewColumn uF c"
    if c: "c \<in> set (getAllBubblesFromFlowNodes ?R)" "\<not> isVisualOnlyBubble (bubble_type c)" for c
  proof -
    from bubble_in_traversal [OF d1R d2R c(1), of ?order] c(2)
    obtain i where i: "i < length trR" "fst (trR ! i) = c"
      unfolding trR by auto
    have idx: "nextIndexes 0 0 (map snd trR) ! i = rankAt (map snd trR) i"
      using nextIndexes_nth [of i "map snd trR" 0 0] i(1) by simp
    have f: "map_of uF (bubble_id c) =
        (if currentNormalized (fst (trR ! i)) \<noteq> Some (buildColumn (snd (trR ! i)) (rankAt (map snd trR) i))
         then Some (buildColumn (snd (trR ! i)) (rankAt (map snd trR) i)) else None)"
      using assignColumns_get [OF dR i(1), of 0 0 "[]"] i(2) by (simp add: uF_def idx)
    have s: "map_of uS (bubble_id c) =
        (case slotOf (fst (trR ! i)) of
            None \<Rightarrow> None
          | Some (k, idx) \<Rightarrow> if k = kb \<and> idx > Rb then Some (buildColumn kb (idx - 1)) else None)"
      using shift_get [OF d2R c(1), of kb Rb "[]"] i(2) by (auto simp add: uS_def split: option.splits)
    from i(1) have i': "i < length (take p ?tr @ drop (Suc p) ?tr)" by (simp only: trR_def)
    have "map_of uS (bubble_id c) = map_of uF (bubble_id c)"
      unfolding f s trR_def kb_def Rb_def
      by (rule shift_agrees_with_resequence [OF slots p(1) i', symmetric])
    then show ?thesis by (rule withNewColumn_cong)
  qed
  have "filter (\<lambda>c. \<not> isVisualOnlyBubble (bubble_type c)) (map (withNewColumn u) bs) =
        map (withNewColumn u) (filter (\<lambda>c. \<not> isVisualOnlyBubble (bubble_type c)) bs)" for u bs
    by (simp add: filter_map comp_def withNewColumn_type)
  moreover have "map (withNewColumn uS) (filter (\<lambda>c. \<not> isVisualOnlyBubble (bubble_type c)) (getAllBubblesFromFlowNodes ?R)) =
        map (withNewColumn uF) (filter (\<lambda>c. \<not> isVisualOnlyBubble (bubble_type c)) (getAllBubblesFromFlowNodes ?R))"
    by (rule map_cong [OF refl]) (simp add: agree)
  ultimately show ?thesis
    unfolding del full by simp
qed

theorem shift_after_deletion_equals_resequence_witness:
  "distinct (map node_id exampleNormalizedFlow) \<and>
   distinct (map bubble_id (getAllBubblesFromFlowNodes exampleNormalizedFlow)) \<and>
   normalizeColumnsWithGroupOrder exampleNormalizedFlow (canonicalOrder exampleNormalizedFlow exampleEdges) = None \<and>
   exampleFirstGroup \<in> set exampleNormalizedFlow \<and> node_type exampleFirstGroup = GroupNode \<and>
   exampleFirstStep \<in> set (bubblesOf exampleFirstGroup) \<and>
   \<not> isVisualOnlyBubble (bubble_type exampleFirstStep) \<and>
   filter (\<lambda>c. \<not> isVisualOnlyBubble (bubble_type c))
     (getAllBubblesFromFlowNodes
        (deleteBubble exampleNormalizedFlow (node_id exampleFirstGroup) (bubble_id exampleFirstStep))) =
   filter (\<lambda>c. \<not> isVisualOnlyBubble (bubble_type c))
     (getAllBubblesFromFlowNodes
        (applyNormalizationToNodes
           (removeBubble exampleNormalizedFlow (node_id exampleFirstGroup) (bubble_id exampleFirstStep))
           exampleEdges)) \<and>
   deleteBubble exampleNormalizedFlow (node_id exampleFirstGroup) (bubble_id exampleFirstStep) \<noteq>
     removeBubble exampleNormalizedFlow (node_id exampleFirstGroup) (bubble_id exampleFirstStep)"
proof -
  have h1: "distinct (map node_id exampleNormalizedFlow)" by code_simp
  have h2: "distinct (map bubble_id (getAllBubblesFromFlowNodes exampleNormalizedFlow))" by code_simp
  have h3: "normalizeColumnsWithGroupOrder exampleNormalizedFlow
              (canonicalOrder exampleNormalizedFlow exampleEdges) = None" by code_simp
  have h4: "exampleFirstGroup \<in> set exampleNormalizedFlow" by code_simp
  have h5: "node_type exampleFirstGroup = GroupNode" by code_simp
  have h6: "exampleFirstStep \<in> set (bubblesOf exampleFirstGroup)" by code_simp
  have h7: "\<not> isVisualOnlyBubble (bubble_type exampleFirstStep)" by code_simp
  have h8: "deleteBubble exampleNormalizedFlow (node_id exampleFirstGroup) (bubble_id exampleFirstStep) \<noteq>
     removeBubble exampleNormalizedFlow (node_id exampleFirstGroup) (bubble_id exampleFirstStep)"
    by code_simp
  from shift_after_deletion_equals_resequence [OF h1 h2 h3 h4 h5 h6 h7] h1 h2 h3 h4 h5 h6 h7 h8
  show ?thesis by blast
qed

text \<open>
  The code departs from claim C6 when the deleted bubble is an annotation that carries a
  column. The flow \<open>exampleNoteFlow\<close> is normalized; deleting the annotation (column M3)
  makes \<open>deleteBubble\<close> shift M4 down to M3, which the step b3 already holds, while a full
  resequence of the flow after the removal keeps M1, M2, M3, M4.
\<close>

theorem shift_after_note_deletion_counterexample:
  "distinct (map node_id exampleNoteFlow) \<and>
   distinct (map bubble_id (getAllBubblesFromFlowNodes exampleNoteFlow)) \<and>
   normalizeColumnsWithGroupOrder exampleNoteFlow (canonicalOrder exampleNoteFlow []) = None \<and>
   map (\<lambda>b. (bubble_id b, supabaseColumn (bubble_data b)))
     (getAllBubblesFromFlowNodes (deleteBubble exampleNoteFlow ''g1'' ''n1'')) =
     [(''b1'', Some ''M1''), (''b2'', Some ''M2''), (''b3'', Some ''M3''), (''b4'', Some ''M3'')] \<and>
   map (\<lambda>b. (bubble_id b, supabaseColumn (bubble_data b)))
     (getAllBubblesFromFlowNodes
        (applyNormalizationToNodes (removeBubble exampleNoteFlow ''g1'' ''n1'') [])) =
     [(''b1'', Some ''M1''), (''b2'', Some ''M2''), (''b3'', Some ''M3''), (''b4'', Some ''M4'')]"
  by code_simp

section \<open>Manual slot assignment\<close>

lemma duplicate_condition:
  "(if bubble_id b = bubbleId then False
    else (case supabaseColumn (bubble_data b) of
            None \<Rightarrow> False
          | Some col \<Rightarrow>
              if col = [] then False
              else (case parseColumn col of
                      None \<Rightarrow> False
                    | Some (pk, pindex) \<Rightarrow> buildColumn pk pindex = buildColumn kind index)))
   \<longleftrightarrow> bubble_id b \<noteq> bubbleId \<and> slotOf b = Some (kind, index)"
  by (auto simp add: slotOf_def parseColumn_Nil split: option.splits dest: buildColumn_inj)

lemma handleChangeBubbleColumn_unfold:
  "handleChangeBubbleColumn nodes nodeId bubbleId column =
     (case parseColumn column of
        None \<Rightarrow> (Some ColunaInvalida, nodes)
      | Some (kind, index) \<Rightarrow>
          if (\<exists>b \<in> set (getAllBubblesFromFlowNodes nodes). bubble_id b \<noteq> bubbleId \<and> slotOf b = Some (kind, index))
          then (Some (ColunaJaUsada (buildColumn kind index)), nodes)
          else (case find (\<lambda>n. node_id n = nodeId) nodes of
                  None \<Rightarrow> (None, nodes)
                | Some node \<Rightarrow>
                    if node_type node \<noteq> GroupNode then (None, nodes)
                    else (case find (\<lambda>b. bubble_id b = bubbleId) (bubblesOf node) of
                            None \<Rightarrow> (None, nodes)
                          | Some bubble \<Rightarrow>
                              (None, updateBubble nodes nodeId bubbleId
                                       ((bubble_data bubble)\<lparr>supabaseColumn := Some (buildColumn kind index)\<rparr>) None))))"
  unfolding handleChangeBubbleColumn_def Let_def list_ex_iff duplicate_condition ..

lemma find_unique:
  assumes "distinct (map f xs)" "x \<in> set xs"
  shows "find (\<lambda>y. f y = f x) xs = Some x"
  using assms
proof (induction xs)
  case Nil
  then show ?case by simp
next
  case (Cons a xs)
  show ?case
  proof (cases "a = x")
    case True
    then show ?thesis by simp
  next
    case False
    with Cons.prems have x: "x \<in> set xs" by simp
    with Cons.prems have "f a \<noteq> f x" by (metis distinct.simps(2) imageI list.simps(9) set_map)
    with Cons.IH x Cons.prems show ?thesis by simp
  qed
qed

lemma bubbles_distinct_in_node:
  assumes "distinct (map bubble_id (getAllBubblesFromFlowNodes nodes))" "n \<in> set nodes" "node_type n = GroupNode"
  shows "distinct (map bubble_id (bubblesOf n))"
proof -
  from assms(2) obtain xs ys where "nodes = xs @ n # ys" by (meson split_list)
  with assms(1,3) show ?thesis by (simp add: getAllBubbles_concat)
qed

lemma getAllBubbles_updateBubble:
  assumes d1: "distinct (map node_id nodes)"
    and d2: "distinct (map bubble_id (getAllBubblesFromFlowNodes nodes))"
    and n: "n \<in> set nodes" "node_type n = GroupNode" and b: "b \<in> set (bubblesOf n)"
  shows "getAllBubblesFromFlowNodes (updateBubble nodes (node_id n) (bubble_id b) newData None) =
         map (\<lambda>c. if bubble_id c = bubble_id b then c\<lparr>bubble_data := newData\<rparr> else c)
             (getAllBubblesFromFlowNodes nodes)"
proof -
  let ?g = "\<lambda>c. if bubble_id c = bubble_id b then c\<lparr>bubble_data := newData\<rparr> else c"
  let ?f = "\<lambda>m. if node_id m = node_id n \<and> node_type m = GroupNode
               then m\<lparr>node_data := (node_data m)\<lparr>bubbles := Some (map ?g (bubblesOf m))\<rparr>\<rparr>
               else m"
  have ty: "node_type (?f m) = node_type m" for m by simp
  have bs: "bubblesOf (?f m) = map ?g (bubblesOf m)" if m: "m \<in> set nodes" "node_type m = GroupNode" for m
  proof (cases "node_id m = node_id n")
    case True
    with m show ?thesis by (simp add: bubblesOf_def)
  next
    case False
    then have ne: "m \<noteq> n" by auto
    have "bubble_id c \<noteq> bubble_id b" if "c \<in> set (bubblesOf m)" for c
    proof
      assume "bubble_id c = bubble_id b"
      from unique_home [OF d2 m that n b this] ne show False by simp
    qed
    then have "map ?g (bubblesOf m) = bubblesOf m" by (simp add: map_idI)
    with False show ?thesis by simp
  qed
  have "map bubblesOf (filter (\<lambda>n. node_type n = GroupNode) (map ?f nodes)) =
        map (\<lambda>m. map ?g (bubblesOf m)) (filter (\<lambda>n. node_type n = GroupNode) nodes)"
    unfolding filter_map comp_def ty map_map
    by (rule map_cong [OF refl]) (use bs in auto)
  moreover have "updateBubble nodes (node_id n) (bubble_id b) newData None = map ?f nodes"
    by (simp add: updateBubble_def)
  ultimately show ?thesis
    unfolding getAllBubbles_concat
    by (simp add: map_concat comp_def)
qed

lemma handleChangeBubbleColumn_toast:
  "fst (handleChangeBubbleColumn nodes nodeId bubbleId column) =
     (case parseColumn column of
        None \<Rightarrow> Some ColunaInvalida
      | Some (kind, index) \<Rightarrow>
          if (\<exists>b \<in> set (getAllBubblesFromFlowNodes nodes). bubble_id b \<noteq> bubbleId \<and> slotOf b = Some (kind, index))
          then Some (ColunaJaUsada (buildColumn kind index)) else None)"
  unfolding handleChangeBubbleColumn_unfold
  by (auto split: option.splits prod.splits)

lemma handleChangeBubbleColumn_rejected:
  "fst (handleChangeBubbleColumn nodes nodeId bubbleId column) \<noteq> None \<Longrightarrow>
   snd (handleChangeBubbleColumn nodes nodeId bubbleId column) = nodes"
  unfolding handleChangeBubbleColumn_unfold
  by (auto split: option.splits prod.splits if_splits)

text \<open>
  Claim C8, as the code has it. \<open>handleChangeBubbleColumn\<close> rejects a request (shows an error
  toast) exactly when the requested string, after trimming and upper-casing, fails the pattern
  \<open>[MT]\d{1,2}\<close> with index in 1..50, or when its slot is already carried by a different step
  of the flow; a rejected request leaves the nodes as they are. The kind letter is not compared
  with the step's slot kind. A request that passes both checks on a flow with unique ids is
  applied: the named step of the named group gets the normalized column and no other step
  changes.
\<close>

theorem handleChangeBubbleColumn_checks:
  "(fst (handleChangeBubbleColumn nodes nodeId bubbleId column) \<noteq> None \<longleftrightarrow>
      parseColumn column = None \<or>
      (\<exists>b \<in> set (getAllBubblesFromFlowNodes nodes).
          bubble_id b \<noteq> bubbleId \<and> slotOf b \<noteq> None \<and> slotOf b = parseColumn column))
   \<and> (fst (handleChangeBubbleColumn nodes nodeId bubbleId column) \<noteq> None \<longrightarrow>
        snd (handleChangeBubbleColumn nodes nodeId bubbleId column) = nodes)
   \<and> (fst (handleChangeBubbleColumn nodes nodeId bubbleId column) = None \<and>
       distinct (map node_id nodes) \<and> distinct (map bubble_id (getAllBubblesFromFlowNodes nodes)) \<and>
       n \<in> set nodes \<and> node_type n = GroupNode \<and> node_id n = nodeId \<and>
       b \<in> set (bubblesOf n) \<and> bubble_id b = bubbleId \<longrightarrow>
        getAllBubblesFromFlowNodes (snd (handleChangeBubbleColumn nodes nodeId bubbleId column)) =
          map (\<lambda>c. if bubble_id c = bubbleId
                    then c\<lparr>bubble_data := (bubble_data c)\<lparr>supabaseColumn :=
                           map_option (\<lambda>(kind, index). buildColumn kind index) (parseColumn column)\<rparr>\<rparr>
                    else c)
              (getAllBubblesFromFlowNodes nodes))"
proof (intro conjI impI)
  show "fst (handleChangeBubbleColumn nodes nodeId bubbleId column) \<noteq> None \<longleftrightarrow>
      parseColumn column = None \<or>
      (\<exists>b \<in> set (getAllBubblesFromFlowNodes nodes).
          bubble_id b \<noteq> bubbleId \<and> slotOf b \<noteq> None \<and> slotOf b = parseColumn column)"
  proof (cases "parseColumn column")
    case None
    then show ?thesis by (simp add: handleChangeBubbleColumn_toast)
  next
    case (Some ki)
    obtain k i where ki: "ki = (k, i)" by (cases ki)
    have "(\<exists>b \<in> set (getAllBubblesFromFlowNodes nodes).
             bubble_id b \<noteq> bubbleId \<and> slotOf b \<noteq> None \<and> slotOf b = Some (k, i)) \<longleftrightarrow>
          (\<exists>b \<in> set (getAllBubblesFromFlowNodes nodes). bubble_id b \<noteq> bubbleId \<and> slotOf b = Some (k, i))"
      by blast
    with Some ki show ?thesis by (simp add: handleChangeBubbleColumn_toast)
  qed
next
  assume "fst (handleChangeBubbleColumn nodes nodeId bubbleId column) \<noteq> None"
  then show "snd (handleChangeBubbleColumn nodes nodeId bubbleId column) = nodes"
    by (rule handleChangeBubbleColumn_rejected)
next
  assume a: "fst (handleChangeBubbleColumn nodes nodeId bubbleId column) = None \<and>
       distinct (map node_id nodes) \<and> distinct (map bubble_id (getAllBubblesFromFlowNodes nodes)) \<and>
       n \<in> set nodes \<and> node_type n = GroupNode \<and> node_id n = nodeId \<and>
       b \<in> set (bubblesOf n) \<and> bubble_id b = bubbleId"
  then have d1: "distinct (map node_id nodes)"
    and d2: "distinct (map bubble_id (getAllBubblesFromFlowNodes nodes))"
    and n: "n \<in> set nodes" "node_type n = GroupNode" and nid: "node_id n = nodeId"
    and b: "b \<in> set (bubblesOf n)" and bid: "bubble_id b = bubbleId"
    and ok: "fst (handleChangeBubbleColumn nodes nodeId bubbleId column) = None" by simp_all
  from ok obtain kind index where parsed: "parseColumn column = Some (kind, index)"
    unfolding handleChangeBubbleColumn_toast by (cases "parseColumn column") auto
  from ok parsed have nodup: "\<not> (\<exists>b \<in> set (getAllBubblesFromFlowNodes nodes). bubble_id b \<noteq> bubbleId \<and> slotOf b = Some (kind, index))"
    unfolding handleChangeBubbleColumn_toast by (auto split: if_splits)
  have fn: "find (\<lambda>m. node_id m = nodeId) nodes = Some n"
    using find_unique [OF d1 n(1)] by (simp add: nid)
  have fb: "find (\<lambda>c. bubble_id c = bubbleId) (bubblesOf n) = Some b"
    using find_unique [OF bubbles_distinct_in_node [OF d2 n] b] by (simp add: bid)
  have res: "snd (handleChangeBubbleColumn nodes nodeId bubbleId column) =
        updateBubble nodes (node_id n) (bubble_id b)
          ((bubble_data b)\<lparr>supabaseColumn := Some (buildColumn kind index)\<rparr>) None"
  proof -
    from nodup have nd: "(\<exists>b \<in> set (getAllBubblesFromFlowNodes nodes). bubble_id b \<noteq> bubbleId \<and> slotOf b = Some (kind, index)) = False"
      by (rule eq_False [THEN iffD2])
    show ?thesis
      unfolding handleChangeBubbleColumn_unfold using fn fb n(2) by (simp add: parsed nd nid bid)
  qed
  have same: "c = b" if "c \<in> set (getAllBubblesFromFlowNodes nodes)" "bubble_id c = bubble_id b" for c
  proof -
    from d2 have "inj_on bubble_id (set (getAllBubblesFromFlowNodes nodes))" by (simp add: distinct_map)
    moreover from n b have "b \<in> set (getAllBubblesFromFlowNodes nodes)"
      unfolding getAllBubbles_member by blast
    ultimately show ?thesis using that by (auto dest: inj_onD)
  qed
  show "getAllBubblesFromFlowNodes (snd (handleChangeBubbleColumn nodes nodeId bubbleId column)) =
          map (\<lambda>c. if bubble_id c = bubbleId
                    then c\<lparr>bubble_data := (bubble_data c)\<lparr>supabaseColumn :=
                           map_option (\<lambda>(kind, index). buildColumn kind index) (parseColumn column)\<rparr>\<rparr>
                    else c)
              (getAllBubblesFromFlowNodes nodes)"
    unfolding res getAllBubbles_updateBubble [OF d1 d2 n b]
    by (rule map_cong [OF refl]) (auto simp add: parsed bid dest: same)
qed

theorem handleChangeBubbleColumn_checks_witness:
  "fst (handleChangeBubbleColumn exampleNormalizedFlow ''g1'' ''b2'' '' t7 '') = None \<and>
   distinct (map node_id exampleNormalizedFlow) \<and>
   distinct (map bubble_id (getAllBubblesFromFlowNodes exampleNormalizedFlow)) \<and>
   exampleFirstGroup \<in> set exampleNormalizedFlow \<and> node_type exampleFirstGroup = GroupNode \<and>
   node_id exampleFirstGroup = ''g1'' \<and>
   exampleTimer \<in> set (bubblesOf exampleFirstGroup) \<and> bubble_id exampleTimer = ''b2'' \<and>
   getAllBubblesFromFlowNodes (snd (handleChangeBubbleColumn exampleNormalizedFlow ''g1'' ''b2'' '' t7 '')) =
     map (\<lambda>c. if bubble_id c = ''b2''
               then c\<lparr>bubble_data := (bubble_data c)\<lparr>supabaseColumn :=
                      map_option (\<lambda>(kind, index). buildColumn kind index) (parseColumn '' t7 '')\<rparr>\<rparr>
               else c)
         (getAllBubblesFromFlowNodes exampleNormalizedFlow) \<and>
   fst (handleChangeBubbleColumn exampleNormalizedFlow ''g1'' ''b2'' ''T2'') \<noteq> None \<and>
   snd (handleChangeBubbleColumn exampleNormalizedFlow ''g1'' ''b2'' ''T2'') = exampleNormalizedFlow"
proof -
  have h0: "fst (handleChangeBubbleColumn exampleNormalizedFlow ''g1'' ''b2'' '' t7 '') = None" by code_simp
  have h1: "distinct (map node_id exampleNormalizedFlow)" by code_simp
  have h2: "distinct (map bubble_id (getAllBubblesFromFlowNodes exampleNormalizedFlow))" by code_simp
  have h3: "exampleFirstGroup \<in> set exampleNormalizedFlow" by code_simp
  have h4: "node_type exampleFirstGroup = GroupNode \<and> node_id exampleFirstGroup = ''g1''" by code_simp
  have h5: "exampleTimer \<in> set (bubblesOf exampleFirstGroup) \<and> bubble_id exampleTimer = ''b2''" by code_simp
  have h6: "fst (handleChangeBubbleColumn exampleNormalizedFlow ''g1'' ''b2'' ''T2'') \<noteq> None" by code_simp
  from handleChangeBubbleColumn_checks [of exampleNormalizedFlow "''g1''" "''b2''" "'' t7 ''" exampleFirstGroup exampleTimer]
    handleChangeBubbleColumn_checks [of exampleNormalizedFlow "''g1''" "''b2''" "''T2''" exampleFirstGroup exampleTimer]
    h0 h1 h2 h3 h4 h5 h6
  show ?thesis by blast
qed

text \<open>
  Claim C8, as the spec states it, fails: the timer step \<open>b2\<close> (slot kind T) of the example
  flow is given the content slot M5 on request; no error is raised and the step's column
  becomes M5.
\<close>

theorem handleChangeBubbleColumn_kind_counterexample:
  "getColumnKindForBubble (bubble_type exampleTimer) = ColT \<and>
   exampleTimer \<in> set (getAllBubblesFromFlowNodes exampleNormalizedFlow) \<and>
   fst (handleChangeBubbleColumn exampleNormalizedFlow ''g1'' (bubble_id exampleTimer) ''M5'') = None \<and>
   map (\<lambda>b. (bubble_id b, bubble_type b, supabaseColumn (bubble_data b)))
       (getAllBubblesFromFlowNodes
          (snd (handleChangeBubbleColumn exampleNormalizedFlow ''g1'' (bubble_id exampleTimer) ''M5''))) =
     [(''b1'', Message, Some ''M1''), (''b2'', Time, Some ''M5''), (''b3'', Note, None),
      (''b4'', Photo, Some ''M2''), (''b5'', Time, Some ''T2''), (''b6'', Message, Some ''M3'')]"
  by code_simp

section \<open>Properties of the Step Payload Codec\<close>

lemma decodeValue_fallback:
  assumes "\<not> recognizedPrefix val"
  shows "decodeValue uuidv4 val columnName =
         \<lparr>bubble_id = uuidv4 0, bubble_type = Message,
          bubble_data = (initialData columnName)\<lparr>label := NODE_LABELS Message, content := Some val\<rparr>\<rparr>"
proof -
  from assms have no: "\<not> startsWith ''MSG-UTM-'' val" "\<not> startsWith ''MSG-TEMPO-'' val"
    "\<not> startsWith ''MSG-'' val" "\<not> startsWith ''FT-C-T;'' val" "\<not> startsWith ''FT-C-T-'' val"
    "\<not> startsWith ''VD-C-T;'' val" "\<not> startsWith ''VD-C-T-'' val" "\<not> startsWith ''FT-C-'' val"
    "\<not> startsWith ''FT-'' val" "\<not> startsWith ''VD-C-'' val" "\<not> startsWith ''VD-'' val"
    "\<not> startsWith ''AU-'' val" "\<not> startsWith ''T-'' val" "\<not> startsWith ''ADD-ENTREGA-FLUXO-'' val"
    "\<not> startsWith ''DEL-ENTREGA-FLUXO-'' val" "\<not> startsWith ''ADD-REL-'' val"
    "\<not> startsWith ''DEL-REL-'' val" "\<not> startsWith ''APAGAR-GANCHO-'' val" "\<not> startsWith ''GANCHO-'' val"
    "val \<noteq> ''LD''" "val \<noteq> ''LK-PIX''"
    by (simp_all add: recognizedPrefix_def kindPrefixes_def)
  show ?thesis
    unfolding decodeValue_def Let_def
    by (simp only: no if_False)
qed

text \<open>
  Claim C9. \<open>parseColumnValue\<close> is total: it yields no step exactly for \<open>null\<close> and for
  strings that are empty or blank, and a step for every other cell. A cell whose trimmed text
  matches none of the recognized prefixes (and is neither \<open>LD\<close> nor \<open>LK-PIX\<close>) is decoded as a
  plain message whose content is the whole trimmed text.
\<close>

theorem parseColumnValue_fallback:
  "(parseColumnValue uuidv4 cell columnName = None \<longleftrightarrow>
      (case cell of None \<Rightarrow> True | Some v \<Rightarrow> js_trim v = []))
   \<and> (js_trim v \<noteq> [] \<and> \<not> recognizedPrefix (js_trim v) \<longrightarrow>
        parseColumnValue uuidv4 (Some v) columnName =
          Some \<lparr>bubble_id = uuidv4 0, bubble_type = Message,
                bubble_data = (initialData columnName)
                  \<lparr>label := NODE_LABELS Message, content := Some (js_trim v)\<rparr>\<rparr>)"
proof
  show "parseColumnValue uuidv4 cell columnName = None \<longleftrightarrow>
      (case cell of None \<Rightarrow> True | Some v \<Rightarrow> js_trim v = [])"
    by (cases cell) (auto simp add: parseColumnValue_def Let_def js_trim_def)
next
  show "js_trim v \<noteq> [] \<and> \<not> recognizedPrefix (js_trim v) \<longrightarrow>
        parseColumnValue uuidv4 (Some v) columnName =
          Some \<lparr>bubble_id = uuidv4 0, bubble_type = Message,
                bubble_data = (initialData columnName)
                  \<lparr>label := NODE_LABELS Message, content := Some (js_trim v)\<rparr>\<rparr>"
  proof
    assume a: "js_trim v \<noteq> [] \<and> \<not> recognizedPrefix (js_trim v)"
    then have "v \<noteq> []" by (auto simp add: js_trim_def)
    with a show "parseColumnValue uuidv4 (Some v) columnName =
          Some \<lparr>bubble_id = uuidv4 0, bubble_type = Message,
                bubble_data = (initialData columnName)
                  \<lparr>label := NODE_LABELS Message, content := Some (js_trim v)\<rparr>\<rparr>"
      by (simp add: parseColumnValue_def Let_def decodeValue_fallback)
  qed
qed

theorem parseColumnValue_fallback_witness:
  "js_trim ''  Ola, tudo bem?  '' \<noteq> [] \<and> \<not> recognizedPrefix (js_trim ''  Ola, tudo bem?  '') \<and>
   parseColumnValue exampleUuid (Some ''  Ola, tudo bem?  '') ''m7'' =
     Some \<lparr>bubble_id = exampleUuid 0, bubble_type = Message,
           bubble_data = (initialData ''m7'')
             \<lparr>label := NODE_LABELS Message, content := Some (js_trim ''  Ola, tudo bem?  '')\<rparr>\<rparr> \<and>
   content (bubble_data (the (parseColumnValue exampleUuid (Some ''  Ola, tudo bem?  '') ''m7''))) =
     Some ''Ola, tudo bem?''"
proof -
  have h: "js_trim ''  Ola, tudo bem?  '' \<noteq> [] \<and> \<not> recognizedPrefix (js_trim ''  Ola, tudo bem?  '')"
    by code_simp
  have t: "js_trim ''  Ola, tudo bem?  '' = ''Ola, tudo bem?''" by code_simp
  from parseColumnValue_fallback [of exampleUuid "Some ''  Ola, tudo bem?  ''" "''m7''" "''  Ola, tudo bem?  ''"] h
  have "parseColumnValue exampleUuid (Some ''  Ola, tudo bem?  '') ''m7'' =
     Some \<lparr>bubble_id = exampleUuid 0, bubble_type = Message,
           bubble_data = (initialData ''m7'')
             \<lparr>label := NODE_LABELS Message, content := Some (js_trim ''  Ola, tudo bem?  '')\<rparr>\<rparr>"
    by blast
  with h t show ?thesis by simp
qed

section \<open>Properties of the position snapshot\<close>

lemma Math_round_half: "Math_round (1 / 2) = 1"
  by (simp add: Math_round_def)

lemma Math_round_of_int: "Math_round (of_int i) = of_int i"
proof -
  have "\<lfloor>(of_int i :: rat) + 1 / 2\<rfloor> = i" by linarith
  then show ?thesis by (simp add: Math_round_def)
qed

lemma validNodeIds_set:
  "set (fold (\<lambda>n s. jsset_add s (node_id n)) gs s0) = set s0 \<union> node_id ` set gs"
  by (induction gs arbitrary: s0) (auto simp add: jsset_add_def)

lemma encode_groups_fold:
  assumes "distinct (map fst (doc_g p) @ map node_id gs)" "''__proto__'' \<notin> node_id ` set gs"
  shows "fold (\<lambda>node p. p\<lparr>doc_go := doc_go p @ [node_id node],
                          doc_g := object_set (doc_g p) (node_id node) (f node)\<rparr>) gs p =
         p\<lparr>doc_go := doc_go p @ map node_id gs,
           doc_g := doc_g p @ map (\<lambda>n. (node_id n, f n)) gs\<rparr>"
  using assms
proof (induction gs arbitrary: p)
  case Nil
  then show ?case by simp
next
  case (Cons n gs)
  from Cons.prems have fresh: "node_id n \<notin> fst ` set (doc_g p)" and plain: "node_id n \<noteq> ''__proto__''"
    by auto
  let ?p = "p\<lparr>doc_go := doc_go p @ [node_id n], doc_g := object_set (doc_g p) (node_id n) (f n)\<rparr>"
  have g: "doc_g ?p = doc_g p @ [(node_id n, f n)]"
    using fresh plain by (simp add: jsmap_set_fresh object_set_def)
  have "distinct (map fst (doc_g ?p) @ map node_id gs)"
    using Cons.prems by (auto simp add: g)
  moreover have "''__proto__'' \<notin> node_id ` set gs" using Cons.prems by auto
  ultimately show ?case using Cons.IH [of ?p] by (simp add: g)
qed

lemma parse_groups:
  assumes "distinct (map node_id gs)" "set xs \<subseteq> set gs"
  shows "List.map_filter (\<lambda>i. map_option (h i) (jsmap_get (map (\<lambda>n. (node_id n, f n)) gs) i))
           (map node_id xs) = map (\<lambda>n. h (node_id n) (f n)) xs"
  using assms(2)
proof (induction xs)
  case Nil
  then show ?case by (simp add: List.map_filter_simps)
next
  case (Cons x xs)
  have d: "distinct (map fst (map (\<lambda>n. (node_id n, f n)) gs))"
    using assms(1) by (simp add: comp_def)
  have "(node_id x, f x) \<in> set (map (\<lambda>n. (node_id n, f n)) gs)"
    using Cons.prems by auto
  with d have "map_of (map (\<lambda>n. (node_id n, f n)) gs) (node_id x) = Some (f x)"
    by (rule map_of_is_SomeI)
  with Cons show ?case by (simp add: List.map_filter_simps jsmap_get_def)
qed

lemma bubbleByColumn_fold_sound:
  assumes "\<And>col b. map_of m col = Some b \<Longrightarrow> upperColumn b = Some col"
    and "map_of (fold (\<lambda>b m. case upperColumn b of Some col \<Rightarrow> jsmap_set m col b | None \<Rightarrow> m) bs m) col
         = Some b"
  shows "upperColumn b = Some col"
  using assms
proof (induction bs arbitrary: m)
  case Nil
  then show ?case by simp
next
  case (Cons a bs)
  show ?case
  proof (rule Cons.IH [OF _ Cons.prems(2) [simplified]])
    fix col' b'
    assume "map_of (case upperColumn a of None \<Rightarrow> m | Some col \<Rightarrow> jsmap_set m col a) col' = Some b'"
    then show "upperColumn b' = Some col'"
      using Cons.prems(1) by (auto simp add: map_of_jsmap_set split: option.splits if_splits)
  qed
qed

lemma bubbleByColumn_sound:
  "jsmap_get (bubbleByColumn bs) col = Some b \<Longrightarrow> upperColumn b = Some col"
  unfolding bubbleByColumn_def jsmap_get_def
  by (rule bubbleByColumn_fold_sound [of "[]"]) simp_all

lemma bubbleByColumn_fold_dom:
  "map_of m col \<noteq> None \<or> (\<exists>b \<in> set bs. upperColumn b = Some col) \<Longrightarrow>
   map_of (fold (\<lambda>b m. case upperColumn b of Some col \<Rightarrow> jsmap_set m col b | None \<Rightarrow> m) bs m) col \<noteq> None"
proof (induction bs arbitrary: m)
  case Nil
  then show ?case by simp
next
  case (Cons a bs)
  have "map_of (case upperColumn a of None \<Rightarrow> m | Some col \<Rightarrow> jsmap_set m col a) col \<noteq> None
        \<or> (\<exists>b \<in> set bs. upperColumn b = Some col)"
    using Cons.prems by (auto simp add: map_of_jsmap_set split: option.splits)
  from Cons.IH [OF this] show ?case by simp
qed

lemma bubbleByColumn_complete:
  "b \<in> set bs \<Longrightarrow> upperColumn b = Some col \<Longrightarrow> jsmap_get (bubbleByColumn bs) col \<noteq> None"
  unfolding bubbleByColumn_def jsmap_get_def
  by (rule bubbleByColumn_fold_dom) auto

lemma map_filter_all_found:
  assumes "\<And>col. col \<in> set cols \<Longrightarrow> \<exists>b. m col = Some b \<and> u b = Some col"
  shows "map u (List.map_filter m cols) = map Some cols"
  using assms
proof (induction cols)
  case Nil
  then show ?case by (simp add: List.map_filter_simps)
next
  case (Cons c cols)
  from Cons.prems [of c] obtain b where "m c = Some b" "u b = Some c" by auto
  with Cons show ?case by (simp add: List.map_filter_simps)
qed

lemma distribute_own_bubbles:
  assumes cover: "\<And>b col. b \<in> set bs \<Longrightarrow> upperColumn b = Some col \<Longrightarrow>
                    \<exists>pg \<in> set (layout_groups layout). col \<in> set (pg_columns pg)"
  shows "distributeBubblesByPosicaoV2 now bs layout =
         map (\<lambda>pg. \<lparr>dg_groupId = pg_groupId pg, dg_x = pg_x pg, dg_y = pg_y pg,
                     dg_title = pg_title pg,
                     dg_bubbles = List.map_filter (jsmap_get (bubbleByColumn bs)) (pg_columns pg)\<rparr>)
             (layout_groups layout)"
proof -
  have "filter (\<lambda>b. case upperColumn b of
                       Some col \<Rightarrow> \<not> jsset_has (jsset_of_list (concat (map (\<lambda>pg.
                           filter (\<lambda>col. jsmap_get (bubbleByColumn bs) col \<noteq> None) (pg_columns pg))
                           (layout_groups layout)))) col
                     | None \<Rightarrow> False) bs = []"
  proof -
    have "\<And>b col. b \<in> set bs \<Longrightarrow> upperColumn b = Some col \<Longrightarrow>
            jsset_has (jsset_of_list (concat (map (\<lambda>pg.
                           filter (\<lambda>col. jsmap_get (bubbleByColumn bs) col \<noteq> None) (pg_columns pg))
                           (layout_groups layout)))) col"
    proof -
      fix b col
      assume b: "b \<in> set bs" "upperColumn b = Some col"
      from cover [OF b] obtain pg where pg: "pg \<in> set (layout_groups layout)" "col \<in> set (pg_columns pg)"
        by blast
      from bubbleByColumn_complete [OF b] have "jsmap_get (bubbleByColumn bs) col \<noteq> None" .
      with pg show "jsset_has (jsset_of_list (concat (map (\<lambda>pg.
                           filter (\<lambda>col. jsmap_get (bubbleByColumn bs) col \<noteq> None) (pg_columns pg))
                           (layout_groups layout)))) col"
        unfolding jsset_has_def jsset_of_list_def jsset_fold_set by auto
    qed
    then show ?thesis
      by (auto simp add: filter_empty_conv split: option.splits)
  qed
  then show ?thesis
    unfolding distributeBubblesByPosicaoV2_def Let_def
    by (simp only:) simp
qed

lemma encodePosicaoV2_document:
  assumes "distinct (map node_id (groupNodesOf nodes))" "groupNodesOf nodes \<noteq> []"
    and "''__proto__'' \<notin> node_id ` set (groupNodesOf nodes)"
  shows "\<exists>doc. encodePosicaoV2 nodes es viewport = Some doc \<and>
           doc_go doc = map node_id (groupNodesOf nodes) \<and>
           doc_g doc = map (\<lambda>n. (node_id n,
                                 (Math_round (pos_x (position n)), Math_round (pos_y (position n)),
                                  (if node_label (node_data n) = [] then ''Group''
                                   else node_label (node_data n)),
                                  List.map_filter upperColumn (bubblesOf n)))) (groupNodesOf nodes) \<and>
           doc_e doc = Some (map (\<lambda>ed. (source ed, target ed))
                               (filter (\<lambda>ed. source ed \<in> insert ''start-node'' (node_id ` set (groupNodesOf nodes)) \<and>
                                             target ed \<in> insert ''start-node'' (node_id ` set (groupNodesOf nodes)))
                                  es))"
proof -
  have v: "\<And>x. jsset_has (fold (\<lambda>n s. jsset_add s (node_id n)) (groupNodesOf nodes) (jsset_add [] ''start-node'')) x
            \<longleftrightarrow> x \<in> insert ''start-node'' (node_id ` set (groupNodesOf nodes))"
    by (simp add: jsset_has_def validNodeIds_set) (simp add: jsset_add_def)
  show ?thesis
    using assms
    unfolding encodePosicaoV2_def Let_def groupNodesOf_def [symmetric] v
    by (simp add: encode_groups_fold)
qed


lemma getAllBubbles_groupNodesOf:
  "b \<in> set (getAllBubblesFromFlowNodes nodes) \<longleftrightarrow> (\<exists>n \<in> set (groupNodesOf nodes). b \<in> set (bubblesOf n))"
  by (auto simp add: getAllBubbles_member groupNodesOf_def)

lemma getAllBubbles_concat_groups:
  "getAllBubblesFromFlowNodes nodes = concat (map bubblesOf (groupNodesOf nodes))"
  by (induction nodes) (simp_all add: getAllBubblesFromFlowNodes_def bubblesOf_def groupNodesOf_def)

lemma map_filter_concat: "List.map_filter f (concat xss) = concat (map (List.map_filter f) xss)"
  by (induction xss) (simp_all add: List.map_filter_def)

lemma map_filter_unique:
  "distinct (List.map_filter f xs) \<Longrightarrow> x \<in> set xs \<Longrightarrow> y \<in> set xs \<Longrightarrow> f x = Some c \<Longrightarrow> f y = Some c
   \<Longrightarrow> x = y"
proof (induction xs)
  case Nil
  then show ?case by simp
next
  case (Cons z zs)
  have in_names: "c \<in> set (List.map_filter f zs)" if "w \<in> set zs" "f w = Some c" for w
    using that by (auto simp add: List.map_filter_def intro!: image_eqI [of _ _ w])
  show ?case
  proof (cases "f z")
    case None
    with Cons show ?thesis by (auto simp add: List.map_filter_simps)
  next
    case (Some c')
    with Cons.prems(1) have d: "c' \<notin> set (List.map_filter f zs)" "distinct (List.map_filter f zs)"
      by (simp_all add: List.map_filter_simps)
    show ?thesis
    proof (cases "x = z \<or> y = z")
      case True
      then show ?thesis
        using Cons.prems(2-5) Some d(1) in_names by auto
    next
      case False
      with Cons.prems have "x \<in> set zs" "y \<in> set zs" by auto
      from Cons.IH [OF d(2) this Cons.prems(4,5)] show ?thesis .
    qed
  qed
qed

lemma bubbleByColumn_fold_member:
  assumes "\<And>col b. map_of m col = Some b \<Longrightarrow> b \<in> S \<union> set bs"
    and "map_of (fold (\<lambda>b m. case upperColumn b of Some col \<Rightarrow> jsmap_set m col b | None \<Rightarrow> m) bs m) col
         = Some b"
  shows "b \<in> S \<union> set bs"
  using assms
proof (induction bs arbitrary: m S)
  case Nil
  then show ?case by simp
next
  case (Cons a bs)
  have "b \<in> (insert a S) \<union> set bs"
  proof (rule Cons.IH [OF _ Cons.prems(2) [simplified]])
    fix col' b'
    assume "map_of (case upperColumn a of None \<Rightarrow> m | Some col \<Rightarrow> jsmap_set m col a) col' = Some b'"
    then show "b' \<in> insert a S \<union> set bs"
      using Cons.prems(1) by (auto simp add: map_of_jsmap_set split: option.splits if_splits)
  qed
  then show ?case by auto
qed

lemma bubbleByColumn_member:
  "jsmap_get (bubbleByColumn bs) col = Some b \<Longrightarrow> b \<in> set bs"
  using bubbleByColumn_fold_member [of "[]" "{}" bs col b]
  by (simp add: bubbleByColumn_def jsmap_get_def)

lemma bubbleByColumn_unique:
  assumes "distinct (List.map_filter upperColumn bs)" "b \<in> set bs" "upperColumn b = Some col"
  shows "jsmap_get (bubbleByColumn bs) col = Some b"
proof -
  from bubbleByColumn_complete [OF assms(2,3)] obtain b' where
    b': "jsmap_get (bubbleByColumn bs) col = Some b'" by blast
  from bubbleByColumn_member [OF b'] bubbleByColumn_sound [OF b']
  have "b' \<in> set bs" "upperColumn b' = Some col" by simp_all
  from map_filter_unique [OF assms(1) this(1) assms(2) this(2) assms(3)] b'
  show ?thesis by simp
qed

lemma restore_steps:
  assumes "\<And>b. b \<in> set xs \<Longrightarrow> upperColumn b \<noteq> None \<Longrightarrow> m (the (upperColumn b)) = Some b"
  shows "List.map_filter m (List.map_filter upperColumn xs) = filter (\<lambda>b. upperColumn b \<noteq> None) xs"
  using assms
proof (induction xs)
  case Nil
  then show ?case by (simp add: List.map_filter_simps)
next
  case (Cons x xs)
  have ih: "List.map_filter m (List.map_filter upperColumn xs) = filter (\<lambda>b. upperColumn b \<noteq> None) xs"
    by (rule Cons.IH) (simp add: Cons.prems)
  show ?case
  proof (cases "upperColumn x")
    case None
    with ih show ?thesis by (simp add: List.map_filter_simps)
  next
    case (Some a)
    with Cons.prems [of x] have "m a = Some x" by simp
    with ih Some show ?thesis by (simp add: List.map_filter_simps)
  qed
qed

text \<open>
  Claim C2, as the code has it. A flow with no group has no snapshot. For a flow with at
  least one group, unique group ids and no group called \<open>__proto__\<close>, the snapshot round trip
  (\<open>encodePosicaoV2\<close>, \<open>parsePosicaoV2\<close>, \<open>distributeBubblesByPosicaoV2\<close> against the flow's
  own steps) returns the groups in their order with their ids, their positions rounded to the
  nearest integers, their titles with the empty title replaced by \<open>Group\<close>, in each group
  one step for each step that has a slot name, in order, under the same upper-cased name, and
  the (source, target) pairs of the edges between the start node and the groups, in order.
  When no two steps of the flow share an upper-cased slot name, each group gets back exactly
  its steps that have a slot name, in their order. No bound on the number of steps is needed.
\<close>

theorem snapshot_round_trip:
  "(restoreLayout now nodes es viewport = None \<longleftrightarrow> groupNodesOf nodes = []) \<and>
   (groupNodesOf nodes \<noteq> [] \<and> distinct (map node_id (groupNodesOf nodes)) \<and>
    ''__proto__'' \<notin> node_id ` set (groupNodesOf nodes) \<longrightarrow>
      (\<exists>layout result.
         restoreLayout now nodes es viewport = Some (layout, result) \<and>
         map dg_groupId result = map node_id (groupNodesOf nodes) \<and>
         map (\<lambda>d. (dg_x d, dg_y d)) result = map roundedPosition (groupNodesOf nodes) \<and>
         map dg_title result = map snapshotTitle (groupNodesOf nodes) \<and>
         map (\<lambda>d. map upperColumn (dg_bubbles d)) result =
           map (\<lambda>n. map Some (slotNames n)) (groupNodesOf nodes) \<and>
         layout_edges layout = map (\<lambda>ed. (source ed, target ed)) (filter (validEdge nodes) es) \<and>
         (distinct (concat (map slotNames (groupNodesOf nodes))) \<longrightarrow>
            map dg_bubbles result = map slottedSteps (groupNodesOf nodes))))"
proof
  show "restoreLayout now nodes es viewport = None \<longleftrightarrow> groupNodesOf nodes = []"
    by (simp add: restoreLayout_def encodePosicaoV2_def Let_def groupNodesOf_def)
next
  show "groupNodesOf nodes \<noteq> [] \<and> distinct (map node_id (groupNodesOf nodes)) \<and>
    ''__proto__'' \<notin> node_id ` set (groupNodesOf nodes) \<longrightarrow>
      (\<exists>layout result.
         restoreLayout now nodes es viewport = Some (layout, result) \<and>
         map dg_groupId result = map node_id (groupNodesOf nodes) \<and>
         map (\<lambda>d. (dg_x d, dg_y d)) result = map roundedPosition (groupNodesOf nodes) \<and>
         map dg_title result = map snapshotTitle (groupNodesOf nodes) \<and>
         map (\<lambda>d. map upperColumn (dg_bubbles d)) result =
           map (\<lambda>n. map Some (slotNames n)) (groupNodesOf nodes) \<and>
         layout_edges layout = map (\<lambda>ed. (source ed, target ed)) (filter (validEdge nodes) es) \<and>
         (distinct (concat (map slotNames (groupNodesOf nodes))) \<longrightarrow>
            map dg_bubbles result = map slottedSteps (groupNodesOf nodes)))"
  proof
    assume hyp: "groupNodesOf nodes \<noteq> [] \<and> distinct (map node_id (groupNodesOf nodes)) \<and>
                 ''__proto__'' \<notin> node_id ` set (groupNodesOf nodes)"
    then have ne: "groupNodesOf nodes \<noteq> []" and dist: "distinct (map node_id (groupNodesOf nodes))"
      and plain: "''__proto__'' \<notin> node_id ` set (groupNodesOf nodes)"
      by simp_all
    let ?gs = "groupNodesOf nodes"
    let ?bs = "getAllBubblesFromFlowNodes nodes"
    from encodePosicaoV2_document [OF dist ne plain, of es viewport] obtain doc where
      enc: "encodePosicaoV2 nodes es viewport = Some doc" and
      go: "doc_go doc = map node_id ?gs" and
      g: "doc_g doc = map (\<lambda>n. (node_id n,
                                   (Math_round (pos_x (position n)), Math_round (pos_y (position n)),
                                    (if node_label (node_data n) = [] then ''Group''
                                     else node_label (node_data n)),
                                    List.map_filter upperColumn (bubblesOf n)))) ?gs" and
      e: "doc_e doc = Some (map (\<lambda>ed. (source ed, target ed))
                                 (filter (\<lambda>ed. source ed \<in> insert ''start-node'' (node_id ` set ?gs) \<and>
                                               target ed \<in> insert ''start-node'' (node_id ` set ?gs))
                                    es))"
      by blast
    let ?layout = "parsePosicaoV2 doc"
    have groups: "layout_groups ?layout =
        map (\<lambda>n. \<lparr>pg_groupId = node_id n, pg_x = Math_round (pos_x (position n)),
                   pg_y = Math_round (pos_y (position n)), pg_title = snapshotTitle n,
                   pg_columns = slotNames n\<rparr>) ?gs"
      using parse_groups [OF dist subset_refl,
          of "\<lambda>i (x, y, title, columns). \<lparr>pg_groupId = i, pg_x = x, pg_y = y, pg_title = title,
                                           pg_columns = columns\<rparr>"
             "\<lambda>n. (Math_round (pos_x (position n)), Math_round (pos_y (position n)),
                    (if node_label (node_data n) = [] then ''Group'' else node_label (node_data n)),
                    List.map_filter upperColumn (bubblesOf n))"]
      by (simp add: parsePosicaoV2_def go g snapshotTitle_def slotNames_def)
    have edges: "layout_edges ?layout = map (\<lambda>ed. (source ed, target ed)) (filter (validEdge nodes) es)"
    proof -
      have "validEdge nodes =
            (\<lambda>ed. source ed \<in> insert ''start-node'' (node_id ` set ?gs) \<and>
                  target ed \<in> insert ''start-node'' (node_id ` set ?gs))"
        by (auto simp add: fun_eq_iff validEdge_def)
      then show ?thesis by (simp add: parsePosicaoV2_def e)
    qed
    have cover: "\<exists>pg \<in> set (layout_groups ?layout). col \<in> set (pg_columns pg)"
      if "b \<in> set ?bs" "upperColumn b = Some col" for b col
    proof -
      from that(1) obtain n where n: "n \<in> set ?gs" "b \<in> set (bubblesOf n)"
        unfolding getAllBubbles_groupNodesOf by blast
      from n(2) that(2) have "col \<in> set (slotNames n)"
        by (auto simp add: slotNames_def List.map_filter_def intro!: image_eqI [of _ _ b])
      with n(1) show ?thesis unfolding groups by auto
    qed
    have dist_result: "distributeBubblesByPosicaoV2 now ?bs ?layout =
        map (\<lambda>n. \<lparr>dg_groupId = node_id n, dg_x = Math_round (pos_x (position n)),
                   dg_y = Math_round (pos_y (position n)), dg_title = snapshotTitle n,
                   dg_bubbles = List.map_filter (jsmap_get (bubbleByColumn ?bs)) (slotNames n)\<rparr>) ?gs"
    proof -
      have "distributeBubblesByPosicaoV2 now ?bs ?layout =
            map (\<lambda>pg. \<lparr>dg_groupId = pg_groupId pg, dg_x = pg_x pg, dg_y = pg_y pg,
                        dg_title = pg_title pg,
                        dg_bubbles = List.map_filter (jsmap_get (bubbleByColumn ?bs)) (pg_columns pg)\<rparr>)
                (layout_groups ?layout)"
        by (rule distribute_own_bubbles) (rule cover)
      then show ?thesis unfolding groups by (simp add: comp_def)
    qed
    have found: "map upperColumn (List.map_filter (jsmap_get (bubbleByColumn ?bs)) (slotNames n)) =
                 map Some (slotNames n)" if "n \<in> set ?gs" for n
    proof (rule map_filter_all_found)
      fix col
      assume "col \<in> set (slotNames n)"
      then obtain b where b: "b \<in> set (bubblesOf n)" "upperColumn b = Some col"
        by (auto simp add: slotNames_def List.map_filter_def)
      with that have "b \<in> set ?bs" unfolding getAllBubbles_groupNodesOf by blast
      from bubbleByColumn_complete [OF this b(2)] obtain b' where
        b': "jsmap_get (bubbleByColumn ?bs) col = Some b'" by blast
      from bubbleByColumn_sound [OF this] b'
      show "\<exists>b. jsmap_get (bubbleByColumn ?bs) col = Some b \<and> upperColumn b = Some col" by blast
    qed
    have exact: "List.map_filter (jsmap_get (bubbleByColumn ?bs)) (slotNames n) = slottedSteps n"
      if names: "distinct (concat (map slotNames ?gs))" and n: "n \<in> set ?gs" for n
    proof -
      have "slotNames = (\<lambda>n. List.map_filter upperColumn (bubblesOf n))"
        by (simp add: fun_eq_iff slotNames_def)
      then have "concat (map slotNames ?gs) = List.map_filter upperColumn ?bs"
        by (simp add: getAllBubbles_concat_groups map_filter_concat comp_def)
      with names have d: "distinct (List.map_filter upperColumn ?bs)" by simp
      show ?thesis
        unfolding slotNames_def slottedSteps_def
      proof (rule restore_steps)
        fix b
        assume b: "b \<in> set (bubblesOf n)" "upperColumn b \<noteq> None"
        with n have "b \<in> set ?bs" unfolding getAllBubbles_groupNodesOf by blast
        from bubbleByColumn_unique [OF d this, of "the (upperColumn b)"] b(2)
        show "jsmap_get (bubbleByColumn ?bs) (the (upperColumn b)) = Some b" by auto
      qed
    qed
    have r: "restoreLayout now nodes es viewport =
             Some (?layout, distributeBubblesByPosicaoV2 now ?bs ?layout)"
      by (simp add: restoreLayout_def enc)
    have "map dg_groupId (distributeBubblesByPosicaoV2 now ?bs ?layout) = map node_id ?gs"
      unfolding dist_result by (simp add: comp_def)
    moreover have "map (\<lambda>d. (dg_x d, dg_y d)) (distributeBubblesByPosicaoV2 now ?bs ?layout) =
                   map roundedPosition ?gs"
      unfolding dist_result by (simp add: comp_def roundedPosition_def)
    moreover have "map dg_title (distributeBubblesByPosicaoV2 now ?bs ?layout) = map snapshotTitle ?gs"
      unfolding dist_result by (simp add: comp_def)
    moreover have "map (\<lambda>d. map upperColumn (dg_bubbles d)) (distributeBubblesByPosicaoV2 now ?bs ?layout) =
                   map (\<lambda>n. map Some (slotNames n)) ?gs"
      unfolding dist_result using found by (simp add: comp_def)
    moreover have "distinct (concat (map slotNames ?gs)) \<longrightarrow>
                   map dg_bubbles (distributeBubblesByPosicaoV2 now ?bs ?layout) = map slottedSteps ?gs"
      unfolding dist_result using exact by (simp add: comp_def)
    ultimately show "\<exists>layout result.
         restoreLayout now nodes es viewport = Some (layout, result) \<and>
         map dg_groupId result = map node_id (groupNodesOf nodes) \<and>
         map (\<lambda>d. (dg_x d, dg_y d)) result = map roundedPosition (groupNodesOf nodes) \<and>
         map dg_title result = map snapshotTitle (groupNodesOf nodes) \<and>
         map (\<lambda>d. map upperColumn (dg_bubbles d)) result =
           map (\<lambda>n. map Some (slotNames n)) (groupNodesOf nodes) \<and>
         layout_edges layout = map (\<lambda>ed. (source ed, target ed)) (filter (validEdge nodes) es) \<and>
         (distinct (concat (map slotNames (groupNodesOf nodes))) \<longrightarrow>
            map dg_bubbles result = map slottedSteps (groupNodesOf nodes))"
      using r edges by blast
  qed
qed

theorem snapshot_round_trip_witness:
  "groupNodesOf exampleMovedFlow \<noteq> [] \<and> distinct (map node_id (groupNodesOf exampleMovedFlow)) \<and>
   ''__proto__'' \<notin> node_id ` set (groupNodesOf exampleMovedFlow) \<and>
   distinct (concat (map slotNames (groupNodesOf exampleMovedFlow))) \<and>
   (\<exists>layout result.
      restoreLayout 0 exampleMovedFlow exampleMovedEdges None = Some (layout, result) \<and>
      map dg_groupId result = [''g1'', ''g2''] \<and>
      map (\<lambda>d. (dg_x d, dg_y d)) result = [(0, 0), (300, 0)] \<and>
      map dg_title result = [''Group'', ''Group''] \<and>
      map (\<lambda>d. map upperColumn (dg_bubbles d)) result = [[Some ''M3'', Some ''M2''], [Some ''T2'']] \<and>
      layout_edges layout = [(''start-node'', ''g1''), (''g1'', ''g2'')] \<and>
      map (\<lambda>d. map bubble_id (dg_bubbles d)) result = [[''b1'', ''b4''], [''b5'']]) \<and>
   groupNodesOf [exampleStart] = [] \<and> restoreLayout 0 [exampleStart] [] None = None"
proof -
  have h1: "distinct (map node_id (groupNodesOf exampleMovedFlow))" by code_simp
  have h2: "groupNodesOf exampleMovedFlow \<noteq> []" by code_simp
  have h3: "''__proto__'' \<notin> node_id ` set (groupNodesOf exampleMovedFlow)" by code_simp
  have h4: "distinct (concat (map slotNames (groupNodesOf exampleMovedFlow)))" by code_simp
  have h5: "groupNodesOf [exampleStart] = []" by code_simp
  have v1: "map node_id (groupNodesOf exampleMovedFlow) = [''g1'', ''g2'']" by code_simp
  have v2: "map roundedPosition (groupNodesOf exampleMovedFlow) = [(0, 0), (300, 0)]" by code_simp
  have v3: "map snapshotTitle (groupNodesOf exampleMovedFlow) = [''Group'', ''Group'']" by code_simp
  have v4: "map (\<lambda>n. map Some (slotNames n)) (groupNodesOf exampleMovedFlow) =
            [[Some ''M3'', Some ''M2''], [Some ''T2'']]" by code_simp
  have v5: "map (\<lambda>ed. (source ed, target ed)) (filter (validEdge exampleMovedFlow) exampleMovedEdges) =
            [(''start-node'', ''g1''), (''g1'', ''g2'')]" by code_simp
  have v6: "map (map bubble_id) (map slottedSteps (groupNodesOf exampleMovedFlow)) = [[''b1'', ''b4''], [''b5'']]"
    by code_simp
  from snapshot_round_trip [of 0 exampleMovedFlow exampleMovedEdges None] h1 h2 h3 h4
  obtain layout result where r:
    "restoreLayout 0 exampleMovedFlow exampleMovedEdges None = Some (layout, result)"
    "map dg_groupId result = map node_id (groupNodesOf exampleMovedFlow)"
    "map (\<lambda>d. (dg_x d, dg_y d)) result = map roundedPosition (groupNodesOf exampleMovedFlow)"
    "map dg_title result = map snapshotTitle (groupNodesOf exampleMovedFlow)"
    "map (\<lambda>d. map upperColumn (dg_bubbles d)) result =
       map (\<lambda>n. map Some (slotNames n)) (groupNodesOf exampleMovedFlow)"
    "layout_edges layout = map (\<lambda>ed. (source ed, target ed)) (filter (validEdge exampleMovedFlow) exampleMovedEdges)"
    "map dg_bubbles result = map slottedSteps (groupNodesOf exampleMovedFlow)"
    by blast
  from r(7) have "map (map bubble_id) (map dg_bubbles result) = [[''b1'', ''b4''], [''b5'']]"
    by (simp only: v6)
  then have ids: "map (\<lambda>d. map bubble_id (dg_bubbles d)) result = [[''b1'', ''b4''], [''b5'']]"
    by (simp add: comp_def)
  from snapshot_round_trip [of 0 "[exampleStart]" "[]" None] h5
  have none: "restoreLayout 0 [exampleStart] [] None = None" by blast
  from r(1-6) ids have ex: "\<exists>layout result.
      restoreLayout 0 exampleMovedFlow exampleMovedEdges None = Some (layout, result) \<and>
      map dg_groupId result = [''g1'', ''g2''] \<and>
      map (\<lambda>d. (dg_x d, dg_y d)) result = [(0, 0), (300, 0)] \<and>
      map dg_title result = [''Group'', ''Group''] \<and>
      map (\<lambda>d. map upperColumn (dg_bubbles d)) result = [[Some ''M3'', Some ''M2''], [Some ''T2'']] \<and>
      layout_edges layout = [(''start-node'', ''g1''), (''g1'', ''g2'')] \<and>
      map (\<lambda>d. map bubble_id (dg_bubbles d)) result = [[''b1'', ''b4''], [''b5'']]"
    unfolding v1 v2 v3 v4 v5 by (intro exI [of _ layout] exI [of _ result] conjI)
  show ?thesis
    by (intro conjI) (rule h2 h1 h3 h4 ex h5 none)+
qed

text \<open>
  Claim C2, as stated, fails: a group at \<open>(120.5, 80)\<close> comes back at \<open>(121, 80)\<close>, because the
  snapshot stores \<open>Math.round\<close> of the coordinates.
\<close>

theorem snapshot_position_counterexample:
  "map_option (\<lambda>(layout, result). map (\<lambda>d. (dg_x d, dg_y d)) result)
     (restoreLayout 0 exampleHalfFlow [] None) = Some [(121, 80)] \<and>
   map (\<lambda>n. (pos_x (position n), pos_y (position n))) (groupNodesOf exampleHalfFlow) = [(241 / 2, 80)]"
  by code_simp

section \<open>Splitting, joining and trimming\<close>

lemma startsWith_append: "startsWith (p @ q) (p @ s) = startsWith q s"
  by (simp add: startsWith_def)

lemma js_split_nonempty: "js_split c s \<noteq> []"
  by (induction s) (auto split: list.splits)

lemma js_split_append: "js_split c (a @ c # b) = js_split c a @ js_split c b"
proof (induction a)
  case Nil
  then show ?case by simp
next
  case (Cons x a)
  then show ?case
    using js_split_nonempty [of c a] by (cases "js_split c a") (auto split: list.splits)
qed

lemma js_split_none: "c \<notin> set s \<Longrightarrow> js_split c s = [s]"
  by (induction s) auto

lemma js_join_split: "js_join [c] (js_split c s) = s"
proof (induction s)
  case Nil
  then show ?case by simp
next
  case (Cons x s)
  show ?case
  proof (cases "x = c")
    case True
    with Cons js_split_nonempty [of c s] show ?thesis by (cases "js_split c s") auto
  next
    case False
    from js_split_nonempty [of c s] obtain w ws where w: "js_split c s = w # ws"
      by (cases "js_split c s") auto
    with Cons False show ?thesis by (cases ws) auto
  qed
qed

lemma js_split_join:
  "xs \<noteq> [] \<Longrightarrow> \<forall>x \<in> set xs. c \<notin> set x \<Longrightarrow> js_split c (js_join [c] xs) = xs"
proof (induction xs)
  case Nil
  then show ?case by simp
next
  case (Cons x xs)
  show ?case
  proof (cases xs)
    case Nil
    with Cons.prems show ?thesis by (simp add: js_split_none)
  next
    case (Cons y ys)
    with Cons.IH Cons.prems have ih: "js_split c (js_join [c] (y # ys)) = y # ys" by simp
    have "js_split c (x @ c # js_join [c] (y # ys)) = js_split c x @ js_split c (js_join [c] (y # ys))"
      by (simp only: js_split_append)
    with ih Cons.prems Cons show ?thesis by (simp add: js_split_none)
  qed
qed

lemma js_trim_Nil: "js_trim [] = []"
  by (simp add: js_trim_def)

lemma js_trim_clean:
  "s \<noteq> [] \<Longrightarrow> \<not> isWhiteSpace (hd s) \<Longrightarrow> endsClean (s @ t) \<Longrightarrow> js_trim (s @ t) = s @ t"
  by (rule js_trim_no_space) (auto simp add: endsClean_def)

lemma js_trim_trailing_space:
  assumes "s \<noteq> []" "\<not> isWhiteSpace (hd s)" "\<not> isWhiteSpace (last s)"
  shows "js_trim (s @ '' '') = s"
proof -
  from assms have 1: "dropWhile isWhiteSpace (s @ '' '') = s @ '' ''"
    by (cases s) auto
  have 2: "dropWhile isWhiteSpace (rev (s @ '' '')) = rev s"
    using assms by (cases "rev s") (auto simp add: isWhiteSpace_def last_rev [symmetric] hd_rev)
  show ?thesis by (simp only: js_trim_def 1 2 rev_rev_ident)
qed

lemma show_nat_nonempty: "show_nat n \<noteq> []"
  using show_nat_length_pos [of n] by auto

lemma show_nat_free: "\<not> isDigit c \<Longrightarrow> c \<notin> set (show_nat n)"
  using show_nat_digits [of n] by (auto simp add: list_all_iff)

lemma js_trim_show_nat: "js_trim (show_nat n) = show_nat n"
proof (rule js_trim_no_space)
  show "show_nat n \<noteq> []" by (rule show_nat_nonempty)
  have "hd (show_nat n) \<in> set (show_nat n)" "last (show_nat n) \<in> set (show_nat n)"
    using show_nat_nonempty [of n] by auto
  then have "isDigit (hd (show_nat n))" "isDigit (last (show_nat n))"
    using show_nat_digits [of n] by (auto simp add: list_all_iff)
  then show "\<not> isWhiteSpace (hd (show_nat n))" "\<not> isWhiteSpace (last (show_nat n))"
    by (auto dest: isDigit_not_space)
qed

lemma js_Number_show_nat: "js_Number (show_nat n) = Some (int n)"
proof -
  obtain c ds where s: "show_nat n = c # ds"
    using show_nat_nonempty [of n] by (cases "show_nat n") auto
  have d: "list_all isDigit (c # ds)" using show_nat_digits [of n] s by simp
  then have "isDigit c" by simp
  then have "c \<noteq> CHR ''-''" "c \<noteq> CHR ''+''" by (auto simp add: isDigit_def)
  with d show ?thesis
    using digits_value_show_nat [of n]
    by (simp add: js_Number_def js_trim_show_nat Let_def s [symmetric]) (simp add: s)
qed


lemma endsClean_append: "p \<noteq> [] \<Longrightarrow> \<not> isWhiteSpace (last p) \<Longrightarrow> endsClean c \<Longrightarrow> endsClean (p @ c)"
  by (auto simp add: endsClean_def last_append)

lemma js_join_last:
  "xs \<noteq> [] \<Longrightarrow> last xs \<noteq> [] \<Longrightarrow> js_join sep xs \<noteq> [] \<and> last (js_join sep xs) = last (last xs)"
  by (induction sep xs rule: js_join.induct) auto

lemma withIds_fields:
  assumes "\<And>i r. r \<in> set rs \<Longrightarrow> proj (parse i (ser r)) = g r"
  shows "map proj (withIds uuidv4 parse (map ser rs)) = map g rs"
proof (rule nth_equalityI)
  show "length (map proj (withIds uuidv4 parse (map ser rs))) = length (map g rs)"
    by (simp add: withIds_def)
next
  fix i
  assume "i < length (map proj (withIds uuidv4 parse (map ser rs)))"
  then have i: "i < length rs" by (simp add: withIds_def)
  then have "rs ! i \<in> set rs" by simp
  from assms [OF this] i
  show "map proj (withIds uuidv4 parse (map ser rs)) ! i = map g rs ! i"
    by (simp add: withIds_def)
qed

lemma startsWith_longer: "\<not> startsWith p u \<Longrightarrow> \<not> startsWith (p @ q) u"
proof
  assume a: "\<not> startsWith p u" and b: "startsWith (p @ q) u"
  from b have "take (length p) (take (length (p @ q)) u) = take (length p) (p @ q)"
    by (simp only: startsWith_def)
  then have "take (length p) u = p" by (simp add: min_def)
  with a show False by (simp add: startsWith_def)
qed

section \<open>Decoding an encoded step\<close>

lemma round_trip_via:
  assumes "buildSupabaseValueForBubble availableFlows b = v" "v \<noteq> []" "js_trim v = v"
    and "decodeValue uuidv4 v columnName = b'" "bubble_type b' = bubble_type b"
    and "payloadOf b' = payloadOf b"
  shows "\<exists>b'. parseColumnValue uuidv4 (Some (buildSupabaseValueForBubble availableFlows b)) columnName = Some b' \<and>
              bubble_type b' = bubble_type b \<and> payloadOf b' = payloadOf b"
  using assms by (simp add: parseColumnValue_def Let_def)

lemma round_trip_Message:
  assumes ty: "bubble_type b = Message" and wf: "wellFormedPayload b"
  shows "\<exists>b'. parseColumnValue uuidv4 (Some (buildSupabaseValueForBubble availableFlows b)) columnName = Some b' \<and>
              bubble_type b' = bubble_type b \<and> payloadOf b' = payloadOf b"
proof -
  from wf obtain c where c: "content (bubble_data b) = Some c" "\<not> startsWith ''UTM-'' c"
      "\<not> startsWith ''TEMPO-'' c" "endsClean c"
    by (simp add: wellFormedPayload_def Let_def ty split: option.splits)
  show ?thesis
  proof (rule round_trip_via [where v = "''MSG-'' @ c"])
    show "buildSupabaseValueForBubble availableFlows b = ''MSG-'' @ c"
      by (simp add: buildSupabaseValueForBubble_def ty c NODE_PREFIXES_def orEmpty_def Let_def)
    show "''MSG-'' @ c \<noteq> []" by simp
    show "js_trim (''MSG-'' @ c) = ''MSG-'' @ c"
      by (intro js_trim_clean endsClean_append c) (simp_all add: isWhiteSpace_def)
    show "decodeValue uuidv4 (''MSG-'' @ c) columnName =
             \<lparr>bubble_id = uuidv4 0, bubble_type = Message,
              bubble_data = (initialData columnName)\<lparr>label := NODE_LABELS Message, content := Some c\<rparr>\<rparr>"
      using c(2,3) by (simp add: decodeValue_def startsWith_def Let_def)
  qed (simp_all add: payloadOf_def ty c)
qed

lemma round_trip_Photo:
  assumes ty: "bubble_type b = Photo" and wf: "wellFormedPayload b"
  shows "\<exists>b'. parseColumnValue uuidv4 (Some (buildSupabaseValueForBubble availableFlows b)) columnName = Some b' \<and>
              bubble_type b' = bubble_type b \<and> payloadOf b' = payloadOf b"
proof -
  from wf obtain u where u: "mediaUrl (bubble_data b) = Some u" "\<not> startsWith ''C-'' u" "endsClean u"
    by (simp add: wellFormedPayload_def Let_def ty split: option.splits)
  from u(2) have long: "\<not> startsWith (''C-'' @ ''T;'') u" "\<not> startsWith (''C-'' @ ''T-'') u"
    by (rule startsWith_longer)+
  show ?thesis
  proof (rule round_trip_via [where v = "''FT-'' @ u"])
    show "buildSupabaseValueForBubble availableFlows b = ''FT-'' @ u"
      by (simp add: buildSupabaseValueForBubble_def ty u NODE_PREFIXES_def orEmpty_def Let_def)
    show "''FT-'' @ u \<noteq> []" by simp
    show "js_trim (''FT-'' @ u) = ''FT-'' @ u"
      by (intro js_trim_clean endsClean_append u) (simp_all add: isWhiteSpace_def)
    show "decodeValue uuidv4 (''FT-'' @ u) columnName =
             \<lparr>bubble_id = uuidv4 0, bubble_type = Photo,
              bubble_data = (initialData columnName)\<lparr>label := NODE_LABELS Photo, mediaUrl := Some u\<rparr>\<rparr>"
      using u(2) long by (simp add: decodeValue_def startsWith_def Let_def)
  qed (simp_all add: payloadOf_def ty u)
qed

lemma round_trip_Video:
  assumes ty: "bubble_type b = Video" and wf: "wellFormedPayload b"
  shows "\<exists>b'. parseColumnValue uuidv4 (Some (buildSupabaseValueForBubble availableFlows b)) columnName = Some b' \<and>
              bubble_type b' = bubble_type b \<and> payloadOf b' = payloadOf b"
proof -
  from wf obtain u where u: "mediaUrl (bubble_data b) = Some u" "\<not> startsWith ''C-'' u" "endsClean u"
    by (simp add: wellFormedPayload_def Let_def ty split: option.splits)
  from u(2) have long: "\<not> startsWith (''C-'' @ ''T;'') u" "\<not> startsWith (''C-'' @ ''T-'') u"
    by (rule startsWith_longer)+
  show ?thesis
  proof (rule round_trip_via [where v = "''VD-'' @ u"])
    show "buildSupabaseValueForBubble availableFlows b = ''VD-'' @ u"
      by (simp add: buildSupabaseValueForBubble_def ty u NODE_PREFIXES_def orEmpty_def Let_def)
    show "''VD-'' @ u \<noteq> []" by simp
    show "js_trim (''VD-'' @ u) = ''VD-'' @ u"
      by (intro js_trim_clean endsClean_append u) (simp_all add: isWhiteSpace_def)
    show "decodeValue uuidv4 (''VD-'' @ u) columnName =
             \<lparr>bubble_id = uuidv4 0, bubble_type = Video,
              bubble_data = (initialData columnName)\<lparr>label := NODE_LABELS Video, mediaUrl := Some u\<rparr>\<rparr>"
      using u(2) long by (simp add: decodeValue_def startsWith_def Let_def)
  qed (simp_all add: payloadOf_def ty u)
qed

lemma round_trip_Audio:
  assumes ty: "bubble_type b = Audio" and wf: "wellFormedPayload b"
  shows "\<exists>b'. parseColumnValue uuidv4 (Some (buildSupabaseValueForBubble availableFlows b)) columnName = Some b' \<and>
              bubble_type b' = bubble_type b \<and> payloadOf b' = payloadOf b"
proof -
  from wf obtain u where u: "mediaUrl (bubble_data b) = Some u" "endsClean u"
    by (simp add: wellFormedPayload_def Let_def ty split: option.splits)
  show ?thesis
  proof (rule round_trip_via [where v = "''AU-'' @ u"])
    show "buildSupabaseValueForBubble availableFlows b = ''AU-'' @ u"
      by (simp add: buildSupabaseValueForBubble_def ty u NODE_PREFIXES_def orEmpty_def Let_def)
    show "''AU-'' @ u \<noteq> []" by simp
    show "js_trim (''AU-'' @ u) = ''AU-'' @ u"
      by (intro js_trim_clean endsClean_append u) (simp_all add: isWhiteSpace_def)
    show "decodeValue uuidv4 (''AU-'' @ u) columnName =
             \<lparr>bubble_id = uuidv4 0, bubble_type = Audio,
              bubble_data = (initialData columnName)\<lparr>label := NODE_LABELS Audio, mediaUrl := Some u\<rparr>\<rparr>"
      by (simp add: decodeValue_def startsWith_def Let_def)
  qed (simp_all add: payloadOf_def ty u)
qed

lemma round_trip_LeadRespond:
  assumes ty: "bubble_type b = LeadRespond"
  shows "\<exists>b'. parseColumnValue uuidv4 (Some (buildSupabaseValueForBubble availableFlows b)) columnName = Some b' \<and>
              bubble_type b' = bubble_type b \<and> payloadOf b' = payloadOf b"
proof (rule round_trip_via [where v = "''LD''"])
  show "buildSupabaseValueForBubble availableFlows b = ''LD''"
    by (simp add: buildSupabaseValueForBubble_def ty NODE_PREFIXES_def Let_def)
  show "js_trim ''LD'' = ''LD''" by (rule js_trim_no_space) (simp_all add: isWhiteSpace_def)
  show "decodeValue uuidv4 ''LD'' columnName =
          \<lparr>bubble_id = uuidv4 0, bubble_type = LeadRespond,
           bubble_data = (initialData columnName)\<lparr>label := NODE_LABELS LeadRespond\<rparr>\<rparr>"
    by (simp add: decodeValue_def startsWith_def Let_def)
qed (simp_all add: payloadOf_def ty)

lemma round_trip_LinkPix:
  assumes ty: "bubble_type b = LinkPix"
  shows "\<exists>b'. parseColumnValue uuidv4 (Some (buildSupabaseValueForBubble availableFlows b)) columnName = Some b' \<and>
              bubble_type b' = bubble_type b \<and> payloadOf b' = payloadOf b"
proof (rule round_trip_via [where v = "''LK-PIX''"])
  show "buildSupabaseValueForBubble availableFlows b = ''LK-PIX''"
    by (simp add: buildSupabaseValueForBubble_def ty NODE_PREFIXES_def Let_def)
  show "js_trim ''LK-PIX'' = ''LK-PIX''" by (rule js_trim_no_space) (simp_all add: isWhiteSpace_def)
  show "decodeValue uuidv4 ''LK-PIX'' columnName =
          \<lparr>bubble_id = uuidv4 0, bubble_type = LinkPix,
           bubble_data = (initialData columnName)\<lparr>label := NODE_LABELS LinkPix\<rparr>\<rparr>"
    by (simp add: decodeValue_def startsWith_def Let_def)
qed (simp_all add: payloadOf_def ty)

lemma round_trip_Time:
  assumes ty: "bubble_type b = Time" and wf: "wellFormedPayload b"
  shows "\<exists>b'. parseColumnValue uuidv4 (Some (buildSupabaseValueForBubble availableFlows b)) columnName = Some b' \<and>
              bubble_type b' = bubble_type b \<and> payloadOf b' = payloadOf b"
proof -
  from wf obtain x y where xy: "timeMin (bubble_data b) = Some x" "timeMax (bubble_data b) = Some y"
      "0 \<le> x" "0 \<le> y"
    by (simp add: wellFormedPayload_def Let_def ty split: option.splits)
  define m n where "m = nat x" and "n = nat y"
  with xy have mn: "x = int m" "y = int n" by simp_all
  let ?v = "''T-'' @ show_nat m @ ''-'' @ show_nat n"
  have lastd: "\<not> isWhiteSpace (last (show_nat n))"
    using show_nat_digits [of n] show_nat_nonempty [of n]
    by (auto simp add: list_all_iff dest!: isDigit_not_space)
  have nd: "CHR ''-'' \<notin> set (show_nat m)" "CHR ''-'' \<notin> set (show_nat n)"
    by (rule show_nat_free; simp add: isDigit_def)+
  have sp: "js_split CHR ''-'' (show_nat m @ CHR ''-'' # show_nat n) = [show_nat m, show_nat n]"
    by (simp only: js_split_append js_split_none [OF nd(1)] js_split_none [OF nd(2)]) simp
  have pair: "parseTimePair (show_nat m @ CHR ''-'' # show_nat n) = (int m, int n)"
    by (simp add: parseTimePair_def sp js_Number_show_nat Let_def)
  show ?thesis
  proof (rule round_trip_via [where v = ?v])
    show "buildSupabaseValueForBubble availableFlows b = ?v"
      by (simp add: buildSupabaseValueForBubble_def ty xy mn NODE_PREFIXES_def show_int_def Let_def)
    show "?v \<noteq> []" by simp
    show "js_trim ?v = ?v"
      by (rule js_trim_no_space) (use lastd show_nat_nonempty [of n] in \<open>simp_all add: isWhiteSpace_def\<close>)
    show "decodeValue uuidv4 ?v columnName =
             \<lparr>bubble_id = uuidv4 0, bubble_type = Time,
              bubble_data = (initialData columnName)
                \<lparr>label := NODE_LABELS Time, timeMin := Some (int m), timeMax := Some (int n)\<rparr>\<rparr>"
      using pair by (simp add: decodeValue_def startsWith_def Let_def)
  qed (simp_all add: payloadOf_def ty xy mn)
qed


lemma round_trip_MessageUtm:
  assumes ty: "bubble_type b = MessageUtm" and wf: "wellFormedPayload b"
  shows "\<exists>b'. parseColumnValue uuidv4 (Some (buildSupabaseValueForBubble availableFlows b)) columnName = Some b' \<and>
              bubble_type b' = bubble_type b \<and> payloadOf b' = payloadOf b"
proof -
  from wf obtain c u where cu: "content (bubble_data b) = Some c" "utm (bubble_data b) = Some u"
      "c \<noteq> []" "startsClean c" "u \<noteq> []" "CHR '' '' \<notin> set u" "endsClean u"
    by (simp add: wellFormedPayload_def Let_def ty split: option.splits)
  let ?w = "c @ CHR '' '' # u"
  have w: "js_trim ?w = ?w"
    by (rule js_trim_no_space) (use cu in \<open>simp_all add: startsClean_def endsClean_def\<close>)
  have ew: "endsClean ?w" using cu by (simp add: endsClean_def)
  have sp: "js_split CHR '' '' ?w = js_split CHR '' '' c @ [u]"
    by (simp only: js_split_append js_split_none [OF cu(6)])
  have j: "js_join '' '' (js_split CHR '' '' c) = c" by (rule js_join_split)
  have len: "1 < length (js_split CHR '' '' c @ [u])"
    using js_split_nonempty [of "CHR '' ''" c] by (cases "js_split CHR '' '' c") simp_all
  show ?thesis
  proof (rule round_trip_via [where v = "''MSG-UTM-'' @ ?w"])
    show "buildSupabaseValueForBubble availableFlows b = ''MSG-UTM-'' @ ?w"
      using w by (simp add: buildSupabaseValueForBubble_def ty cu NODE_PREFIXES_def orEmpty_def Let_def)
    show "''MSG-UTM-'' @ ?w \<noteq> []" by simp
    show "js_trim (''MSG-UTM-'' @ ?w) = ''MSG-UTM-'' @ ?w"
      by (intro js_trim_clean endsClean_append ew) (simp_all add: isWhiteSpace_def)
    show "decodeValue uuidv4 (''MSG-UTM-'' @ ?w) columnName =
             \<lparr>bubble_id = uuidv4 0, bubble_type = MessageUtm,
              bubble_data = (initialData columnName)
                \<lparr>label := NODE_LABELS MessageUtm, content := Some c, utm := Some u\<rparr>\<rparr>"
      using len cu(3) by (simp add: decodeValue_def startsWith_def Let_def sp j)
  qed (simp_all add: payloadOf_def ty cu)
qed

lemma startsWith_two_space:
  "u \<noteq> [] \<Longrightarrow> \<not> startsWith [x, y] u \<Longrightarrow> y \<noteq> CHR '' '' \<Longrightarrow> \<not> startsWith [x, y] (u @ CHR '' '' # c)"
  by (cases u; cases "tl u") (auto simp add: startsWith_def)

lemma captioned_value:
  assumes wf: "wellFormedCaptioned d"
  obtains u c w where "mediaUrl d = Some u" "caption d = Some c"
    "js_trim (orEmpty (mediaUrl d) @ '' '' @ orEmpty (caption d)) = w" "w \<noteq> []" "endsClean w"
    "\<not> startsWith ''T;'' w" "\<not> startsWith ''T-'' w"
    "partOr (js_split CHR '' '' w) 0 [] = u" "js_join '' '' (drop 1 (js_split CHR '' '' w)) = c"
proof -
  from wf obtain u c where uc: "mediaUrl d = Some u" "caption d = Some c" "u \<noteq> []"
      "list_all (\<lambda>ch. \<not> isWhiteSpace ch) u" "\<not> startsWith ''T;'' u" "\<not> startsWith ''T-'' u" "endsClean c"
    by (simp add: wellFormedCaptioned_def split: option.splits)
  from uc(3,4) have hu: "\<not> isWhiteSpace (hd u)" "\<not> isWhiteSpace (last u)"
    by (simp_all add: list_all_iff)
  have nsp: "CHR '' '' \<notin> set u"
    using uc(4) by (auto simp add: list_all_iff isWhiteSpace_def)
  show thesis
  proof (cases "c = []")
    case True
    have "js_trim (orEmpty (mediaUrl d) @ '' '' @ orEmpty (caption d)) = u"
      using js_trim_trailing_space [OF uc(3) hu] by (simp add: uc True orEmpty_def)
    moreover have "endsClean u" using hu by (simp add: endsClean_def)
    moreover have "partOr (js_split CHR '' '' u) 0 [] = u"
      using uc(3) by (simp add: js_split_none [OF nsp] partOr_def)
    moreover have "js_join '' '' (drop 1 (js_split CHR '' '' u)) = c"
      by (simp add: js_split_none [OF nsp] True)
    ultimately show thesis using uc by (intro that [of u c u]) simp_all
  next
    case False
    let ?w = "u @ CHR '' '' # c"
    have "js_trim ?w = ?w"
      by (rule js_trim_no_space) (use uc hu False in \<open>simp_all add: endsClean_def\<close>)
    then have 1: "js_trim (orEmpty (mediaUrl d) @ '' '' @ orEmpty (caption d)) = ?w"
      by (simp add: uc orEmpty_def)
    have 2: "endsClean ?w" using uc(7) False by (simp add: endsClean_def)
    have sp: "js_split CHR '' '' ?w = u # js_split CHR '' '' c"
      by (simp only: js_split_append js_split_none [OF nsp]) simp
    have 3: "partOr (js_split CHR '' '' ?w) 0 [] = u"
      using uc(3) by (simp add: sp partOr_def)
    have 4: "js_join '' '' (drop 1 (js_split CHR '' '' ?w)) = c"
      by (simp add: sp js_join_split)
    have 5: "\<not> startsWith ''T;'' ?w" "\<not> startsWith ''T-'' ?w"
      using startsWith_two_space [OF uc(3), of "CHR ''T''" "CHR '';''" c]
        startsWith_two_space [OF uc(3), of "CHR ''T''" "CHR ''-''" c] uc(5,6)
      by simp_all
    show thesis using uc(1,2) 1 2 3 4 5 by (intro that [of u c ?w]) simp_all
  qed
qed

lemma round_trip_PhotoCaption:
  assumes ty: "bubble_type b = PhotoCaption" and wf: "wellFormedPayload b"
  shows "\<exists>b'. parseColumnValue uuidv4 (Some (buildSupabaseValueForBubble availableFlows b)) columnName = Some b' \<and>
              bubble_type b' = bubble_type b \<and> payloadOf b' = payloadOf b"
proof -
  from wf have "wellFormedCaptioned (bubble_data b)"
    by (simp add: wellFormedPayload_def Let_def ty)
  then obtain u c w where uc: "mediaUrl (bubble_data b) = Some u" "caption (bubble_data b) = Some c"
    and w: "js_trim (orEmpty (mediaUrl (bubble_data b)) @ '' '' @ orEmpty (caption (bubble_data b))) = w"
      "w \<noteq> []" "endsClean w" "\<not> startsWith ''T;'' w" "\<not> startsWith ''T-'' w"
    and parts: "partOr (js_split CHR '' '' w) 0 [] = u" "js_join '' '' (drop 1 (js_split CHR '' '' w)) = c"
    by (rule captioned_value)
  show ?thesis
  proof (rule round_trip_via [where v = "''FT-C-'' @ w"])
    show "buildSupabaseValueForBubble availableFlows b = ''FT-C-'' @ w"
      using w(1) by (simp add: buildSupabaseValueForBubble_def ty NODE_PREFIXES_def Let_def)
    show "''FT-C-'' @ w \<noteq> []" by simp
    show "js_trim (''FT-C-'' @ w) = ''FT-C-'' @ w"
      by (intro js_trim_clean endsClean_append w) (simp_all add: isWhiteSpace_def)
    show "decodeValue uuidv4 (''FT-C-'' @ w) columnName =
             \<lparr>bubble_id = uuidv4 0, bubble_type = PhotoCaption,
              bubble_data = (initialData columnName)
                \<lparr>label := NODE_LABELS PhotoCaption, mediaUrl := Some u, caption := Some c\<rparr>\<rparr>"
      using w(4,5) parts by (simp add: decodeValue_def startsWith_def Let_def)
  qed (simp_all add: payloadOf_def ty uc)
qed

lemma round_trip_VideoCaption:
  assumes ty: "bubble_type b = VideoCaption" and wf: "wellFormedPayload b"
  shows "\<exists>b'. parseColumnValue uuidv4 (Some (buildSupabaseValueForBubble availableFlows b)) columnName = Some b' \<and>
              bubble_type b' = bubble_type b \<and> payloadOf b' = payloadOf b"
proof -
  from wf have "wellFormedCaptioned (bubble_data b)"
    by (simp add: wellFormedPayload_def Let_def ty)
  then obtain u c w where uc: "mediaUrl (bubble_data b) = Some u" "caption (bubble_data b) = Some c"
    and w: "js_trim (orEmpty (mediaUrl (bubble_data b)) @ '' '' @ orEmpty (caption (bubble_data b))) = w"
      "w \<noteq> []" "endsClean w" "\<not> startsWith ''T;'' w" "\<not> startsWith ''T-'' w"
    and parts: "partOr (js_split CHR '' '' w) 0 [] = u" "js_join '' '' (drop 1 (js_split CHR '' '' w)) = c"
    by (rule captioned_value)
  show ?thesis
  proof (rule round_trip_via [where v = "''VD-C-'' @ w"])
    show "buildSupabaseValueForBubble availableFlows b = ''VD-C-'' @ w"
      using w(1) by (simp add: buildSupabaseValueForBubble_def ty NODE_PREFIXES_def Let_def)
    show "''VD-C-'' @ w \<noteq> []" by simp
    show "js_trim (''VD-C-'' @ w) = ''VD-C-'' @ w"
      by (intro js_trim_clean endsClean_append w) (simp_all add: isWhiteSpace_def)
    show "decodeValue uuidv4 (''VD-C-'' @ w) columnName =
             \<lparr>bubble_id = uuidv4 0, bubble_type = VideoCaption,
              bubble_data = (initialData columnName)
                \<lparr>label := NODE_LABELS VideoCaption, mediaUrl := Some u, caption := Some c\<rparr>\<rparr>"
      using w(4,5) parts by (simp add: decodeValue_def startsWith_def Let_def)
  qed (simp_all add: payloadOf_def ty uc)
qed


lemma separator_plain: "\<not> isWhiteSpace CHR ''-''" "\<not> isWhiteSpace CHR ''|''"
  by (simp_all add: isWhiteSpace_def)

lemma joined_rules_clean:
  assumes "rs \<noteq> []" "\<And>r. r \<in> set rs \<Longrightarrow> ser r \<noteq> [] \<and> \<not> isWhiteSpace (last (ser r))"
  shows "endsClean (js_join sep (map ser rs))"
proof -
  from assms(1) have "last rs \<in> set rs" by simp
  from assms(2) [OF this] have l: "ser (last rs) \<noteq> []" "\<not> isWhiteSpace (last (ser (last rs)))"
    by simp_all
  have "last (map ser rs) = ser (last rs)" using assms(1) by (simp add: last_map)
  with js_join_last [of "map ser rs" sep] assms(1) l show ?thesis
    by (simp add: endsClean_def)
qed

lemma parseMessageRule_fields:
  assumes "wellFormedMessageRule r"
  shows "(\<lambda>r. (tmr_startTime r, tmr_endTime r, tmr_content r))
           (parseMessageRule rid (tmr_startTime r @ CHR ''-'' # tmr_endTime r @ CHR ''-'' # tmr_content r)) =
         (tmr_startTime r, tmr_endTime r, tmr_content r)"
proof -
  from assms have s: "tmr_startTime r \<noteq> []" "CHR ''-'' \<notin> set (tmr_startTime r)"
    and e: "tmr_endTime r \<noteq> []" "CHR ''-'' \<notin> set (tmr_endTime r)"
    by (simp_all add: wellFormedMessageRule_def windowBound_def)
  have sp: "js_split CHR ''-'' (tmr_startTime r @ CHR ''-'' # tmr_endTime r @ CHR ''-'' # tmr_content r) =
            tmr_startTime r # tmr_endTime r # js_split CHR ''-'' (tmr_content r)"
    by (simp only: js_split_append js_split_none [OF s(2)] js_split_none [OF e(2)]) simp
  show ?thesis
    using s(1) e(1) by (simp add: parseMessageRule_def sp partOr_def js_join_split Let_def)
qed

lemma round_trip_MessageTime:
  assumes ty: "bubble_type b = MessageTime" and wf: "wellFormedPayload b"
  shows "\<exists>b'. parseColumnValue uuidv4 (Some (buildSupabaseValueForBubble availableFlows b)) columnName = Some b' \<and>
              bubble_type b' = bubble_type b \<and> payloadOf b' = payloadOf b"
proof -
  from wf obtain rs where rs: "timeMessageRules (bubble_data b) = Some rs" "rs \<noteq> []"
      "list_all wellFormedMessageRule rs"
    by (simp add: wellFormedPayload_def Let_def ty split: option.splits)
  let ?ser = "\<lambda>r. tmr_startTime r @ CHR ''-'' # tmr_endTime r @ CHR ''-'' # tmr_content r"
  let ?j = "js_join '';'' (map ?ser rs)"
  have wfr: "wellFormedMessageRule r" if "r \<in> set rs" for r
    using rs(3) that by (simp add: list_all_iff)
  have same: "map (\<lambda>r. tmr_startTime r @ ''-'' @ tmr_endTime r @ ''-'' @
                        map (\<lambda>c. if c = CHR '';'' then CHR '','' else c) (tmr_content r)) rs = map ?ser rs"
  proof (rule map_cong [OF refl])
    fix r assume "r \<in> set rs"
    from wfr [OF this] have "CHR '';'' \<notin> set (tmr_content r)" by (simp add: wellFormedMessageRule_def)
    then have "map (\<lambda>c. if c = CHR '';'' then CHR '','' else c) (tmr_content r) = tmr_content r"
      by (induction "tmr_content r") (auto intro: map_idI)
    then show "tmr_startTime r @ ''-'' @ tmr_endTime r @ ''-'' @
                 map (\<lambda>c. if c = CHR '';'' then CHR '','' else c) (tmr_content r) = ?ser r"
      by simp
  qed
  have clean: "endsClean ?j"
  proof (rule joined_rules_clean [OF rs(2)])
    fix r assume "r \<in> set rs"
    from wfr [OF this] have "endsClean (tmr_content r)" by (simp add: wellFormedMessageRule_def)
    then show "?ser r \<noteq> [] \<and> \<not> isWhiteSpace (last (?ser r))"
      by (auto simp add: endsClean_def separator_plain last_append)
  qed
  have nosemi: "\<forall>x \<in> set (map ?ser rs). CHR '';'' \<notin> set x"
    using wfr by (auto simp add: wellFormedMessageRule_def windowBound_def)
  have sp: "js_split CHR '';'' ?j = map ?ser rs"
    by (rule js_split_join) (use rs(2) nosemi in simp_all)
  have fields: "map (\<lambda>r. (tmr_startTime r, tmr_endTime r, tmr_content r))
                  (withIds uuidv4 parseMessageRule (map ?ser rs)) =
                map (\<lambda>r. (tmr_startTime r, tmr_endTime r, tmr_content r)) rs"
    by (rule withIds_fields) (rule parseMessageRule_fields [OF wfr])
  show ?thesis
  proof (rule round_trip_via [where v = "''MSG-TEMPO-'' @ ?j"])
    show "buildSupabaseValueForBubble availableFlows b = ''MSG-TEMPO-'' @ ?j"
      unfolding same [symmetric]
      by (simp add: buildSupabaseValueForBubble_def ty rs NODE_PREFIXES_def Let_def)
    show "''MSG-TEMPO-'' @ ?j \<noteq> []" by simp
    show "js_trim (''MSG-TEMPO-'' @ ?j) = ''MSG-TEMPO-'' @ ?j"
      by (intro js_trim_clean endsClean_append clean) (simp_all add: isWhiteSpace_def)
    show "decodeValue uuidv4 (''MSG-TEMPO-'' @ ?j) columnName =
             \<lparr>bubble_id = uuidv4 (length rs), bubble_type = MessageTime,
              bubble_data = (initialData columnName)
                \<lparr>label := NODE_LABELS MessageTime,
                  timeMessageRules := Some (withIds uuidv4 parseMessageRule (map ?ser rs))\<rparr>\<rparr>"
      by (simp add: decodeValue_def startsWith_def Let_def sp)
  qed (simp_all add: payloadOf_def ty rs messageRulesOf_def fields)
qed

lemma parseMediaRule_fields:
  assumes "wellFormedMediaRule r"
  shows "(\<lambda>r. (tmd_startTime r, tmd_endTime r, tmd_mediaUrl r, tmd_caption r))
           (parseMediaRule rid (tmd_startTime r @ CHR ''|'' # tmd_endTime r @ CHR ''|'' # tmd_mediaUrl r @
                                CHR ''|'' # orEmpty (tmd_caption r))) =
         (tmd_startTime r, tmd_endTime r, tmd_mediaUrl r, tmd_caption r)"
proof -
  from assms have s: "tmd_startTime r \<noteq> []" "CHR ''|'' \<notin> set (tmd_startTime r)"
    and e: "tmd_endTime r \<noteq> []" "CHR ''|'' \<notin> set (tmd_endTime r)"
    and u: "CHR ''|'' \<notin> set (tmd_mediaUrl r)"
    and c: "CHR ''|'' \<notin> set (orEmpty (tmd_caption r))" "tmd_caption r \<noteq> Some []"
    by (auto simp add: wellFormedMediaRule_def windowBound_def separatorFree_def orEmpty_def
        split: option.splits)
  have sp: "js_split CHR ''|'' (tmd_startTime r @ CHR ''|'' # tmd_endTime r @ CHR ''|'' # tmd_mediaUrl r @
                                CHR ''|'' # orEmpty (tmd_caption r)) =
            [tmd_startTime r, tmd_endTime r, tmd_mediaUrl r, orEmpty (tmd_caption r)]"
    by (simp only: js_split_append js_split_none [OF s(2)] js_split_none [OF e(2)]
        js_split_none [OF u] js_split_none [OF c(1)]) simp
  show ?thesis
    unfolding parseMediaRule_def sp Let_def
    using s(1) e(1) c(2) by (cases "tmd_caption r") (simp_all add: partOr_def orEmpty_def)
qed

lemma media_rules_value:
  assumes rs: "rs \<noteq> []" "list_all wellFormedMediaRule rs"
  defines "ser \<equiv> \<lambda>r. tmd_startTime r @ CHR ''|'' # tmd_endTime r @ CHR ''|'' # tmd_mediaUrl r @
                       CHR ''|'' # orEmpty (tmd_caption r)"
  shows "endsClean (js_join '';'' (map ser rs))"
    and "filter (\<lambda>r. r \<noteq> []) (js_split CHR '';'' (js_join '';'' (map ser rs))) = map ser rs"
    and "map (\<lambda>r. (tmd_startTime r, tmd_endTime r, tmd_mediaUrl r, tmd_caption r))
           (withIds uuidv4 parseMediaRule (map ser rs)) =
         map (\<lambda>r. (tmd_startTime r, tmd_endTime r, tmd_mediaUrl r, tmd_caption r)) rs"
proof -
  have wfr: "wellFormedMediaRule r" if "r \<in> set rs" for r
    using rs(2) that by (simp add: list_all_iff)
  show "endsClean (js_join '';'' (map ser rs))"
  proof (rule joined_rules_clean [OF rs(1)])
    fix r assume "r \<in> set rs"
    from wfr [OF this] have "case tmd_caption r of None \<Rightarrow> True | Some c \<Rightarrow> c \<noteq> [] \<and> endsClean c"
      by (simp add: wellFormedMediaRule_def split: option.splits)
    then show "ser r \<noteq> [] \<and> \<not> isWhiteSpace (last (ser r))"
      by (cases "tmd_caption r") (auto simp add: ser_def orEmpty_def endsClean_def separator_plain last_append)
  qed
  have "CHR '';'' \<notin> set (ser r)" if "r \<in> set rs" for r
    using wfr [OF that]
    by (cases "tmd_caption r")
       (simp_all add: ser_def wellFormedMediaRule_def windowBound_def separatorFree_def orEmpty_def)
  then have nosemi: "\<forall>x \<in> set (map ser rs). CHR '';'' \<notin> set x"
    by auto
  have "js_split CHR '';'' (js_join '';'' (map ser rs)) = map ser rs"
    by (rule js_split_join) (use rs(1) nosemi in simp_all)
  moreover have "filter (\<lambda>r. r \<noteq> []) (map ser rs) = map ser rs"
    by (rule filter_True) (simp add: ser_def)
  ultimately show "filter (\<lambda>r. r \<noteq> []) (js_split CHR '';'' (js_join '';'' (map ser rs))) = map ser rs"
    by simp
  show "map (\<lambda>r. (tmd_startTime r, tmd_endTime r, tmd_mediaUrl r, tmd_caption r))
           (withIds uuidv4 parseMediaRule (map ser rs)) =
         map (\<lambda>r. (tmd_startTime r, tmd_endTime r, tmd_mediaUrl r, tmd_caption r)) rs"
    unfolding ser_def by (rule withIds_fields) (rule parseMediaRule_fields [OF wfr])
qed

lemma round_trip_PhotoCaptionTime:
  assumes ty: "bubble_type b = PhotoCaptionTime" and wf: "wellFormedPayload b"
  shows "\<exists>b'. parseColumnValue uuidv4 (Some (buildSupabaseValueForBubble availableFlows b)) columnName = Some b' \<and>
              bubble_type b' = bubble_type b \<and> payloadOf b' = payloadOf b"
proof -
  from wf obtain rs where rs: "timeMediaRules (bubble_data b) = Some rs" "rs \<noteq> []"
      "list_all wellFormedMediaRule rs"
    by (simp add: wellFormedPayload_def Let_def ty split: option.splits)
  let ?ser = "\<lambda>r. tmd_startTime r @ CHR ''|'' # tmd_endTime r @ CHR ''|'' # tmd_mediaUrl r @
                   CHR ''|'' # orEmpty (tmd_caption r)"
  let ?j = "js_join '';'' (map ?ser rs)"
  note v = media_rules_value [OF rs(2,3)]
  show ?thesis
  proof (rule round_trip_via [where v = "''FT-C-T;'' @ ?j"])
    show "buildSupabaseValueForBubble availableFlows b = ''FT-C-T;'' @ ?j"
      by (simp add: buildSupabaseValueForBubble_def ty rs Let_def)
    show "''FT-C-T;'' @ ?j \<noteq> []" by simp
    show "js_trim (''FT-C-T;'' @ ?j) = ''FT-C-T;'' @ ?j"
      by (intro js_trim_clean endsClean_append v(1)) (simp_all add: isWhiteSpace_def)
    show "decodeValue uuidv4 (''FT-C-T;'' @ ?j) columnName =
             \<lparr>bubble_id = uuidv4 (length rs), bubble_type = PhotoCaptionTime,
              bubble_data = (initialData columnName)
                \<lparr>label := NODE_LABELS PhotoCaptionTime,
                  timeMediaRules := Some (withIds uuidv4 parseMediaRule (map ?ser rs))\<rparr>\<rparr>"
      by (simp add: decodeValue_def startsWith_def Let_def v(2))
  qed (simp_all add: payloadOf_def ty rs mediaRulesOf_def v(3))
qed

lemma round_trip_VideoCaptionTime:
  assumes ty: "bubble_type b = VideoCaptionTime" and wf: "wellFormedPayload b"
  shows "\<exists>b'. parseColumnValue uuidv4 (Some (buildSupabaseValueForBubble availableFlows b)) columnName = Some b' \<and>
              bubble_type b' = bubble_type b \<and> payloadOf b' = payloadOf b"
proof -
  from wf obtain rs where rs: "timeMediaRules (bubble_data b) = Some rs" "rs \<noteq> []"
      "list_all wellFormedMediaRule rs"
    by (simp add: wellFormedPayload_def Let_def ty split: option.splits)
  let ?ser = "\<lambda>r. tmd_startTime r @ CHR ''|'' # tmd_endTime r @ CHR ''|'' # tmd_mediaUrl r @
                   CHR ''|'' # orEmpty (tmd_caption r)"
  let ?j = "js_join '';'' (map ?ser rs)"
  note v = media_rules_value [OF rs(2,3)]
  show ?thesis
  proof (rule round_trip_via [where v = "''VD-C-T;'' @ ?j"])
    show "buildSupabaseValueForBubble availableFlows b = ''VD-C-T;'' @ ?j"
      by (simp add: buildSupabaseValueForBubble_def ty rs Let_def)
    show "''VD-C-T;'' @ ?j \<noteq> []" by simp
    show "js_trim (''VD-C-T;'' @ ?j) = ''VD-C-T;'' @ ?j"
      by (intro js_trim_clean endsClean_append v(1)) (simp_all add: isWhiteSpace_def)
    show "decodeValue uuidv4 (''VD-C-T;'' @ ?j) columnName =
             \<lparr>bubble_id = uuidv4 (length rs), bubble_type = VideoCaptionTime,
              bubble_data = (initialData columnName)
                \<lparr>label := NODE_LABELS VideoCaptionTime,
                  timeMediaRules := Some (withIds uuidv4 parseMediaRule (map ?ser rs))\<rparr>\<rparr>"
      by (simp add: decodeValue_def startsWith_def Let_def v(2))
  qed (simp_all add: payloadOf_def ty rs mediaRulesOf_def v(3))
qed


lemma timer_round_trip_parseTColumn:
  assumes ty: "bubble_type b = Time" and wf: "wellFormedPayload b"
  shows "\<exists>b'. parseTColumn uuidv4 (Some (buildSupabaseValueForBubble availableFlows b)) columnName = Some b' \<and>
              bubble_type b' = bubble_type b \<and> payloadOf b' = payloadOf b"
proof -
  from wf obtain x y where xy: "timeMin (bubble_data b) = Some x" "timeMax (bubble_data b) = Some y"
      "0 \<le> x" "0 \<le> y"
    by (simp add: wellFormedPayload_def Let_def ty split: option.splits)
  define m n where "m = nat x" and "n = nat y"
  with xy have mn: "x = int m" "y = int n" by simp_all
  let ?v = "''T-'' @ show_nat m @ ''-'' @ show_nat n"
  have lastd: "\<not> isWhiteSpace (last (show_nat n))"
    using show_nat_digits [of n] show_nat_nonempty [of n]
    by (auto simp add: list_all_iff dest!: isDigit_not_space)
  have nd: "CHR ''-'' \<notin> set (show_nat m)" "CHR ''-'' \<notin> set (show_nat n)"
    by (rule show_nat_free; simp add: isDigit_def)+
  have sp: "js_split CHR ''-'' (show_nat m @ CHR ''-'' # show_nat n) = [show_nat m, show_nat n]"
    by (simp only: js_split_append js_split_none [OF nd(1)] js_split_none [OF nd(2)]) simp
  have pair: "parseTimePair (show_nat m @ CHR ''-'' # show_nat n) = (int m, int n)"
    by (simp add: parseTimePair_def sp js_Number_show_nat Let_def)
  have enc: "buildSupabaseValueForBubble availableFlows b = ?v"
    by (simp add: buildSupabaseValueForBubble_def ty xy mn NODE_PREFIXES_def show_int_def Let_def)
  have tr: "js_trim ?v = ?v"
    by (rule js_trim_no_space) (use lastd show_nat_nonempty [of n] in \<open>simp_all add: isWhiteSpace_def\<close>)
  have "parseTColumn uuidv4 (Some ?v) columnName =
        Some \<lparr>bubble_id = uuidv4 0, bubble_type = Time,
              bubble_data = (initialData columnName)
                \<lparr>label := NODE_LABELS Time, timeMin := Some (int m), timeMax := Some (int n)\<rparr>\<rparr>"
    using pair tr by (simp add: parseTColumn_def Let_def startsWith_def)
  then show ?thesis
    unfolding enc by (simp add: payloadOf_def ty xy mn)
qed

text \<open>
  Claim C1, as the code has it. For the kinds message, message-utm, message-time, photo,
  photo-caption, photo-caption-time, video, video-caption, video-caption-time, audio, time,
  lead-respond and link-pix and every payload that is well-formed in the sense of
  \<open>wellFormedPayload\<close>, decoding the encoded slot string yields a step of the same kind with
  the same payload (content, utm, url, caption, timer bounds, time rules without their ids),
  whatever the flows of the group, the column name and the fresh ids. Time windows from
  \<open>00:00\<close> to \<open>23:59\<close> are well-formed bounds.
\<close>

theorem codec_round_trip:
  assumes "wellFormedPayload b"
  shows "\<exists>b'. parseColumnValue uuidv4 (Some (buildSupabaseValueForBubble availableFlows b)) columnName = Some b' \<and>
              bubble_type b' = bubble_type b \<and> payloadOf b' = payloadOf b"
proof (cases "bubble_type b")
  case Message
  from this assms show ?thesis by (rule round_trip_Message)
next
  case MessageUtm
  from this assms show ?thesis by (rule round_trip_MessageUtm)
next
  case MessageTime
  from this assms show ?thesis by (rule round_trip_MessageTime)
next
  case Photo
  from this assms show ?thesis by (rule round_trip_Photo)
next
  case PhotoCaption
  from this assms show ?thesis by (rule round_trip_PhotoCaption)
next
  case PhotoCaptionTime
  from this assms show ?thesis by (rule round_trip_PhotoCaptionTime)
next
  case Video
  from this assms show ?thesis by (rule round_trip_Video)
next
  case VideoCaption
  from this assms show ?thesis by (rule round_trip_VideoCaption)
next
  case VideoCaptionTime
  from this assms show ?thesis by (rule round_trip_VideoCaptionTime)
next
  case Audio
  from this assms show ?thesis by (rule round_trip_Audio)
next
  case Time
  from this assms show ?thesis by (rule round_trip_Time)
next
  case LeadRespond
  then show ?thesis by (rule round_trip_LeadRespond)
next
  case LinkPix
  then show ?thesis by (rule round_trip_LinkPix)
next
  case Start
  with assms show ?thesis by (simp add: wellFormedPayload_def)
next
  case Hook
  with assms show ?thesis by (simp add: wellFormedPayload_def)
next
  case DeleteHook
  with assms show ?thesis by (simp add: wellFormedPayload_def)
next
  case Deliverable
  with assms show ?thesis by (simp add: wellFormedPayload_def)
next
  case Reminder
  with assms show ?thesis by (simp add: wellFormedPayload_def)
next
  case Note
  with assms show ?thesis by (simp add: wellFormedPayload_def)
qed

theorem codec_round_trip_witness:
  "wellFormedPayload examplePhotoWindows \<and>
   (\<exists>b'. parseColumnValue exampleUuid (Some (buildSupabaseValueForBubble [] examplePhotoWindows)) ''M3'' = Some b' \<and>
         bubble_type b' = PhotoCaptionTime \<and>
         pl_mediaRules (payloadOf b') =
           [(''00:00'', ''23:59'', ''https://cdn.example.com/a-b.png'', Some ''Bom dia - oferta''),
            (''06:00'', ''12:00'', ''https://cdn.example.com/c.png'', None)])"
proof -
  have wf: "wellFormedPayload examplePhotoWindows" by code_simp
  have ty: "bubble_type examplePhotoWindows = PhotoCaptionTime" by code_simp
  have pl: "pl_mediaRules (payloadOf examplePhotoWindows) =
           [(''00:00'', ''23:59'', ''https://cdn.example.com/a-b.png'', Some ''Bom dia - oferta''),
            (''06:00'', ''12:00'', ''https://cdn.example.com/c.png'', None)]" by code_simp
  from codec_round_trip [OF wf, of exampleUuid "[]" "''M3''"] wf show ?thesis
    unfolding ty using pl by auto
qed

text \<open>
  Claim C1, as stated, fails for the kind delete-hook, whose slot string
  \<open>APAGAR-GANCHO-FRONT\<close> is decoded as a hook step with the action delete, and for a message
  whose text begins with \<open>UTM-\<close>, whose slot string is decoded as a message-utm step with the
  last word as utm.
\<close>

theorem codec_kind_counterexample:
  "bubble_type exampleDeleteHook = DeleteHook \<and>
   buildSupabaseValueForBubble [] exampleDeleteHook = ''APAGAR-GANCHO-FRONT'' \<and>
   map_option bubble_type
     (parseColumnValue exampleUuid (Some (buildSupabaseValueForBubble [] exampleDeleteHook)) ''M1'') =
     Some Hook \<and>
   bubble_type exampleUtmLikeMessage = Message \<and>
   content (bubble_data exampleUtmLikeMessage) = Some ''UTM-source deve ser preenchido'' \<and>
   map_option (\<lambda>b. (bubble_type b, content (bubble_data b), utm (bubble_data b)))
     (parseColumnValue exampleUuid (Some (buildSupabaseValueForBubble [] exampleUtmLikeMessage)) ''M2'') =
     Some (MessageUtm, Some ''source deve ser'', Some ''preenchido'')"
  by code_simp

end
